(* ===== verification/Prelude.thy ===== *)
theory Prelude
  imports Main "HOL-Library.Word"
begin

unbundle bit_operations_syntax

text \<open>
  Shared vocabulary of the development: the C integer types of \<^verbatim>\<open>kernel/types.h\<close>, the
  result type of kernel code (a value and a state, a panic, or a process that has to sleep),
  the sequencing operation that threads the state, the rules that reason about it, and generic
  lemmas on words and lists that several components use.
\<close>

section \<open>Integer types\<close>

type_synonym u8 = "8 word"
type_synonym u16 = "16 word"
type_synonym u32 = "32 word"
type_synonym u64 = "64 word"

section \<open>Results of kernel code\<close>

text \<open>
  The wait channels the kernel sleeps on. In C a channel is the address of some kernel object;
  each constructor stands for the address of one object, so two different constructor terms are
  two different addresses.
\<close>

datatype chan =
    Chan_none
  | Chan_proc nat            \<comment> \<open>a \<open>struct proc *\<close>, slept on by wait()\<close>
  | Chan_log                 \<comment> \<open>&log\<close>
  | Chan_buf_lock nat        \<comment> \<open>the sleep lock of a buffer\<close>
  | Chan_inode_lock nat      \<comment> \<open>the sleep lock of an inode\<close>
  | Chan_pipe_read u64       \<comment> \<open>&pi->nread\<close>
  | Chan_pipe_write u64      \<comment> \<open>&pi->nwrite\<close>
  | Chan_ticks               \<comment> \<open>&ticks\<close>
  | Chan_uart                \<comment> \<open>&uart_tx_r\<close>
  | Chan_cons                \<comment> \<open>&cons.r\<close>
  | Chan_disk_free           \<comment> \<open>&disk.free[0]\<close>
  | Chan_buf nat             \<comment> \<open>a \<open>struct buf *\<close>, slept on by virtio_disk_rw()\<close>
  | Chan_exit                \<comment> \<open>not a channel: the process has exited and is never resumed\<close>

text \<open>
  \<open>Ret x s\<close>: the code returned \<open>x\<close> in state \<open>s\<close>. \<open>Panic m\<close>: it called
  \<open>panic(m)\<close>, which never returns. \<open>Block c s\<close>: it called \<open>sleep(c, ...)\<close> in state
  \<open>s\<close> and waits for another process or an interrupt, or, with \<open>Chan_exit\<close>, it has left the CPU
  for good.
\<close>

datatype ('a, 's) res = Ret 'a 's | Panic string | Block chan 's

type_synonym ('s, 'a) M = "'s \<Rightarrow> ('a, 's) res"

definition retM :: "'a \<Rightarrow> ('s, 'a) M" where
  "retM x = (\<lambda>s. Ret x s)"

definition bindM :: "('s, 'a) M \<Rightarrow> ('a \<Rightarrow> ('s, 'b) M) \<Rightarrow> ('s, 'b) M" where
  "bindM m f = (\<lambda>s. case m s of Ret x s' \<Rightarrow> f x s' | Panic e \<Rightarrow> Panic e | Block c s' \<Rightarrow> Block c s')"

definition thenM :: "('s, 'a) M \<Rightarrow> ('s, 'b) M \<Rightarrow> ('s, 'b) M" where
  "thenM m k = bindM m (\<lambda>_. k)"

definition panicM :: "string \<Rightarrow> ('s, 'a) M" where
  "panicM e = (\<lambda>s. Panic e)"

definition blockM :: "chan \<Rightarrow> ('s, 'a) M" where
  "blockM c = (\<lambda>s. Block c s)"

definition getM :: "('s \<Rightarrow> 'a) \<Rightarrow> ('s, 'a) M" where
  "getM f = (\<lambda>s. Ret (f s) s)"

definition modM :: "('s \<Rightarrow> 's) \<Rightarrow> ('s, unit) M" where
  "modM f = (\<lambda>s. Ret () (f s))"

text \<open>\<open>whenM\<close> is a C \<open>if\<close> without an \<open>else\<close>.\<close>

definition whenM :: "bool \<Rightarrow> ('s, unit) M \<Rightarrow> ('s, unit) M" where
  "whenM b m = (if b then m else retM ())"

text \<open>A loop over the elements of a list, in order.\<close>

fun eachM :: "('a \<Rightarrow> ('s, unit) M) \<Rightarrow> 'a list \<Rightarrow> ('s, unit) M" where
  "eachM f [] = retM ()"
| "eachM f (x # xs) = thenM (f x) (eachM f xs)"

named_theorems monad_simps \<open>equations that run the result monad\<close>
named_theorems const_defs \<open>definitions of the numeric constants of the C headers\<close>

lemma retM_apply [simp, monad_simps]: "retM x s = Ret x s"
  by (simp add: retM_def)

lemma panicM_apply [simp, monad_simps]: "panicM e s = Panic e"
  by (simp add: panicM_def)

lemma blockM_apply [simp, monad_simps]: "blockM c s = Block c s"
  by (simp add: blockM_def)

lemma getM_apply [simp, monad_simps]: "getM f s = Ret (f s) s"
  by (simp add: getM_def)

lemma modM_apply [simp, monad_simps]: "modM f s = Ret () (f s)"
  by (simp add: modM_def)

lemma bindM_Ret [simp, monad_simps]: "m s = Ret x s' \<Longrightarrow> bindM m f s = f x s'"
  by (simp add: bindM_def)

lemma bindM_Panic [simp, monad_simps]: "m s = Panic e \<Longrightarrow> bindM m f s = Panic e"
  by (simp add: bindM_def)

lemma bindM_Block [simp, monad_simps]: "m s = Block c s' \<Longrightarrow> bindM m f s = Block c s'"
  by (simp add: bindM_def)

lemma thenM_Ret [simp, monad_simps]: "m s = Ret x s' \<Longrightarrow> thenM m k s = k s'"
  by (simp add: thenM_def)

lemma thenM_Panic [simp, monad_simps]: "m s = Panic e \<Longrightarrow> thenM m k s = Panic e"
  by (simp add: thenM_def)

lemma thenM_Block [simp, monad_simps]: "m s = Block c s' \<Longrightarrow> thenM m k s = Block c s'"
  by (simp add: thenM_def)

lemma whenM_True [simp, monad_simps]: "whenM True m = m"
  by (simp add: whenM_def)

lemma whenM_False [simp, monad_simps]: "whenM False m = retM ()"
  by (simp add: whenM_def)

lemma bindM_eq_Ret:
  "bindM m f s = Ret y s'' \<longleftrightarrow> (\<exists>x s'. m s = Ret x s' \<and> f x s' = Ret y s'')"
  by (auto simp: bindM_def split: res.splits)

lemma thenM_eq_Ret:
  "thenM m k s = Ret y s'' \<longleftrightarrow> (\<exists>x s'. m s = Ret x s' \<and> k s' = Ret y s'')"
  by (simp add: thenM_def bindM_eq_Ret)

lemma bindM_assoc: "bindM (bindM m f) g = bindM m (\<lambda>x. bindM (f x) g)"
  by (auto simp: bindM_def fun_eq_iff split: res.splits)

lemma bindM_retM [simp]: "bindM (retM x) f = f x"
  by (simp add: fun_eq_iff)

lemma thenM_retM [simp]: "thenM (retM x) m = m"
  by (simp add: fun_eq_iff)

lemma eachM_append: "eachM f (xs @ ys) = thenM (eachM f xs) (eachM f ys)"
proof (induction xs)
  case Nil
  then show ?case by simp
next
  case (Cons x xs)
  then show ?case by (simp add: thenM_def bindM_assoc)
qed

text \<open>
  Total correctness: from a state with \<open>P\<close> the code returns, and value and state satisfy
  \<open>Q\<close>. It neither panics nor sleeps.
\<close>

definition totalM :: "('s \<Rightarrow> bool) \<Rightarrow> ('s, 'a) M \<Rightarrow> ('a \<Rightarrow> 's \<Rightarrow> bool) \<Rightarrow> bool" where
  "totalM P m Q \<longleftrightarrow> (\<forall>s. P s \<longrightarrow> (\<exists>x s'. m s = Ret x s' \<and> Q x s'))"

lemma totalMI [intro?]:
  "(\<And>s. P s \<Longrightarrow> \<exists>x s'. m s = Ret x s' \<and> Q x s') \<Longrightarrow> totalM P m Q"
  by (simp add: totalM_def)

lemma totalME:
  assumes "totalM P m Q" and "P s"
  obtains x s' where "m s = Ret x s'" and "Q x s'"
  using assms by (auto simp: totalM_def)

lemma totalM_conseq:
  "totalM P' m Q' \<Longrightarrow> (\<And>s. P s \<Longrightarrow> P' s) \<Longrightarrow> (\<And>x s. Q' x s \<Longrightarrow> Q x s) \<Longrightarrow> totalM P m Q"
  unfolding totalM_def by meson

lemma totalM_bind:
  assumes "totalM P m R" and "\<And>x. totalM (R x) (f x) Q"
  shows "totalM P (bindM m f) Q"
proof
  fix s assume "P s"
  with assms(1) obtain x s' where 1: "m s = Ret x s'" and "R x s'" by (rule totalME)
  from assms(2) this(2) obtain y s'' where 2: "f x s' = Ret y s''" and "Q y s''" by (rule totalME)
  with 1 show "\<exists>x s'. bindM m f s = Ret x s' \<and> Q x s'" by simp
qed

lemma totalM_eachM:
  assumes "\<And>x. x \<in> set xs \<Longrightarrow> totalM I (f x) (\<lambda>_. I)"
  shows "totalM I (eachM f xs) (\<lambda>_. I)"
  using assms
proof (induction xs)
  case Nil
  then show ?case by (simp add: totalM_def)
next
  case (Cons x xs)
  have "totalM I (f x) (\<lambda>_. I)" by (simp add: Cons.prems)
  moreover have "totalM I (eachM f xs) (\<lambda>_. I)" by (simp add: Cons)
  ultimately show ?case by (simp add: thenM_def totalM_bind)
qed

section \<open>Words and lists\<close>

text \<open>
  \<open>first_index P n\<close> is the index the C loop \<open>for(i = 0; i < n; i++) if(P(i)) ...\<close> stops at,
  the shape of every table scan of the kernel.
\<close>

definition first_index :: "(nat \<Rightarrow> bool) \<Rightarrow> nat \<Rightarrow> nat option" where
  "first_index P n = find P [0..<n]"

lemma first_index_SomeD:
  assumes "first_index P n = Some i"
  shows "i < n" and "P i" and "\<And>j. j < i \<Longrightarrow> \<not> P j"
  using assms by (auto simp: first_index_def find_Some_iff)

lemma first_index_None_iff: "first_index P n = None \<longleftrightarrow> (\<forall>i<n. \<not> P i)"
  by (auto simp: first_index_def find_None_iff)

lemma first_index_Some_iff:
  "first_index P n = Some i \<longleftrightarrow> i < n \<and> P i \<and> (\<forall>j<i. \<not> P j)"
proof
  assume "i < n \<and> P i \<and> (\<forall>j<i. \<not> P j)"
  then show "first_index P n = Some i"
    unfolding first_index_def find_Some_iff by (auto intro!: exI [of _ i])
qed (auto dest: first_index_SomeD)

lemma unat_less_pow: "unat (w :: 'a::len word) < 2 ^ LENGTH('a)"
  by (rule unsigned_less)

lemma of_nat_diff_word:
  "a \<le> b \<Longrightarrow> (of_nat b :: 'a::len word) - of_nat a = of_nat (b - a)"
  by simp

end
