(* ===== verification/Bytes.thy ===== *)
theory Bytes
  imports Prelude
begin

text \<open>
  Bytes and the little-endian layout of integers in them. A physical memory is a function from
  addresses to bytes; a disk block or a C struct on the disk is a list of bytes. Every read or
  write of a multi-byte field in the development goes through the functions of this theory.
\<close>

section \<open>Integers as bytes\<close>

definition byte_of :: "nat \<Rightarrow> 'a::len word \<Rightarrow> u8" where
  "byte_of i w = ucast (drop_bit (8 * i) w)"

definition bytes_of :: "nat \<Rightarrow> 'a::len word \<Rightarrow> u8 list" where
  "bytes_of n w = map (\<lambda>i. byte_of i w) [0..<n]"

fun word_of_bytes :: "u8 list \<Rightarrow> 'a::len word" where
  "word_of_bytes [] = 0"
| "word_of_bytes (b # bs) = ucast b OR push_bit 8 (word_of_bytes bs)"

lemma length_bytes_of [simp]: "length (bytes_of n w) = n"
  by (simp add: bytes_of_def)

lemma nth_bytes_of [simp]: "i < n \<Longrightarrow> bytes_of n w ! i = byte_of i w"
  by (simp add: bytes_of_def)

lemma bit_byte_of: "bit (byte_of i w) n \<longleftrightarrow> n < 8 \<and> bit w (8 * i + n)"
  for w :: "'a::len word"
  by (auto simp: byte_of_def bit_simps add.commute dest: bit_imp_le_length)

lemma bit_word_of_bytes:
  "bit (word_of_bytes bs :: 'a::len word) n \<longleftrightarrow>
     n < LENGTH('a) \<and> n div 8 < length bs \<and> bit (bs ! (n div 8)) (n mod 8)"
proof (induction bs arbitrary: n)
  case Nil
  then show ?case by simp
next
  case (Cons b bs)
  show ?case
  proof (cases "n < 8")
    case True
    then show ?thesis by (simp add: bit_or_iff bit_push_bit_iff bit_unsigned_iff)
  next
    case False
    then have "n div 8 = Suc ((n - 8) div 8)" and "n mod 8 = (n - 8) mod 8"
      by (simp_all add: le_div_geq le_mod_geq)
    moreover have "\<not> bit (ucast b :: 'a word) n"
      using False by (auto simp: bit_unsigned_iff dest: bit_imp_le_length)
    ultimately show ?thesis using False Cons.IH [of "n - 8"]
      by (auto simp: bit_or_iff bit_push_bit_iff)
  qed
qed

lemma word_of_bytes_of:
  fixes w :: "'a::len word"
  assumes "LENGTH('a) \<le> 8 * n"
  shows "word_of_bytes (bytes_of n w) = w"
proof (rule bit_word_eqI)
  fix k assume k: "k < LENGTH('a)"
  with assms have "k div 8 < n" by (simp add: less_mult_imp_div_less mult.commute)
  then show "bit (word_of_bytes (bytes_of n w) :: 'a word) k = bit w k"
    using k by (simp add: bit_word_of_bytes bit_byte_of)
qed

section \<open>Fields of a byte list\<close>

definition patch :: "u8 list \<Rightarrow> nat \<Rightarrow> u8 list \<Rightarrow> u8 list" where
  "patch d off bs = take off d @ bs @ drop (off + length bs) d"

definition get16 :: "u8 list \<Rightarrow> nat \<Rightarrow> u16" where
  "get16 d off = word_of_bytes (take 2 (drop off d))"

definition get32 :: "u8 list \<Rightarrow> nat \<Rightarrow> u32" where
  "get32 d off = word_of_bytes (take 4 (drop off d))"

definition put16 :: "u8 list \<Rightarrow> nat \<Rightarrow> u16 \<Rightarrow> u8 list" where
  "put16 d off w = patch d off (bytes_of 2 w)"

definition put32 :: "u8 list \<Rightarrow> nat \<Rightarrow> u32 \<Rightarrow> u8 list" where
  "put32 d off w = patch d off (bytes_of 4 w)"

lemma length_patch [simp]: "off + length bs \<le> length d \<Longrightarrow> length (patch d off bs) = length d"
  by (simp add: patch_def)

lemma length_put32 [simp]: "off + 4 \<le> length d \<Longrightarrow> length (put32 d off w) = length d"
  by (simp add: put32_def)

lemma length_put16 [simp]: "off + 2 \<le> length d \<Longrightarrow> length (put16 d off w) = length d"
  by (simp add: put16_def)

lemma nth_patch:
  assumes "off + length bs \<le> length d" and "i < length d"
  shows "patch d off bs ! i = (if off \<le> i \<and> i < off + length bs then bs ! (i - off) else d ! i)"
  using assms by (auto simp: patch_def nth_append min_def)

lemma take_drop_patch_same:
  assumes "off + length bs \<le> length d"
  shows "take (length bs) (drop off (patch d off bs)) = bs"
  using assms by (simp add: patch_def)

lemma take_drop_patch_other:
  assumes "off + length bs \<le> length d" and "off' + n \<le> off \<or> off + length bs \<le> off'"
  shows "take n (drop off' (patch d off bs)) = take n (drop off' d)"
proof (rule nth_equalityI)
  fix i assume "i < length (take n (drop off' (patch d off bs)))"
  then have "off' + i < length d" and "i < n" using assms(1) by auto
  then show "take n (drop off' (patch d off bs)) ! i = take n (drop off' d) ! i"
    using assms by (auto simp: nth_patch)
qed (use assms in simp)

lemma get32_put32_same [simp]:
  assumes "off + 4 \<le> length d"
  shows "get32 (put32 d off w) off = w"
proof -
  have "take 4 (drop off (put32 d off w)) = bytes_of 4 w"
    using take_drop_patch_same [of off "bytes_of 4 w" d] assms by (simp add: put32_def)
  then show ?thesis by (simp add: get32_def word_of_bytes_of)
qed

lemma get32_put32_other [simp]:
  assumes "off + 4 \<le> length d" and "off' + 4 \<le> off \<or> off + 4 \<le> off'"
  shows "get32 (put32 d off w) off' = get32 d off'"
  using take_drop_patch_other [of off "bytes_of 4 w" d off' 4] assms
  by (simp add: get32_def put32_def)

lemma get16_put16_same [simp]:
  assumes "off + 2 \<le> length d"
  shows "get16 (put16 d off w) off = w"
proof -
  have "take 2 (drop off (put16 d off w)) = bytes_of 2 w"
    using take_drop_patch_same [of off "bytes_of 2 w" d] assms by (simp add: put16_def)
  then show ?thesis by (simp add: get16_def word_of_bytes_of)
qed

lemma get16_put16_other [simp]:
  assumes "off + 2 \<le> length d" and "off' + 2 \<le> off \<or> off + 2 \<le> off'"
  shows "get16 (put16 d off w) off' = get16 d off'"
  using take_drop_patch_other [of off "bytes_of 2 w" d off' 2] assms
  by (simp add: get16_def put16_def)

lemma get32_put16_other [simp]:
  assumes "off + 2 \<le> length d" and "off' + 4 \<le> off \<or> off + 2 \<le> off'"
  shows "get32 (put16 d off w) off' = get32 d off'"
  using take_drop_patch_other [of off "bytes_of 2 w" d off' 4] assms
  by (simp add: get32_def put16_def)

lemma get16_put32_other [simp]:
  assumes "off + 4 \<le> length d" and "off' + 2 \<le> off \<or> off + 4 \<le> off'"
  shows "get16 (put32 d off w) off' = get16 d off'"
  using take_drop_patch_other [of off "bytes_of 4 w" d off' 2] assms
  by (simp add: get16_def put32_def)

section \<open>Fields of memory\<close>

type_synonym memory = "u64 \<Rightarrow> u8"

definition load_bytes :: "memory \<Rightarrow> u64 \<Rightarrow> nat \<Rightarrow> u8 list" where
  "load_bytes m a n = map (\<lambda>i. m (a + of_nat i)) [0..<n]"

fun store_bytes :: "memory \<Rightarrow> u64 \<Rightarrow> u8 list \<Rightarrow> memory" where
  "store_bytes m a [] = m"
| "store_bytes m a (b # bs) = store_bytes (m(a := b)) (a + 1) bs"

definition load64 :: "memory \<Rightarrow> u64 \<Rightarrow> u64" where
  "load64 m a = word_of_bytes (load_bytes m a 8)"

definition store64 :: "memory \<Rightarrow> u64 \<Rightarrow> u64 \<Rightarrow> memory" where
  "store64 m a w = store_bytes m a (bytes_of 8 w)"

lemma length_load_bytes [simp]: "length (load_bytes m a n) = n"
  by (simp add: load_bytes_def)

lemma nth_load_bytes [simp]: "i < n \<Longrightarrow> load_bytes m a n ! i = m (a + of_nat i)"
  by (simp add: load_bytes_def)

lemma load_bytes_cong:
  "(\<And>i. i < n \<Longrightarrow> m (a + of_nat i) = m' (a + of_nat i)) \<Longrightarrow> load_bytes m a n = load_bytes m' a n"
  by (simp add: load_bytes_def)

text \<open>\<open>x\<close> lies in the \<open>n\<close> bytes from \<open>a\<close> exactly if \<open>unat (x - a) < n\<close>.\<close>

lemma store_bytes_apply:
  assumes "length bs \<le> 2 ^ 64"
  shows "store_bytes m a bs x =
    (if unat (x - a) < length bs then bs ! unat (x - a) else m x)"
  using assms
proof (induction bs arbitrary: m a)
  case Nil
  then show ?case by simp
next
  case (Cons b bs)
  show ?case
  proof (cases "x = a")
    case True
    then have "unat (x - (a + 1)) = 2 ^ 64 - 1"
      by (simp add: unsigned_minus_1_eq_mask mask_eq_exp_minus_1)
    then show ?thesis using True Cons by simp
  next
    case False
    then have nz: "x - a \<noteq> 0" by simp
    have "x - (a + 1) = (x - a) - 1" by (simp add: algebra_simps)
    then have "unat (x - (a + 1)) = unat (x - a) - 1" using unat_minus_one [OF nz] by (simp only:)
    moreover have "0 < unat (x - a)" using nz unat_gt_0 by blast
    ultimately have "unat (x - a) = Suc (unat (x - (a + 1)))" by linarith
    then show ?thesis using False Cons by simp
  qed
qed

lemma unat_add_offset:
  "n \<le> 2 ^ 64 \<Longrightarrow> i < n \<Longrightarrow> unat ((a + of_nat i) - a :: u64) = i"
  by (simp add: unat_of_nat)

lemma load_store_bytes_same:
  assumes "length bs \<le> 2 ^ 64"
  shows "load_bytes (store_bytes m a bs) a (length bs) = bs"
proof (rule nth_equalityI)
  fix i assume "i < length (load_bytes (store_bytes m a bs) a (length bs))"
  then have i: "i < length bs" by simp
  then have "unat (word_of_nat i :: u64) = i" using assms by (simp add: unat_of_nat)
  then show "load_bytes (store_bytes m a bs) a (length bs) ! i = bs ! i"
    using i assms by (simp add: store_bytes_apply)
qed simp

lemma load_store_bytes_disjoint:
  assumes "length bs \<le> 2 ^ 64" and "\<And>i. i < n \<Longrightarrow> length bs \<le> unat (a' + of_nat i - a)"
  shows "load_bytes (store_bytes m a bs) a' n = load_bytes m a' n"
  using assms by (intro load_bytes_cong) (force simp: store_bytes_apply)

lemma load64_store64_same [simp]: "load64 (store64 m a w) a = w"
proof -
  have "load_bytes (store64 m a w) a 8 = bytes_of 8 w"
    using load_store_bytes_same [of "bytes_of 8 w" m a] by (simp add: store64_def)
  then show ?thesis by (simp add: load64_def word_of_bytes_of)
qed

lemma store64_apply:
  "store64 m a w x = (if unat (x - a) < 8 then byte_of (unat (x - a)) w else m x)"
  by (simp add: store64_def store_bytes_apply)

lemma load64_cong:
  "(\<And>i. i < 8 \<Longrightarrow> m (a + of_nat i) = m' (a + of_nat i)) \<Longrightarrow> load64 m a = load64 m' a"
  using load_bytes_cong [of 8 m a m'] by (simp add: load64_def)

end
