(* ===== verification/CString.thy ===== *)
theory CString
  imports Bytes
begin

text \<open>
  The string and memory functions of \<^verbatim>\<open>kernel/string.c\<close>. Functions that write work on the
  memory (\<^verbatim>\<open>memset\<close>, \<^verbatim>\<open>memmove\<close>) or return the bytes they write from the destination on
  (\<^verbatim>\<open>strncpy\<close>, \<^verbatim>\<open>safestrcpy\<close>). A read-only string argument is the function from offsets to
  bytes that its pointer denotes, and \<open>p++\<close> shifts it by one.
\<close>

section \<open>Model\<close>

type_synonym cptr = "nat \<Rightarrow> u8"

definition incp :: "cptr \<Rightarrow> cptr" where
  "incp p = (\<lambda>i. p (Suc i))"

text \<open>The pointer into memory, and into a byte array (zero beyond its end).\<close>

definition mem_ptr :: "memory \<Rightarrow> u64 \<Rightarrow> cptr" where
  "mem_ptr m a = (\<lambda>i. m (a + of_nat i))"

definition arr_ptr :: "u8 list \<Rightarrow> cptr" where
  "arr_ptr xs = (\<lambda>i. if i < length xs then xs ! i else 0)"

definition memset :: "memory \<Rightarrow> u64 \<Rightarrow> u8 \<Rightarrow> nat \<Rightarrow> memory" where
  "memset m dst c n = fold (\<lambda>i m. m(dst + of_nat i := c)) [0..<n] m"

fun memcmp :: "cptr \<Rightarrow> cptr \<Rightarrow> nat \<Rightarrow> int" where
  "memcmp s1 s2 0 = 0"
| "memcmp s1 s2 (Suc n) =
     (if s1 0 \<noteq> s2 0 then uint (s1 0) - uint (s2 0) else memcmp (incp s1) (incp s2) n)"

fun copy_up :: "memory \<Rightarrow> u64 \<Rightarrow> u64 \<Rightarrow> nat \<Rightarrow> memory" where
  "copy_up m d s 0 = m"
| "copy_up m d s (Suc n) = copy_up (m(d := m s)) (d + 1) (s + 1) n"

fun copy_down :: "memory \<Rightarrow> u64 \<Rightarrow> u64 \<Rightarrow> nat \<Rightarrow> memory" where
  "copy_down m d s 0 = m"
| "copy_down m d s (Suc n) = copy_down (m(d - 1 := m (s - 1))) (d - 1) (s - 1) n"

definition memmove :: "memory \<Rightarrow> u64 \<Rightarrow> u64 \<Rightarrow> nat \<Rightarrow> memory" where
  "memmove m dst src n =
     (if n = 0 then m
      else if src < dst \<and> src + of_nat n > dst
      then copy_down m (dst + of_nat n) (src + of_nat n) n
      else copy_up m dst src n)"

definition memcpy :: "memory \<Rightarrow> u64 \<Rightarrow> u64 \<Rightarrow> nat \<Rightarrow> memory" where
  "memcpy m dst src n = memmove m dst src n"

fun strncmp :: "cptr \<Rightarrow> cptr \<Rightarrow> nat \<Rightarrow> int" where
  "strncmp p q 0 = 0"
| "strncmp p q (Suc n) =
     (if p 0 \<noteq> 0 \<and> p 0 = q 0 then strncmp (incp p) (incp q) n
      else uint (p 0) - uint (q 0))"

fun strncpy :: "cptr \<Rightarrow> nat \<Rightarrow> u8 list" where
  "strncpy t 0 = []"
| "strncpy t (Suc n) =
     t 0 # (if t 0 \<noteq> 0 then strncpy (incp t) n else replicate n 0)"

text \<open>
  After the loop has copied the terminating zero, \<open>s\<close> already points one byte further, and
  \<open>*s = 0\<close> writes that byte too.
\<close>

fun safestrcpy :: "cptr \<Rightarrow> nat \<Rightarrow> u8 list" where
  "safestrcpy t 0 = []"
| "safestrcpy t (Suc 0) = [0]"
| "safestrcpy t (Suc (Suc n)) =
     (if t 0 \<noteq> 0 then t 0 # safestrcpy (incp t) (Suc n) else [0, 0])"

partial_function (option) strlen_from :: "cptr \<Rightarrow> nat \<Rightarrow> nat option" where
  "strlen_from s n = (if s n = 0 then Some n else strlen_from s (Suc n))"

definition strlen :: "cptr \<Rightarrow> nat option" where
  "strlen s = strlen_from s 0"

section \<open>What the functions compute\<close>

text \<open>The C string at \<open>p\<close>, cut after \<open>n\<close> bytes: the bytes before the first zero.\<close>

definition cstr :: "cptr \<Rightarrow> nat \<Rightarrow> u8 list" where
  "cstr p n = takeWhile (\<lambda>c. c \<noteq> 0) (map p [0..<n])"

lemma cstr_0 [simp]: "cstr p 0 = []"
  by (simp add: cstr_def)

lemma map_upt_incp: "map p [0..<Suc n] = p 0 # map (incp p) [0..<n]"
  by (simp add: incp_def map_upt_Suc del: upt_Suc)

lemma cstr_Suc: "cstr p (Suc n) = (if p 0 = 0 then [] else p 0 # cstr (incp p) n)"
  unfolding cstr_def map_upt_incp by simp

lemma memset_apply:
  assumes "n \<le> 2 ^ 64"
  shows "memset m dst c n x = (if unat (x - dst) < n then c else m x)"
  using assms
proof (induction n)
  case 0
  then show ?case by (simp add: memset_def)
next
  case (Suc n)
  have "x = dst + of_nat n \<longleftrightarrow> unat (x - dst) = n"
  proof
    assume "unat (x - dst) = n"
    then have "x - dst = of_nat n" by (metis of_nat_unat ucast_id)
    then show "x = dst + of_nat n" by (metis add_diff_cancel_left' diff_add_cancel add.commute)
  qed (use Suc.prems in \<open>simp add: unat_of_nat\<close>)
  then show ?case using Suc by (auto simp: memset_def less_Suc_eq)
qed

lemma copy_up_apply:
  assumes "unat s + n \<le> 2 ^ 64" and "unat d + n \<le> 2 ^ 64" and "d \<le> s \<or> unat s + n \<le> unat d"
  shows "copy_up m d s n x = (if unat (x - d) < n then m (s + (x - d)) else m x)"
  using assms
proof (induction n arbitrary: m d s)
  case 0
  then show ?case by simp
next
  case (Suc n)
  show ?case
  proof (cases "n = 0")
    case True
    then show ?thesis by (auto simp: unat_eq_zero)
  next
    case False
    have s1: "unat (s + 1) = Suc (unat s)" and d1: "unat (d + 1) = Suc (unat d)"
      using Suc.prems False by (simp_all add: unat_word_ariths)
    have "d + 1 \<le> s + 1 \<or> unat (s + 1) + n \<le> unat (d + 1)"
      using Suc.prems by (auto simp: word_le_nat_alt s1 d1)
    then have IH: "copy_up (m(d := m s)) (d + 1) (s + 1) n x =
      (if unat (x - (d + 1)) < n then (m(d := m s)) (s + 1 + (x - (d + 1))) else (m(d := m s)) x)"
      using Suc.prems by (intro Suc.IH) (simp_all add: s1 d1)
    show ?thesis
    proof (cases "x = d")
      case True
      then have "unat (x - (d + 1)) = 2 ^ 64 - 1"
        by (simp add: unsigned_minus_1_eq_mask mask_eq_exp_minus_1)
      then show ?thesis using True IH Suc.prems by simp
    next
      case x: False
      then have nz: "x - d \<noteq> 0" by simp
      have e: "x - (d + 1) = (x - d) - 1" by simp
      have u: "unat (x - (d + 1)) = unat (x - d) - 1"
        unfolding e by (rule unat_minus_one [OF nz])
      have pos: "0 < unat (x - d)" using nz unat_gt_0 by blast
      have nd: "s + (x - d) \<noteq> d" if lt: "unat (x - d) < Suc n"
      proof
        assume a: "s + (x - d) = d"
        have "unat (s + (x - d)) = unat s + unat (x - d)"
          using Suc.prems(1) lt by (simp add: unat_word_ariths)
        with a have "unat d = unat s + unat (x - d)" by (simp only:)
        with Suc.prems(3) lt pos show False by (auto simp: word_le_nat_alt)
      qed
      have "s + 1 + (x - (d + 1)) = s + (x - d)" by simp
      then show ?thesis using IH u pos nd x by auto
    qed
  qed
qed

lemma copy_down_apply:
  assumes "unat s + n < 2 ^ 64 + 1" and "unat d + n \<le> 2 ^ 64" and "s \<le> d"
  shows "copy_down m (d + of_nat n) (s + of_nat n) n x =
    (if unat (x - d) < n then m (s + (x - d)) else m x)"
  using assms
proof (induction n arbitrary: m)
  case 0
  then show ?case by simp
next
  case (Suc n)
  have e: "d + of_nat (Suc n) - 1 = d + of_nat n" "s + of_nat (Suc n) - 1 = s + of_nat n"
    by simp_all
  define m' where "m' = m(d + of_nat n := m (s + of_nat n))"
  have "copy_down m (d + of_nat (Suc n)) (s + of_nat (Suc n)) (Suc n) x =
      copy_down m' (d + of_nat n) (s + of_nat n) n x"
    unfolding copy_down.simps e m'_def ..
  also have "\<dots> = (if unat (x - d) < n then m' (s + (x - d)) else m' x)"
    using Suc.prems by (intro Suc.IH) simp_all
  also have "\<dots> = (if unat (x - d) < Suc n then m (s + (x - d)) else m x)"
  proof -
    have xe: "x = d + of_nat n \<longleftrightarrow> unat (x - d) = n"
    proof
      assume "unat (x - d) = n"
      then have "x - d = of_nat n" by (metis of_nat_unat ucast_id)
      then show "x = d + of_nat n" by (metis add_diff_cancel_left' diff_add_cancel add.commute)
    qed (use Suc.prems in \<open>simp add: unat_of_nat\<close>)
    have "s + (x - d) \<noteq> d + of_nat n" if "unat (x - d) < n"
    proof
      assume "s + (x - d) = d + of_nat n"
      then have "unat (s + (x - d)) = unat (d + of_nat n)" by (simp only:)
      moreover have "unat (s + (x - d)) = unat s + unat (x - d)"
        using Suc.prems(1) that by (simp add: unat_word_ariths)
      moreover have "unat (d + of_nat n) = unat d + n"
        using Suc.prems(2) by (simp add: unat_word_ariths unat_of_nat)
      ultimately show False using that Suc.prems(3) by (simp add: word_le_nat_alt)
    qed
    then show ?thesis using xe by (auto simp: m'_def less_Suc_eq)
  qed
  finally show ?case .
qed

text \<open>C3: \<^verbatim>\<open>memmove\<close> copies correctly for every overlap of source and destination.\<close>

theorem memmove_correct:
  assumes "unat src + n \<le> 2 ^ 64" and "unat dst + n \<le> 2 ^ 64"
  shows "memmove m dst src n x = (if unat (x - dst) < n then m (src + (x - dst)) else m x)"
proof (cases "n = 0")
  case True
  then show ?thesis by (simp add: memmove_def)
next
  case False
  show ?thesis
  proof (cases "src < dst \<and> src + of_nat n > dst")
    case True
    then have "src \<le> dst" by auto
    then show ?thesis
      using False True copy_down_apply [of src n dst m x] assms by (simp add: memmove_def)
  next
    case no: False
    have "dst \<le> src \<or> unat src + n \<le> unat dst"
    proof (rule disjCI, rule ccontr)
      assume a: "\<not> unat src + n \<le> unat dst" and "\<not> dst \<le> src"
      then have lt: "src < dst" by simp
      with no have le: "src + of_nat n \<le> dst" by auto
      have "unat src + n < 2 ^ 64" using lt assms by (simp add: word_less_nat_alt)
      then have "unat (src + of_nat n) = unat src + n"
        by (simp add: unat_word_ariths unat_of_nat)
      with a le show False by (simp add: word_le_nat_alt)
    qed
    then show ?thesis
      using False no copy_up_apply [of src n dst m x] assms by (auto simp: memmove_def)
  qed
qed


theorem memmove_correct_witness:
  "memmove (\<lambda>a. ucast a) 12 10 4 15 = 13 \<and> memmove (\<lambda>a. ucast a) 12 10 4 16 = 16"
  using memmove_correct [of 10 4 12 "\<lambda>a. ucast a" 15] memmove_correct [of 10 4 12 "\<lambda>a. ucast a" 16]
  by simp

lemma strncmp_eq_0_iff: "strncmp p q n = 0 \<longleftrightarrow> cstr p n = cstr q n"
proof (induction n arbitrary: p q)
  case 0
  then show ?case by simp
next
  case (Suc n)
  have "uint (p 0) - uint (q 0) = 0 \<longleftrightarrow> p 0 = q 0" by (simp add: word_uint_eq_iff)
  then show ?case using Suc.IH [of "incp p" "incp q"] by (auto simp: cstr_Suc)
qed

lemma length_strncpy [simp]: "length (strncpy t n) = n"
  by (induction t n rule: strncpy.induct) auto

lemma arr_ptr_Cons: "arr_ptr (x # xs) 0 = x" "incp (arr_ptr (x # xs)) = arr_ptr xs"
  by (auto simp: arr_ptr_def incp_def fun_eq_iff)

lemma cstr_arr_replicate: "cstr (arr_ptr (replicate n 0)) k = []"
  by (cases k) (simp_all add: cstr_Suc arr_ptr_def)

text \<open>\<^verbatim>\<open>strncpy\<close> writes the source string, cut to \<open>n\<close> bytes.\<close>

lemma cstr_strncpy: "cstr (arr_ptr (strncpy t n)) n = cstr t n"
proof (induction n arbitrary: t)
  case 0
  then show ?case by simp
next
  case (Suc n)
  then show ?case by (simp add: cstr_Suc arr_ptr_Cons)
qed

text \<open>
  C4: a name stored with \<^verbatim>\<open>strncpy\<close> and looked up with \<^verbatim>\<open>strncmp\<close>, both with the same bound
  (the way directory entries are written and searched), matches exactly the names that agree
  with it up to the bound.
\<close>

theorem strncpy_strncmp_roundtrip:
  "strncmp q (arr_ptr (strncpy t n)) n = 0 \<longleftrightarrow> cstr q n = cstr t n"
  by (simp add: strncmp_eq_0_iff cstr_strncpy)

lemma safestrcpy_bytes:
  "length (safestrcpy t n) \<le> n \<and>
   (0 < n \<longrightarrow> (\<exists>z. safestrcpy t n = cstr t (n - 1) @ 0 # z))"
proof (induction t n rule: safestrcpy.induct)
  case (3 t n)
  then show ?case by (auto simp: cstr_Suc)
qed auto



lemma strlen_from_Some:
  assumes "s k = 0" and "n \<le> k"
  shows "strlen_from s n = Some (LEAST i. n \<le> i \<and> s i = 0)"
  using assms(2)
proof (induction "k - n" arbitrary: n)
  case 0
  then have "n = k" by simp
  then have "(LEAST i. n \<le> i \<and> s i = 0) = n" using assms(1) by (intro Least_equality) auto
  then show ?case using assms(1) \<open>n = k\<close> by (subst strlen_from.simps) simp
next
  case (Suc d)
  show ?case
  proof (cases "s n = 0")
    case True
    then have "(LEAST i. n \<le> i \<and> s i = 0) = n" by (intro Least_equality) auto
    then show ?thesis using True by (subst strlen_from.simps) simp
  next
    case False
    then have "(LEAST i. n \<le> i \<and> s i = 0) = (LEAST i. Suc n \<le> i \<and> s i = 0)"
      by (intro arg_cong [where f = Least] ext) (auto simp: Suc_le_eq le_less)
    moreover have "d = k - Suc n" "Suc n \<le> k" using Suc.hyps(2) by auto
    ultimately show ?thesis using False Suc.hyps(1) [of "Suc n"]
      by (subst strlen_from.simps) simp
  qed
qed

lemma strlen_Some: "s k = 0 \<Longrightarrow> strlen s = Some (LEAST i. s i = 0)"
  using strlen_from_Some [of s k 0] by (simp add: strlen_def)

end
