(* ===== verification/Machine.thy ===== *)
theory Machine
  imports Bytes
begin

text \<open>
  The numeric constants and macros of \<^verbatim>\<open>kernel/riscv.h\<close>, \<^verbatim>\<open>kernel/memlayout.h\<close> and
  \<^verbatim>\<open>kernel/param.h\<close>: pages, Sv39 page-table entries and indices, the physical and virtual
  layout, and the table sizes.
\<close>

section \<open>param.h\<close>

abbreviation (input) NPROC :: nat where "NPROC \<equiv> 64"
abbreviation (input) NCPU :: nat where "NCPU \<equiv> 8"
abbreviation (input) NOFILE :: nat where "NOFILE \<equiv> 16"
abbreviation (input) NFILE :: nat where "NFILE \<equiv> 100"
abbreviation (input) NINODE :: nat where "NINODE \<equiv> 50"
abbreviation (input) NDEV :: nat where "NDEV \<equiv> 10"
abbreviation (input) ROOTDEV :: u32 where "ROOTDEV \<equiv> 1"
abbreviation (input) MAXARG :: nat where "MAXARG \<equiv> 32"
abbreviation (input) MAXOPBLOCKS :: nat where "MAXOPBLOCKS \<equiv> 10"
abbreviation (input) LOGSIZE :: nat where "LOGSIZE \<equiv> 30"
abbreviation (input) NBUF :: nat where "NBUF \<equiv> 30"
abbreviation (input) FSSIZE :: nat where "FSSIZE \<equiv> 2000"
abbreviation (input) MAXPATH :: nat where "MAXPATH \<equiv> 128"
abbreviation (input) USERSTACK :: u64 where "USERSTACK \<equiv> 1"

section \<open>riscv.h\<close>

abbreviation (input) PGSIZE :: u64 where "PGSIZE \<equiv> 4096"

definition PGROUNDUP :: "u64 \<Rightarrow> u64" where
  "PGROUNDUP sz = (sz + PGSIZE - 1) AND NOT (PGSIZE - 1)"

definition PGROUNDDOWN :: "u64 \<Rightarrow> u64" where
  "PGROUNDDOWN a = a AND NOT (PGSIZE - 1)"

abbreviation (input) PTE_V :: u64 where "PTE_V \<equiv> 1"
abbreviation (input) PTE_R :: u64 where "PTE_R \<equiv> 2"
abbreviation (input) PTE_W :: u64 where "PTE_W \<equiv> 4"
abbreviation (input) PTE_X :: u64 where "PTE_X \<equiv> 8"
abbreviation (input) PTE_U :: u64 where "PTE_U \<equiv> 16"

definition PA2PTE :: "u64 \<Rightarrow> u64" where
  "PA2PTE pa = push_bit 10 (drop_bit 12 pa)"

definition PTE2PA :: "u64 \<Rightarrow> u64" where
  "PTE2PA pte = push_bit 12 (drop_bit 10 pte)"

definition PTE_FLAGS :: "u64 \<Rightarrow> u64" where
  "PTE_FLAGS pte = pte AND 0x3FF"

definition PX :: "nat \<Rightarrow> u64 \<Rightarrow> u64" where
  "PX level va = drop_bit (12 + 9 * level) va AND 0x1FF"

abbreviation (input) MAXVA :: u64 where "MAXVA \<equiv> 0x4000000000"

definition MAKE_SATP :: "u64 \<Rightarrow> u64" where
  "MAKE_SATP pagetable = push_bit 60 8 OR drop_bit 12 pagetable"

section \<open>memlayout.h\<close>

abbreviation (input) UART0 :: u64 where "UART0 \<equiv> 0x10000000"
abbreviation (input) UART0_IRQ :: u32 where "UART0_IRQ \<equiv> 10"
abbreviation (input) VIRTIO0 :: u64 where "VIRTIO0 \<equiv> 0x10001000"
abbreviation (input) VIRTIO0_IRQ :: u32 where "VIRTIO0_IRQ \<equiv> 1"
abbreviation (input) PLIC :: u64 where "PLIC \<equiv> 0x0c000000"
abbreviation (input) KERNBASE :: u64 where "KERNBASE \<equiv> 0x80000000"
abbreviation (input) PHYSTOP :: u64 where "PHYSTOP \<equiv> 0x88000000"
abbreviation (input) TRAMPOLINE :: u64 where "TRAMPOLINE \<equiv> 0x3ffffff000"
abbreviation (input) TRAPFRAME :: u64 where "TRAPFRAME \<equiv> 0x3fffffe000"

definition KSTACK :: "nat \<Rightarrow> u64" where
  "KSTACK p = TRAMPOLINE - (of_nat p + 1) * 2 * PGSIZE"

section \<open>Pages\<close>

text \<open>\<open>in_page p x\<close>: the address \<open>x\<close> is one of the 4096 bytes from \<open>p\<close> on.\<close>

definition in_page :: "u64 \<Rightarrow> u64 \<Rightarrow> bool" where
  "in_page p x \<longleftrightarrow> unat (x - p) < 4096"

definition page_aligned :: "u64 \<Rightarrow> bool" where
  "page_aligned p \<longleftrightarrow> p mod PGSIZE = 0"

lemma unat_mod_page: "unat (p mod PGSIZE) = unat p mod 4096"
  by (simp add: unat_mod_distrib)

lemma page_aligned_nat: "page_aligned p \<longleftrightarrow> unat p mod 4096 = 0"
  by (metis page_aligned_def unat_mod_page unat_eq_zero)

lemma page_alignedE:
  assumes "page_aligned p"
  obtains k where "unat p = 4096 * k"
  using assms that by (auto simp: page_aligned_nat elim: dvdE)

lemma page_aligned_bits: "page_aligned p \<longleftrightarrow> (\<forall>n<12. \<not> bit p n)"
proof -
  have "p mod PGSIZE = take_bit 12 p" by (simp add: take_bit_eq_mod)
  then show ?thesis unfolding page_aligned_def by (auto simp: bit_eq_iff bit_take_bit_iff)
qed

lemma in_page_self [simp]: "in_page p p"
  by (simp add: in_page_def)

lemma in_page_offset: "i < 4096 \<Longrightarrow> in_page p (p + of_nat i)"
  by (simp add: in_page_def unat_of_nat)

lemma in_page_iff:
  assumes "page_aligned p"
  shows "in_page p x \<longleftrightarrow> unat x div 4096 = unat p div 4096"
proof (cases "p \<le> x")
  case True
  then have "unat (x - p) = unat x - unat p" by (rule unat_sub)
  moreover obtain k where k: "unat p = 4096 * k"
    using assms by (auto simp: page_aligned_nat)
  ultimately show ?thesis using True by (auto simp: in_page_def word_le_nat_alt)
next
  case False
  obtain k where k: "unat p = 4096 * k"
    using assms by (auto simp: page_aligned_nat)
  have lt: "unat x < unat p" using False by (simp add: word_le_nat_alt)
  have "unat p < 2 ^ 64" using unat_less_pow [of p] by simp
  then have "unat p \<le> 2 ^ 64 - 4096" using k by simp
  moreover have "unat (x - p) = 2 ^ 64 + unat x - unat p"
    using lt unat_sub_if_size [of x p] by (simp add: word_size)
  ultimately have "\<not> in_page p x" by (simp add: in_page_def)
  moreover have "unat x div 4096 < unat p div 4096" using lt k by simp
  ultimately show ?thesis by simp
qed

lemma pages_disjoint:
  "page_aligned p \<Longrightarrow> page_aligned q \<Longrightarrow> in_page p x \<Longrightarrow> in_page q x \<Longrightarrow> p = q"
proof -
  assume a: "page_aligned p" "page_aligned q" and x: "in_page p x" "in_page q x"
  then have "unat p div 4096 = unat q div 4096" by (simp add: in_page_iff)
  moreover have "unat p mod 4096 = unat q mod 4096" using a by (simp add: page_aligned_nat)
  ultimately have "unat p = unat q" by (metis div_mult_mod_eq)
  then show "p = q" by (simp add: word_unat_eq_iff)
qed

lemma PGROUNDDOWN_bits: "bit (PGROUNDDOWN a) n \<longleftrightarrow> 12 \<le> n \<and> bit a n"
proof -
  have "PGROUNDDOWN a = a AND NOT (mask 12)"
    by (simp add: PGROUNDDOWN_def mask_eq_exp_minus_1)
  then show ?thesis
    by (auto simp: bit_and_iff bit_not_iff bit_mask_iff dest: bit_imp_le_length)
qed

lemma PGROUNDDOWN_shift: "PGROUNDDOWN a = push_bit 12 (drop_bit 12 a)"
  by (rule bit_word_eqI) (auto simp: PGROUNDDOWN_bits bit_push_bit_iff bit_drop_bit_eq)

lemma unat_PGROUNDDOWN: "unat (PGROUNDDOWN a) = 4096 * (unat a div 4096)"
proof -
  have "4096 * (unat a div 4096) < 2 ^ 64"
    using unat_less_pow [of a] times_div_less_eq_dividend [of 4096 "unat a"] by simp
  then show ?thesis
    unfolding PGROUNDDOWN_shift unsigned_push_bit_eq unat_drop_bit_eq
    by (simp add: drop_bit_eq_div push_bit_eq_mult take_bit_eq_mod)
qed

lemma PGROUNDUP_eq: "PGROUNDUP a = PGROUNDDOWN (a + 4095)"
  by (simp add: PGROUNDUP_def PGROUNDDOWN_def add.commute)

lemma PGROUNDDOWN_aligned [simp]: "page_aligned (PGROUNDDOWN a)"
  by (simp add: page_aligned_nat unat_PGROUNDDOWN)

lemma PGROUNDUP_aligned [simp]: "page_aligned (PGROUNDUP a)"
  by (simp add: PGROUNDUP_eq)

lemma unat_PGROUNDUP:
  assumes "unat a + 4095 < 2 ^ 64"
  shows "unat (PGROUNDUP a) = 4096 * ((unat a + 4095) div 4096)"
  using assms by (simp add: PGROUNDUP_eq unat_PGROUNDDOWN unat_word_ariths)

lemma PGROUNDDOWN_in_page: "in_page (PGROUNDDOWN a) a"
  by (simp add: in_page_iff unat_PGROUNDDOWN)

section \<open>Page-table entries\<close>

lemma bit_PA2PTE: "bit (PA2PTE pa) n \<longleftrightarrow> 10 \<le> n \<and> n < 64 \<and> bit pa (n + 2)"
  by (auto simp: PA2PTE_def bit_push_bit_iff bit_drop_bit_eq dest: bit_imp_le_length)

lemma bit_PTE2PA: "bit (PTE2PA pte) n \<longleftrightarrow> 12 \<le> n \<and> n < 64 \<and> bit pte (n - 2)"
  by (auto simp: PTE2PA_def bit_push_bit_iff bit_drop_bit_eq)

definition flag_bits :: "u64 \<Rightarrow> bool" where
  "flag_bits fl \<longleftrightarrow> fl AND 0x3FF = fl"

lemma flag_bits_iff: "flag_bits fl \<longleftrightarrow> (\<forall>n. bit fl n \<longrightarrow> n < 10)"
proof -
  have "(0x3FF :: u64) = mask 10" by (simp add: mask_eq_exp_minus_1)
  then have "flag_bits fl \<longleftrightarrow> take_bit 10 fl = fl" by (simp add: flag_bits_def take_bit_eq_mask)
  moreover have "take_bit 10 fl = fl \<longleftrightarrow> (\<forall>n. bit fl n \<longrightarrow> n < 10)"
    unfolding bit_eq_iff bit_take_bit_iff by (metis bit_imp_possible_bit)
  ultimately show ?thesis by simp
qed

lemma flag_bits_or [intro]: "flag_bits a \<Longrightarrow> flag_bits b \<Longrightarrow> flag_bits (a OR b)"
  by (auto simp: flag_bits_iff bit_or_iff)

lemma PTE2PA_PA2PTE:
  assumes "page_aligned pa" and "flag_bits fl"
  shows "PTE2PA (PA2PTE pa OR fl) = pa"
proof (rule bit_word_eqI)
  fix n assume n: "n < LENGTH(64)"
  show "bit (PTE2PA (PA2PTE pa OR fl)) n = bit pa n"
  proof (cases "n < 12")
    case True
    then show ?thesis using assms(1) by (simp add: bit_PTE2PA page_aligned_bits)
  next
    case False
    then have "\<not> bit fl (n - 2)" and e: "n - 2 + 2 = n" and "10 \<le> n - 2"
      using assms(2) unfolding flag_bits_iff by (auto dest!: spec [of _ "n - 2"])
    then show ?thesis using n False
      unfolding bit_PTE2PA bit_or_iff bit_PA2PTE e by auto
  qed
qed

lemma PTE_FLAGS_PA2PTE:
  assumes "flag_bits fl"
  shows "PTE_FLAGS (PA2PTE pa OR fl) = fl"
proof -
  have "(0x3FF :: u64) = mask 10" by (simp add: mask_eq_exp_minus_1)
  then have "PTE_FLAGS (PA2PTE pa OR fl) = take_bit 10 (PA2PTE pa OR fl)"
    by (simp add: PTE_FLAGS_def take_bit_eq_mask)
  also have "\<dots> = fl"
    using assms by (intro bit_word_eqI) (auto simp: bit_take_bit_iff bit_or_iff bit_PA2PTE flag_bits_iff)
  finally show ?thesis .
qed

lemma unat_PX: "unat (PX level va) = unat va div 2 ^ (12 + 9 * level) mod 512"
proof -
  have "(0x1FF :: u64) = mask 9" by (simp add: mask_eq_exp_minus_1)
  then have "PX level va = take_bit 9 (drop_bit (12 + 9 * level) va)"
    by (simp add: PX_def take_bit_eq_mask)
  then show ?thesis
    by (simp only: unsigned_take_bit_eq unat_drop_bit_eq) (simp add: take_bit_eq_mod drop_bit_eq_div)
qed

lemma PX_less: "unat (PX level va) < 512"
  by (simp add: unat_PX)

text \<open>Below \<open>MAXVA\<close> the three indices and the offset determine the address.\<close>

lemma unat_va_PX:
  assumes "va < MAXVA"
  shows "unat va = unat (PX 2 va) * 2 ^ 30 + unat (PX 1 va) * 2 ^ 21 + unat (PX 0 va) * 2 ^ 12 + unat va mod 4096"
proof -
  have "unat va < 2 ^ 38" using assms by (simp add: word_less_nat_alt)
  then have "unat va div 2 ^ 30 mod 512 = unat va div 2 ^ 30" by simp
  moreover have "unat va = (unat va div 2 ^ 30) * 2 ^ 30 + (unat va div 2 ^ 21 mod 512) * 2 ^ 21
      + (unat va div 2 ^ 12 mod 512) * 2 ^ 12 + unat va mod 4096"
  proof -
    let ?x = "unat va"
    have 1: "?x = ?x div 4096 * 4096 + ?x mod 4096" by simp
    have 2: "?x div 4096 = ?x div 2097152 * 512 + ?x div 4096 mod 512"
      using div_mult2_eq [of ?x 4096 512] by simp
    have 3: "?x div 2097152 = ?x div 1073741824 * 512 + ?x div 2097152 mod 512"
      using div_mult2_eq [of ?x 2097152 512] by simp
    have "?x = ?x div 1073741824 * 1073741824 + ?x div 2097152 mod 512 * 2097152
        + ?x div 4096 mod 512 * 4096 + ?x mod 4096"
      using 1 2 3 by linarith
    then show ?thesis by simp
  qed
  ultimately show ?thesis by (simp add: unat_PX)
qed

end
