(* ===== verification/Spinlock.thy ===== *)
theory Spinlock
  imports Machine
begin

text \<open>
  Spin locks and the nesting of disabled interrupts (\<^verbatim>\<open>kernel/spinlock.c\<close>). The sequential part
  gives \<open>push_off\<close> and \<open>pop_off\<close> as functions on one CPU. The concurrent part is a step relation in
  which every access to shared memory by \<open>acquire\<close> and \<open>release\<close> is one step, so the steps of
  all CPUs interleave in every possible way. The other theories leave spin locks out: what is shown
  here is that code between \<open>acquire\<close> and \<open>release\<close> of a lock excludes all other such code.
\<close>

section \<open>One CPU\<close>

text \<open>\<open>sie\<close> is bit \<open>SSTATUS_SIE\<close> of the CPU's \<open>sstatus\<close>.\<close>

record cpu =
  noff :: int
  intena :: bool
  sie :: bool

definition push_off :: "cpu \<Rightarrow> cpu" where
  "push_off c =
     (let old = sie c; c1 = c\<lparr>sie := False\<rparr>;
          c2 = (if noff c1 = 0 then c1\<lparr>intena := old\<rparr> else c1)
      in c2\<lparr>noff := noff c2 + 1\<rparr>)"

definition pop_off :: "cpu \<Rightarrow> (unit, cpu) res" where
  "pop_off c =
     (if sie c then Panic ''pop_off - interruptible''
      else if noff c < 1 then Panic ''pop_off''
      else let c1 = c\<lparr>noff := noff c - 1\<rparr> in
        Ret () (if noff c1 = 0 \<and> intena c1 then c1\<lparr>sie := True\<rparr> else c1))"

text \<open>Balanced sequences of the two, as nested critical sections produce them.\<close>

datatype nest = Nest "nest list"

fun run_nest :: "nest \<Rightarrow> cpu \<Rightarrow> (unit, cpu) res" and run_nests :: "nest list \<Rightarrow> cpu \<Rightarrow> (unit, cpu) res" where
  "run_nest (Nest ns) c = thenM (run_nests ns) pop_off (push_off c)"
| "run_nests [] c = Ret () c"
| "run_nests (n # ns) c = thenM (run_nest n) (run_nests ns) c"

text \<open>Outside of every critical section \<open>intena\<close> is a leftover nobody reads.\<close>

definition cpu_eq :: "cpu \<Rightarrow> cpu \<Rightarrow> bool" where
  "cpu_eq c d \<longleftrightarrow> noff c = noff d \<and> sie c = sie d \<and> (noff c > 0 \<longrightarrow> intena c = intena d)"

definition cpu_ok :: "cpu \<Rightarrow> bool" where
  "cpu_ok c \<longleftrightarrow> noff c \<ge> 0 \<and> (noff c > 0 \<longrightarrow> \<not> sie c)"

lemma push_off_ok: "cpu_ok c \<Longrightarrow> cpu_ok (push_off c) \<and> noff (push_off c) = noff c + 1 \<and> \<not> sie (push_off c)"
  by (auto simp: cpu_ok_def push_off_def Let_def)

lemma pop_after_push:
  assumes "cpu_ok c" and "cpu_eq d (push_off c)"
  shows "\<exists>e. pop_off d = Ret () e \<and> cpu_eq e c"
  using assms by (auto simp: cpu_ok_def cpu_eq_def push_off_def pop_off_def Let_def split: if_splits)

lemma cpu_eq_ok: "cpu_eq d c \<Longrightarrow> cpu_ok c \<Longrightarrow> cpu_ok d"
  by (auto simp: cpu_eq_def cpu_ok_def)

lemma cpu_eq_trans: "cpu_eq a b \<Longrightarrow> cpu_eq b c \<Longrightarrow> cpu_eq a c"
  by (auto simp: cpu_eq_def)

lemma run_nest_restores:
  "cpu_ok c \<Longrightarrow> \<exists>d. run_nest n c = Ret () d \<and> cpu_eq d c"
  "cpu_ok c \<Longrightarrow> \<exists>d. run_nests ns c = Ret () d \<and> cpu_eq d c"
proof (induction n c and ns c rule: run_nest_run_nests.induct)
  case (1 ns c)
  then obtain d where d: "run_nests ns (push_off c) = Ret () d" "cpu_eq d (push_off c)"
    using push_off_ok by blast
  then show ?case using pop_after_push [OF 1(2) d(2)] by auto
next
  case (2 c)
  then show ?case by (simp add: cpu_eq_def)
next
  case (3 n ns c)
  then obtain d where d: "run_nest n c = Ret () d" "cpu_eq d c" by blast
  moreover from this 3(3) have "cpu_ok d" by (metis cpu_eq_ok)
  ultimately obtain e where "run_nests ns d = Ret () e" "cpu_eq e d" using 3(2) by blast
  with d show ?case by (auto intro: cpu_eq_trans)
qed

text \<open>
  C32: Critical sections nest: any balanced sequence of \<open>push_off\<close> and \<open>pop_off\<close> returns without a
  panic and leaves the nesting depth and the interrupt enable bit as they were, whether interrupts
  were on or off before; inside a section interrupts are off.
\<close>

theorem critical_sections_nest:
  assumes "noff c \<ge> 0" and "noff c > 0 \<Longrightarrow> \<not> sie c"
  shows "\<not> sie (push_off c) \<and>
    (\<exists>d. run_nest n c = Ret () d \<and> noff d = noff c \<and> sie d = sie c \<and> (noff c > 0 \<longrightarrow> intena d = intena c))"
proof -
  have ok: "cpu_ok c" using assms by (simp add: cpu_ok_def)
  from run_nest_restores(1) [OF this] obtain d where "run_nest n c = Ret () d" "cpu_eq d c" by blast
  then show ?thesis using push_off_ok [OF ok] by (auto simp: cpu_eq_def)
qed

theorem critical_sections_nest_witness:
  "\<exists>d. run_nest (Nest [Nest [], Nest [Nest []]]) \<lparr>noff = 0, intena = False, sie = True\<rparr> = Ret () d \<and> noff d = 0 \<and> sie d"
  using critical_sections_nest [of "\<lparr>noff = 0, intena = False, sie = True\<rparr>" "Nest [Nest [], Nest [Nest []]]"] by auto

section \<open>All CPUs\<close>

record spinlock =
  lk_locked :: bool
  lk_cpu :: "nat option"          \<comment> \<open>the CPU holding the lock\<close>

text \<open>
  Where a CPU is inside \<open>acquire\<close> or \<open>release\<close>. Before \<open>Acq1\<close> it has disabled interrupts;
  \<open>Acq1\<close>, \<open>Acq2\<close> and \<open>Rel1\<close>, \<open>Rel2\<close> are the two reads of \<open>holding\<close>; \<open>Spin\<close> is the atomic
  swap; \<open>Got\<close> the assignment of \<open>lk->cpu\<close>; \<open>Rel3\<close> and \<open>Rel4\<close> clear the two fields; \<open>Rel5\<close>
  is the call of \<open>pop_off\<close>. \<open>Dead\<close> is a panic.
\<close>

datatype lock_pc =
    Out
  | Acq1 nat | Acq2 nat | Spin nat | Got nat
  | Rel1 nat | Rel2 nat | Rel3 nat | Rel4 nat | Rel5
  | Dead string

text \<open>\<open>held\<close> records which locks a CPU has acquired and not released yet.\<close>

record smp =
  locks :: "nat \<Rightarrow> spinlock"
  cpus :: "nat \<Rightarrow> cpu"
  at :: "nat \<Rightarrow> lock_pc"
  held :: "nat \<Rightarrow> nat set"

definition initlock :: spinlock where
  "initlock = \<lparr>lk_locked = False, lk_cpu = None\<rparr>"

definition goto :: "nat \<Rightarrow> lock_pc \<Rightarrow> smp \<Rightarrow> smp" where
  "goto h p s = s\<lparr>at := (at s)(h := p)\<rparr>"

definition upd_lock :: "nat \<Rightarrow> (spinlock \<Rightarrow> spinlock) \<Rightarrow> smp \<Rightarrow> smp" where
  "upd_lock l f s = s\<lparr>locks := (locks s)(l := f (locks s l))\<rparr>"

definition upd_cpu :: "nat \<Rightarrow> cpu \<Rightarrow> smp \<Rightarrow> smp" where
  "upd_cpu h c s = s\<lparr>cpus := (cpus s)(h := c)\<rparr>"

definition set_held :: "nat \<Rightarrow> nat set \<Rightarrow> smp \<Rightarrow> smp" where
  "set_held h ls s = s\<lparr>held := (held s)(h := ls)\<rparr>"

lemmas smp_upd = goto_def upd_lock_def upd_cpu_def set_held_def

definition pop_off_at :: "nat \<Rightarrow> smp \<Rightarrow> smp" where
  "pop_off_at h s =
     (case pop_off (cpus s h) of
        Ret _ c \<Rightarrow> goto h Out (upd_cpu h c s)
      | Panic m \<Rightarrow> goto h (Dead m) s
      | Block _ _ \<Rightarrow> s)"

text \<open>One step of CPU \<open>h\<close>.\<close>

inductive smp_step :: "nat \<Rightarrow> smp \<Rightarrow> smp \<Rightarrow> bool" for h where
  acquire: "at s h = Out \<Longrightarrow> smp_step h s (goto h (Acq1 l) (upd_cpu h (push_off (cpus s h)) s))"
| acquire_locked: "at s h = Acq1 l \<Longrightarrow> smp_step h s (goto h (if lk_locked (locks s l) then Acq2 l else Spin l) s)"
| acquire_cpu: "at s h = Acq2 l \<Longrightarrow>
    smp_step h s (goto h (if lk_cpu (locks s l) = Some h then Dead ''acquire'' else Spin l) s)"
| test_and_set: "at s h = Spin l \<Longrightarrow>
    smp_step h s (goto h (if lk_locked (locks s l) then Spin l else Got l) (upd_lock l (\<lambda>k. k\<lparr>lk_locked := True\<rparr>) s))"
| set_cpu: "at s h = Got l \<Longrightarrow>
    smp_step h s (goto h Out (set_held h (insert l (held s h)) (upd_lock l (\<lambda>k. k\<lparr>lk_cpu := Some h\<rparr>) s)))"
| release: "at s h = Out \<Longrightarrow> smp_step h s (goto h (Rel1 l) s)"
| release_locked: "at s h = Rel1 l \<Longrightarrow>
    smp_step h s (goto h (if lk_locked (locks s l) then Rel2 l else Dead ''release'') s)"
| release_cpu: "at s h = Rel2 l \<Longrightarrow>
    smp_step h s (goto h (if lk_cpu (locks s l) = Some h then Rel3 l else Dead ''release'') s)"
| clear_cpu: "at s h = Rel3 l \<Longrightarrow> smp_step h s (goto h (Rel4 l) (upd_lock l (\<lambda>k. k\<lparr>lk_cpu := None\<rparr>) s))"
| lock_release: "at s h = Rel4 l \<Longrightarrow>
    smp_step h s (goto h Rel5 (set_held h (held s h - {l}) (upd_lock l (\<lambda>k. k\<lparr>lk_locked := False\<rparr>) s)))"
| pop: "at s h = Rel5 \<Longrightarrow> smp_step h s (pop_off_at h s)"
| interrupts: "at s h = Out \<Longrightarrow> held s h = {} \<Longrightarrow> smp_step h s (upd_cpu h ((cpus s h)\<lparr>sie := b\<rparr>) s)"

definition smp_boot :: "smp \<Rightarrow> bool" where
  "smp_boot s \<longleftrightarrow> (\<forall>l. locks s l = initlock) \<and>
     (\<forall>h. noff (cpus s h) = 0 \<and> at s h = Out \<and> held s h = {})"

inductive smp_reach :: "smp \<Rightarrow> bool" where
  boot: "smp_boot s \<Longrightarrow> smp_reach s"
| step: "smp_reach s \<Longrightarrow> smp_step h s s' \<Longrightarrow> smp_reach s'"

text \<open>
  The invariant, one CPU and one lock at a time. \<open>extra\<close> counts the \<open>push_off\<close> of a lock that is
  being acquired or has just been released.
\<close>

fun extra :: "lock_pc \<Rightarrow> int" where
  "extra (Acq1 _) = 1" | "extra (Acq2 _) = 1" | "extra (Spin _) = 1" | "extra (Got _) = 1"
| "extra Rel5 = 1" | "extra _ = 0"

definition owns :: "smp \<Rightarrow> nat \<Rightarrow> nat \<Rightarrow> bool" where
  "owns s h l \<longleftrightarrow> l \<in> held s h \<or> at s h = Got l"

fun pc_ok :: "nat set \<Rightarrow> lock_pc \<Rightarrow> bool" where
  "pc_ok ls (Spin l) \<longleftrightarrow> l \<notin> ls" | "pc_ok ls (Got l) \<longleftrightarrow> l \<notin> ls"
| "pc_ok ls (Rel3 l) \<longleftrightarrow> l \<in> ls" | "pc_ok ls (Rel4 l) \<longleftrightarrow> l \<in> ls" | "pc_ok ls _ \<longleftrightarrow> True"

definition hart_inv :: "smp \<Rightarrow> nat \<Rightarrow> bool" where
  "hart_inv s h \<longleftrightarrow> cpu_ok (cpus s h) \<and> finite (held s h) \<and> pc_ok (held s h) (at s h) \<and>
     int (card (held s h)) + extra (at s h) \<le> noff (cpus s h) \<and>
     ((\<forall>m. at s h \<noteq> Dead m) \<longrightarrow> noff (cpus s h) = int (card (held s h)) + extra (at s h))"

definition lock_inv :: "smp \<Rightarrow> nat \<Rightarrow> bool" where
  "lock_inv s l \<longleftrightarrow> (\<forall>h. owns s h l \<longrightarrow> lk_locked (locks s l)) \<and>
     (\<forall>h h'. owns s h l \<longrightarrow> owns s h' l \<longrightarrow> h = h') \<and>
     (\<forall>h. lk_cpu (locks s l) = Some h \<longleftrightarrow> l \<in> held s h \<and> at s h \<noteq> Rel4 l)"

definition smp_inv :: "smp \<Rightarrow> bool" where
  "smp_inv s \<longleftrightarrow> (\<forall>h. hart_inv s h) \<and> (\<forall>l. lock_inv s l)"

lemma smp_inv_boot: "smp_boot s \<Longrightarrow> smp_inv s"
  by (simp add: smp_boot_def smp_inv_def hart_inv_def lock_inv_def initlock_def owns_def cpu_ok_def)

lemma pop_off_held:
  assumes "hart_inv s h" and "at s h = Rel5"
  shows "\<exists>c. pop_off (cpus s h) = Ret () c \<and> noff c = noff (cpus s h) - 1 \<and> cpu_ok c"
  using assms by (auto simp: hart_inv_def cpu_ok_def pop_off_def Let_def)

text \<open>A CPU never changes what another CPU's part of the invariant depends on.\<close>

lemma other_hart: "smp_step h s s' \<Longrightarrow> k \<noteq> h \<Longrightarrow> cpus s' k = cpus s k \<and> at s' k = at s k \<and> held s' k = held s k"
  by (induction rule: smp_step.induct) (auto simp: smp_upd pop_off_at_def split: res.splits)

lemma hart_inv_step:
  assumes "smp_step h s s'" and "smp_inv s"
  shows "hart_inv s' h"
proof -
  have H: "hart_inv s h" and L: "\<And>l. lock_inv s l" using assms(2) by (auto simp: smp_inv_def)
  from assms(1) H L show ?thesis
  proof (induction rule: smp_step.induct)
    case (acquire s l)
    then show ?case by (auto simp: hart_inv_def smp_upd push_off_ok)
  next
    case (acquire_locked s l)
    then show ?case by (auto simp: hart_inv_def lock_inv_def owns_def smp_upd)
  next
    case (acquire_cpu s l)
    then show ?case by (auto simp: hart_inv_def lock_inv_def owns_def smp_upd)
  next
    case (test_and_set s l)
    then show ?case by (auto simp: hart_inv_def smp_upd)
  next
    case (set_cpu s l)
    then show ?case by (auto simp: hart_inv_def smp_upd)
  next
    case (release s l)
    then show ?case by (auto simp: hart_inv_def smp_upd)
  next
    case (release_locked s l)
    then show ?case by (auto simp: hart_inv_def smp_upd)
  next
    case (release_cpu s l)
    then show ?case by (auto simp: hart_inv_def lock_inv_def smp_upd)
  next
    case (clear_cpu s l)
    then show ?case by (auto simp: hart_inv_def smp_upd)
  next
    case (lock_release s l)
    moreover from this have "0 < card (held s h)" by (auto simp: hart_inv_def card_gt_0_iff)
    ultimately show ?case by (auto simp: hart_inv_def smp_upd of_nat_diff Suc_le_eq)
  next
    case (pop s)
    then show ?case using pop_off_held [of s h] by (auto simp: hart_inv_def smp_upd pop_off_at_def)
  next
    case (interrupts s b)
    then show ?case by (auto simp: hart_inv_def smp_upd cpu_ok_def)
  qed
qed

lemma lock_inv_step:
  assumes "smp_step h s s'" and "smp_inv s"
  shows "lock_inv s' l"
proof -
  have H: "hart_inv s h" and L: "lock_inv s l" using assms(2) by (auto simp: smp_inv_def)
  from assms(1) H L show ?thesis
    by (induction rule: smp_step.induct)
      (auto simp: hart_inv_def lock_inv_def owns_def smp_upd pop_off_at_def split: if_splits res.splits)
qed

lemma smp_inv_step: "smp_step h s s' \<Longrightarrow> smp_inv s \<Longrightarrow> smp_inv s'"
  unfolding smp_inv_def
  using hart_inv_step [of h s s'] lock_inv_step [of h s s'] other_hart [of h s s']
  by (metis hart_inv_def smp_inv_def)

lemma smp_reach_inv: "smp_reach s \<Longrightarrow> smp_inv s"
  by (induction rule: smp_reach.induct) (auto intro: smp_inv_boot smp_inv_step)

text \<open>A run in which CPU 0 acquires lock 3 and, without releasing it, acquires it again.\<close>

definition smp0 :: smp where
  "smp0 = \<lparr>locks = \<lambda>_. initlock, cpus = \<lambda>_. \<lparr>noff = 0, intena = False, sie = True\<rparr>, at = \<lambda>_. Out, held = \<lambda>_. {}\<rparr>"

lemma smp0_reach: "smp_reach smp0"
  by (rule smp_reach.boot) (simp add: smp_boot_def smp0_def)

lemma acquired_reachable: "\<exists>s. smp_reach s \<and> 3 \<in> held s 0 \<and> at s 0 = Out \<and> lk_locked (locks s 3)"
proof -
  define s1 where "s1 = goto 0 (Acq1 3) (upd_cpu 0 (push_off (cpus smp0 0)) smp0)"
  define s2 where "s2 = goto 0 (Spin 3) s1"
  define s3 where "s3 = goto 0 (Got 3) (upd_lock 3 (\<lambda>k. k\<lparr>lk_locked := True\<rparr>) s2)"
  define s4 where "s4 = goto 0 Out (set_held 0 (insert 3 (held s3 0)) (upd_lock 3 (\<lambda>k. k\<lparr>lk_cpu := Some 0\<rparr>) s3))"
  have free: "\<not> lk_locked (locks s1 3)" "\<not> lk_locked (locks s2 3)"
    by (simp_all add: s1_def s2_def smp_upd smp0_def initlock_def)
  have "smp_step 0 smp0 s1" unfolding s1_def by (rule smp_step.acquire) (simp add: smp0_def)
  then have "smp_reach s1" by (rule smp_reach.step [OF smp0_reach])
  moreover have "smp_step 0 s1 s2" using smp_step.acquire_locked [of s1 0 3] free by (simp add: s1_def s2_def smp_upd)
  ultimately have "smp_reach s2" by (rule smp_reach.step)
  moreover have "smp_step 0 s2 s3" using smp_step.test_and_set [of s2 0 3] free by (simp add: s2_def s3_def smp_upd)
  ultimately have "smp_reach s3" by (rule smp_reach.step)
  moreover have "smp_step 0 s3 s4" using smp_step.set_cpu [of s3 0 3] by (simp add: s3_def s4_def smp_upd)
  ultimately have "smp_reach s4" by (rule smp_reach.step)
  then show ?thesis by (auto simp: s4_def s3_def smp_upd)
qed

text \<open>
  C30: Spin locks exclude: however the memory accesses of all CPUs interleave, no two CPUs hold the
  same lock, a CPU that holds a lock has its interrupts off, and its depth of disabled interrupts
  is the number of locks it holds.
\<close>

theorem spinlock_mutual_exclusion:
  assumes "smp_reach s" and "l \<in> held s h"
  shows "(l \<in> held s h' \<longrightarrow> h' = h) \<and> \<not> sie (cpus s h) \<and>
    (at s h = Out \<longrightarrow> noff (cpus s h) = int (card (held s h)))"
proof -
  have H: "hart_inv s h" and L: "lock_inv s l" using smp_reach_inv [OF assms(1)] by (auto simp: smp_inv_def)
  then have "0 < card (held s h)" using assms(2) by (auto simp: hart_inv_def card_gt_0_iff)
  then have "0 < noff (cpus s h)" using H by (cases "at s h") (auto simp: hart_inv_def)
  then show ?thesis using H L assms(2) by (auto simp: hart_inv_def lock_inv_def owns_def cpu_ok_def)
qed

theorem spinlock_mutual_exclusion_witness:
  "\<exists>s. smp_reach s \<and> 3 \<in> held s 0 \<and> (\<forall>h'. 3 \<in> held s h' \<longrightarrow> h' = 0) \<and> \<not> sie (cpus s 0)"
proof -
  obtain s where s: "smp_reach s" "3 \<in> held s 0" using acquired_reachable by blast
  then show ?thesis using spinlock_mutual_exclusion [OF s] by blast
qed

text \<open>
  C31: The checks of \<open>acquire\<close>, \<open>release\<close> and \<open>pop_off\<close> never fire by accident: the only steps that
  panic are an \<open>acquire\<close> of a lock this CPU holds already and a \<open>release\<close> of a lock it does not hold,
  although \<open>holding\<close> reads the two fields of the lock while other CPUs may be changing them.
\<close>

theorem spinlock_panics_only_on_misuse:
  assumes "smp_reach s" and "smp_step h s s'" and "at s' h = Dead m" and "at s h \<noteq> Dead m"
  shows "(\<exists>l. m = ''acquire'' \<and> at s h = Acq2 l \<and> l \<in> held s h) \<or>
    (\<exists>l. m = ''release'' \<and> (at s h = Rel1 l \<or> at s h = Rel2 l) \<and> l \<notin> held s h)"
proof -
  have H: "hart_inv s h" and L: "\<And>l. lock_inv s l" using smp_reach_inv [OF assms(1)] by (auto simp: smp_inv_def)
  from assms(2) H L assms(3,4) show ?thesis
  proof (induction rule: smp_step.induct)
    case (pop s)
    then show ?case using pop_off_held [of s h] by (auto simp: smp_upd pop_off_at_def)
  qed (auto simp: lock_inv_def owns_def smp_upd split: if_splits)
qed

theorem spinlock_panics_only_on_misuse_witness:
  "\<exists>s s'. smp_reach s \<and> smp_step 0 s s' \<and> at s' 0 = Dead ''acquire'' \<and> (\<exists>l. at s 0 = Acq2 l \<and> l \<in> held s 0)"
proof -
  obtain s where s: "smp_reach s" "3 \<in> held s 0" "at s 0 = Out" "lk_locked (locks s 3)"
    using acquired_reachable by blast
  define s1 where "s1 = goto 0 (Acq1 3) (upd_cpu 0 (push_off (cpus s 0)) s)"
  define s2 where "s2 = goto 0 (Acq2 3) s1"
  define s3 where "s3 = goto 0 (Dead ''acquire'') s2"
  have "smp_reach s1" using smp_reach.step [OF s(1) smp_step.acquire [OF s(3), of 3]] by (simp add: s1_def)
  moreover have "smp_step 0 s1 s2"
    using smp_step.acquire_locked [of s1 0 3] s(4) by (simp add: s1_def s2_def smp_upd)
  ultimately have r2: "smp_reach s2" by (rule smp_reach.step)
  have "lk_cpu (locks s 3) = Some 0"
    using smp_reach_inv [OF s(1)] s(2,3) by (simp add: smp_inv_def lock_inv_def)
  then have st: "smp_step 0 s2 s3"
    using smp_step.acquire_cpu [of s2 0 3] by (simp add: s1_def s2_def s3_def smp_upd)
  have "at s3 0 = Dead ''acquire''" "at s2 0 \<noteq> Dead ''acquire''" by (simp_all add: s2_def s3_def smp_upd)
  with spinlock_panics_only_on_misuse [OF r2 st this] r2 st show ?thesis by auto
qed

end
