(* ===== verification/Interfaces.thy ===== *)
theory Interfaces
  imports Machine
begin

text \<open>
  The contracts several components of the kernel share, as locales. \<open>allocator\<close> is the contract
  of a pool of resources that are handed out and given back (physical pages, virtio
  descriptors); \<open>fifo\<close> is the contract of a bounded queue (pipes, the console input, the
  UART output), with the lemmas on circular buffers with free-running counters that implement
  it. Each locale is interpreted on the definitions of the components that implement it.
\<close>

section \<open>Allocators\<close>

text \<open>
  A client of an allocator is a sequence of requests. \<open>held\<close> is what the client holds: an
  \<open>Alloc\<close> adds the resource it gets (or nothing if there is none), a \<open>Free r\<close> gives back a
  resource it holds; a client that does not hold \<open>r\<close> makes no call.
\<close>

datatype 'r request = Alloc | Free 'r

fun serve ::
  "('s, 'r) M \<Rightarrow> ('r \<Rightarrow> ('s, unit) M) \<Rightarrow> 'r \<Rightarrow> 'r request list \<Rightarrow> 'r list \<Rightarrow> ('s, 'r list) M" where
  "serve alloc free nil [] held = retM held"
| "serve alloc free nil (Alloc # rs) held =
     bindM alloc (\<lambda>r. serve alloc free nil rs (if r = nil then held else r # held))"
| "serve alloc free nil (Free r # rs) held =
     (if r \<in> set held
      then thenM (free r) (serve alloc free nil rs (remove1 r held))
      else serve alloc free nil rs held)"

locale allocator =
  fixes alloc :: "('s, 'r) M"
    and free :: "'r \<Rightarrow> ('s, unit) M"
    and nil :: 'r
    and inv :: "'s \<Rightarrow> bool"
    and avail :: "'s \<Rightarrow> 'r set"
    and pool :: "'s \<Rightarrow> 'r set"
  assumes nil_not_pool: "inv s \<Longrightarrow> nil \<notin> pool s"
    and avail_pool: "inv s \<Longrightarrow> avail s \<subseteq> pool s"
    and alloc_some: "inv s \<Longrightarrow> avail s \<noteq> {} \<Longrightarrow>
      \<exists>r s'. alloc s = Ret r s' \<and> r \<in> avail s \<and> inv s' \<and> avail s' = avail s - {r} \<and> pool s' = pool s"
    and alloc_none: "inv s \<Longrightarrow> avail s = {} \<Longrightarrow>
      \<exists>s'. alloc s = Ret nil s' \<and> inv s' \<and> avail s' = {} \<and> pool s' = pool s"
    and free_some: "inv s \<Longrightarrow> r \<in> pool s \<Longrightarrow> r \<notin> avail s \<Longrightarrow>
      \<exists>s'. free r s = Ret () s' \<and> inv s' \<and> avail s' = insert r (avail s) \<and> pool s' = pool s"
begin

text \<open>
  What the client holds and what is available partition the pool, and no resource is held
  twice.
\<close>

definition balanced :: "'r list \<Rightarrow> 's \<Rightarrow> bool" where
  "balanced held s \<longleftrightarrow>
     inv s \<and> distinct held \<and> set held \<inter> avail s = {} \<and> set held \<union> avail s = pool s"

lemma balanced_alloc:
  assumes "balanced held s"
  obtains r s' where "alloc s = Ret r s'" and "pool s' = pool s"
    and "balanced (if r = nil then held else r # held) s'"
proof (cases "avail s = {}")
  case True
  with assms alloc_none [of s] that [of nil] show ?thesis by (auto simp: balanced_def)
next
  case False
  with assms alloc_some [of s] obtain r s' where r: "alloc s = Ret r s'" "r \<in> avail s" "inv s'"
    "avail s' = avail s - {r}" "pool s' = pool s" by (auto simp: balanced_def)
  with assms nil_not_pool [of s] avail_pool [of s] have "r \<noteq> nil" by (auto simp: balanced_def)
  with assms r that [of r s'] show ?thesis by (auto simp: balanced_def)
qed

lemma balanced_free:
  assumes "balanced held s" and "r \<in> set held"
  obtains s' where "free r s = Ret () s'" and "pool s' = pool s" and "balanced (remove1 r held) s'"
proof -
  from assms have "r \<in> pool s" "r \<notin> avail s" "inv s" by (auto simp: balanced_def)
  with free_some obtain s' where "free r s = Ret () s'" "inv s'" "avail s' = insert r (avail s)"
    "pool s' = pool s" by blast
  with assms that [of s'] show ?thesis by (auto simp: balanced_def)
qed

lemma serve_balanced:
  assumes "balanced held s"
  shows "\<exists>held' s'. serve alloc free nil rs held s = Ret held' s' \<and> balanced held' s'
    \<and> pool s' = pool s"
  using assms
proof (induction rs arbitrary: held s)
  case Nil
  then show ?case by simp
next
  case (Cons q rs)
  show ?case
  proof (cases q)
    case Alloc
    from Cons.prems obtain r s' where r: "alloc s = Ret r s'" "pool s' = pool s"
      and "balanced (if r = nil then held else r # held) s'" by (rule balanced_alloc)
    from Cons.IH [OF this(3)] r show ?thesis by (simp add: Alloc)
  next
    case (Free r)
    show ?thesis
    proof (cases "r \<in> set held")
      case True
      from Cons.prems this obtain s' where r: "free r s = Ret () s'" "pool s' = pool s"
        and "balanced (remove1 r held) s'" by (rule balanced_free)
      from Cons.IH [OF this(3)] r True show ?thesis by (simp add: Free)
    next
      case False
      then show ?thesis using Cons by (simp add: Free)
    qed
  qed
qed

text \<open>No request ever fails with a panic, and no resource is ever handed out twice.\<close>

lemma serve_partition:
  assumes "inv s" and "avail s = pool s"
  obtains held s' where "serve alloc free nil rs [] s = Ret held s'" and "distinct held"
    and "set held \<inter> avail s' = {}" and "set held \<union> avail s' = pool s" and "inv s'"
proof -
  from assms have "balanced [] s" by (simp add: balanced_def)
  from serve_balanced [OF this, of rs] that show ?thesis by (auto simp: balanced_def)
qed

end

section \<open>Queues\<close>

text \<open>
  A client of a queue is a sequence of attempts to add or take an element; an attempt to add to
  a full queue or to take from an empty one makes no call. \<open>transfer\<close> returns the elements
  that were accepted and those that were delivered, in order.
\<close>

datatype 'c attempt = Put 'c | Get

fun transfer ::
  "('c \<Rightarrow> 's \<Rightarrow> 's) \<Rightarrow> ('s \<Rightarrow> 'c \<times> 's) \<Rightarrow> ('s \<Rightarrow> bool) \<Rightarrow> ('s \<Rightarrow> bool) \<Rightarrow>
   'c attempt list \<Rightarrow> 's \<Rightarrow> 'c list \<times> 'c list \<times> 's" where
  "transfer put get full void [] s = ([], [], s)"
| "transfer put get full void (Put c # qs) s =
     (if full s then transfer put get full void qs s
      else case transfer put get full void qs (put c s) of (ins, outs, s') \<Rightarrow> (c # ins, outs, s'))"
| "transfer put get full void (Get # qs) s =
     (if void s then transfer put get full void qs s
      else case get s of (c, s1) \<Rightarrow>
        case transfer put get full void qs s1 of (ins, outs, s') \<Rightarrow> (ins, c # outs, s'))"

locale fifo =
  fixes put :: "'c \<Rightarrow> 's \<Rightarrow> 's"
    and get :: "'s \<Rightarrow> 'c \<times> 's"
    and full :: "'s \<Rightarrow> bool"
    and void :: "'s \<Rightarrow> bool"
    and contents :: "'s \<Rightarrow> 'c list"
    and capacity :: nat
    and inv :: "'s \<Rightarrow> bool"
  assumes full_iff: "inv s \<Longrightarrow> full s \<longleftrightarrow> length (contents s) = capacity"
    and void_iff: "inv s \<Longrightarrow> void s \<longleftrightarrow> contents s = []"
    and put_law: "inv s \<Longrightarrow> \<not> full s \<Longrightarrow> inv (put c s) \<and> contents (put c s) = contents s @ [c]"
    and get_law: "inv s \<Longrightarrow> \<not> void s \<Longrightarrow>
      inv (snd (get s)) \<and> contents s = fst (get s) # contents (snd (get s))"
    and within: "inv s \<Longrightarrow> length (contents s) \<le> capacity"
begin

text \<open>
  First in, first out: nothing is lost, duplicated or reordered by any sequence of attempts.
\<close>

lemma transfer_fifo:
  assumes "inv s" and "transfer put get full void qs s = (ins, outs, s')"
  shows "contents s @ ins = outs @ contents s' \<and> inv s' \<and> length (contents s') \<le> capacity"
  using assms
proof (induction qs arbitrary: s ins outs s')
  case Nil
  then show ?case by (simp add: within)
next
  case (Cons q qs)
  show ?case
  proof (cases q)
    case (Put c)
    show ?thesis
    proof (cases "full s")
      case True
      then show ?thesis using Cons Put by simp
    next
      case False
      obtain ins1 outs1 s1 where t: "transfer put get full void qs (put c s) = (ins1, outs1, s1)"
        by (rule prod_cases3)
      from Cons.IH [OF _ t] put_law [OF Cons.prems(1) False, of c] Cons.prems(2) t False
      show ?thesis by (auto simp: Put)
    qed
  next
    case Get
    show ?thesis
    proof (cases "void s")
      case True
      then show ?thesis using Cons Get by simp
    next
      case False
      obtain c s0 where g: "get s = (c, s0)" by (rule prod.exhaust)
      obtain ins1 outs1 s1 where t: "transfer put get full void qs s0 = (ins1, outs1, s1)"
        by (rule prod_cases3)
      from Cons.IH [OF _ t] get_law [OF Cons.prems(1) False] Cons.prems(2) t g False
      show ?thesis by (auto simp: Get)
    qed
  qed
qed

end

text \<open>
  A circular buffer of \<open>n\<close> slots addressed by free-running counters: the element written as
  number \<open>w\<close> goes to slot \<open>w % n\<close>. The counters wrap at the width of their type, which
  is harmless because \<open>n\<close> divides \<open>2 ^ LENGTH('w)\<close>.
\<close>

definition ring_contents :: "nat \<Rightarrow> (nat \<Rightarrow> 'c) \<Rightarrow> 'w::len word \<Rightarrow> 'w word \<Rightarrow> 'c list" where
  "ring_contents n d r w = map (\<lambda>i. d (unat (r + of_nat i) mod n)) [0..<unat (w - r)]"

lemma length_ring_contents [simp]: "length (ring_contents n d r w) = unat (w - r)"
  by (simp add: ring_contents_def)

lemma ring_empty_iff: "ring_contents n d r w = [] \<longleftrightarrow> r = w"
  by (auto simp: ring_contents_def unat_eq_zero)

lemma ring_self [simp]: "ring_contents n d r r = []"
  by (simp add: ring_empty_iff)

lemma unat_ring_offset:
  assumes "n dvd 2 ^ LENGTH('w)"
  shows "unat (r + of_nat i :: 'w::len word) mod n = (unat r + i) mod n"
proof -
  have "unat (r + of_nat i) = (unat r + i) mod 2 ^ LENGTH('w)"
    by (simp add: unat_word_ariths unat_of_nat mod_add_right_eq)
  then show ?thesis using assms by (simp add: mod_mod_cancel)
qed

lemma ring_get:
  assumes "r \<noteq> w"
  shows "ring_contents n d r w = d (unat r mod n) # ring_contents n d (r + 1) w"
proof -
  have "unat (w - r) \<noteq> 0" using assms by (simp add: unat_eq_zero)
  moreover have "unat (w - (r + 1)) = unat (w - r) - 1"
    using unat_minus_one [of "w - r"] assms by (simp add: diff_diff_eq)
  ultimately obtain k where k: "unat (w - r) = Suc k" "unat (w - (r + 1)) = k"
    by (metis Suc_pred' diff_Suc_1 neq0_conv)
  show ?thesis
    unfolding ring_contents_def k map_upt_Suc by (simp add: add.assoc add.commute add.left_commute)
qed

lemma ring_get_length:
  assumes "r \<noteq> (w :: 'w::len word)"
  shows "unat (w - r) = Suc (unat (w - (r + 1)))"
  using arg_cong [OF ring_get [OF assms, of 1 "\<lambda>_. ()"], of length] by simp

lemma ring_put:
  fixes r w :: "'w::len word"
  assumes dvd: "n dvd 2 ^ LENGTH('w)" and room: "unat (w - r) < n" and big: "n < 2 ^ LENGTH('w)"
  shows "ring_contents n (d(unat w mod n := c)) r (w + 1) = ring_contents n d r w @ [c]"
    and "unat (w + 1 - r) = Suc (unat (w - r))"
proof -
  let ?k = "unat (w - r)"
  have w: "w = r + of_nat ?k" by simp
  have "w + 1 - r = of_nat (Suc ?k)" by simp
  then have "unat (w + 1 - r) = Suc ?k mod 2 ^ LENGTH('w)" by (metis unat_of_nat)
  then show k: "unat (w + 1 - r) = Suc ?k" using room big by simp
  have slot: "unat (r + of_nat i) mod n \<noteq> unat w mod n" if "i < ?k" for i
  proof
    assume "unat (r + of_nat i) mod n = unat w mod n"
    then have "(unat r + i) mod n = (unat r + ?k) mod n"
      using unat_ring_offset [OF dvd] w by metis
    then have "i mod n = ?k mod n" by (simp add: nat_mod_eq_iff)
    then show False using that room by simp
  qed
  show "ring_contents n (d(unat w mod n := c)) r (w + 1) = ring_contents n d r w @ [c]"
    unfolding ring_contents_def k using slot by simp
qed

lemma ring_append:
  fixes r w e :: "'w::len word"
  assumes "unat (w - r) + unat (e - w) < 2 ^ LENGTH('w)"
  shows "ring_contents n d r e = ring_contents n d r w @ ring_contents n d w e"
    and "unat (e - r) = unat (w - r) + unat (e - w)"
proof -
  let ?a = "unat (w - r)" and ?b = "unat (e - w)"
  have "e - r = (w - r) + (e - w)" by simp
  then show s: "unat (e - r) = ?a + ?b" using assms by (simp only: unat_word_ariths) simp
  have w: "w = r + of_nat ?a" by simp
  have "ring_contents n d w e = map (\<lambda>i. d (unat (r + of_nat i) mod n)) (map ((+) ?a) [0..<?b])"
    unfolding ring_contents_def map_map comp_def by (subst w) (simp add: add.assoc)
  moreover have "map ((+) ?a) [0..<?b] = [?a..<?a + ?b]" by (rule nth_equalityI) auto
  ultimately have 2: "ring_contents n d w e = map (\<lambda>i. d (unat (r + of_nat i) mod n)) [?a..<?a + ?b]" by simp
  have "[0..<?a + ?b] = [0..<?a] @ [?a..<?a + ?b]" using upt_add_eq_append [of 0 ?a ?b] by simp
  then show "ring_contents n d r e = ring_contents n d r w @ ring_contents n d w e"
    unfolding 2 by (simp only: ring_contents_def s map_append)
qed

lemma ring_last:
  fixes r w :: "'w::len word"
  assumes "r \<noteq> w"
  shows "ring_contents n d r w = ring_contents n d r (w - 1) @ [d (unat (w - 1) mod n)]"
    and "unat (w - r) = Suc (unat (w - 1 - r))"
proof -
  have k: "unat (w - r) \<noteq> 0" using assms by (simp add: unat_eq_zero)
  moreover have "w - r \<noteq> 0" using assms by simp
  ultimately show s: "unat (w - r) = Suc (unat (w - 1 - r))"
    using unat_minus_one [of "w - r"] by (simp add: diff_right_commute)
  have "unat (w - 1 - r) + unat (w - (w - 1)) = Suc (unat (w - 1 - r))" by simp
  also have "\<dots> < 2 ^ LENGTH('w)" using s unat_less_pow [of "w - r"] by simp
  finally have "ring_contents n d r w = ring_contents n d r (w - 1) @ ring_contents n d (w - 1) w"
    by (rule ring_append)
  then show "ring_contents n d r w = ring_contents n d r (w - 1) @ [d (unat (w - 1) mod n)]"
    using ring_get [of "w - 1" w n d] by (simp add: ring_empty_iff ring_contents_def)
qed

text \<open>Storing behind the end of a ring in two parts.\<close>

lemma ring_store:
  fixes r w e :: "'w::len word"
  assumes dvd: "n dvd 2 ^ LENGTH('w)" and room: "unat (w - r) + unat (e - w) < n" and big: "n < 2 ^ LENGTH('w)"
    and d': "d' = d(unat e mod n := c)"
  shows "ring_contents n d' r w = ring_contents n d r w"
    and "ring_contents n d' w (e + 1) = ring_contents n d w e @ [c]"
    and "unat (e + 1 - w) = Suc (unat (e - w))"
proof -
  have lt: "unat (w - r) + unat (e - w) < 2 ^ LENGTH('w)" using room big by simp
  note a = ring_append(1) [OF lt, of n d] ring_append(2) [OF lt]
  have "unat (e - r) < n" using a(2) room by simp
  note p = ring_put(1) [OF dvd this big, of d c, folded d']
  show s: "unat (e + 1 - w) = Suc (unat (e - w))" using ring_put(2) [OF dvd _ big, of e w] room by simp
  have "unat (w - r) + unat (e + 1 - w) < 2 ^ LENGTH('w)" using s room big by simp
  from ring_append(1) [OF this, of n d'] p a(1)
  have "ring_contents n d' r w @ ring_contents n d' w (e + 1) = ring_contents n d r w @ (ring_contents n d w e @ [c])"
    by simp
  then show "ring_contents n d' r w = ring_contents n d r w"
    and "ring_contents n d' w (e + 1) = ring_contents n d w e @ [c]"
    by (simp_all add: append_eq_append_conv)
qed

end
