(* ===== verification/Kalloc.thy ===== *)
theory Kalloc
  imports CString Interfaces
begin

text \<open>
  The physical page allocator, \<^verbatim>\<open>kernel/kalloc.c\<close>. The state is physical memory, the head of
  the free list and the link-time symbol \<open>end\<close>; a free page holds the address of the next one
  in its first eight bytes. The abstract view is the list of free pages.
\<close>

section \<open>Model\<close>

record kmem_state =
  mem :: memory         \<comment> \<open>physical memory, identity-mapped in the kernel\<close>
  freelist :: u64       \<comment> \<open>kmem.freelist\<close>
  kend :: u64           \<comment> \<open>the linker symbol \<open>end\<close>, first address after the kernel\<close>

definition kfree :: "u64 \<Rightarrow> ('a kmem_state_scheme, unit) M" where
  "kfree pa s =
     (if pa mod PGSIZE \<noteq> 0 \<or> pa < kend s \<or> pa \<ge> PHYSTOP then Panic ''kfree''
      else let m = memset (mem s) pa 1 4096 in
        Ret () (s\<lparr>mem := store64 m pa (freelist s), freelist := pa\<rparr>))"

definition kalloc :: "('a kmem_state_scheme, u64) M" where
  "kalloc s =
     (let r = freelist s;
          s1 = (if r \<noteq> 0 then s\<lparr>freelist := load64 (mem s) r\<rparr> else s);
          s2 = (if r \<noteq> 0 then s1\<lparr>mem := memset (mem s1) r 5 4096\<rparr> else s1)
      in Ret r s2)"

text \<open>
  The loop of \<open>freerange\<close> continues only after \<open>kfree\<close> has returned, so with
  \<open>p < PHYSTOP\<close>.
\<close>

lemma kfree_RetD:
  "kfree pa s = Ret x s' \<Longrightarrow> page_aligned pa \<and> kend s \<le> pa \<and> pa < PHYSTOP"
  by (auto simp: kfree_def page_aligned_def not_less not_le split: if_splits)

function freerange_loop :: "u64 \<Rightarrow> u64 \<Rightarrow> ('a kmem_state_scheme, unit) M" where
  "freerange_loop p pa_end s =
     (if p + PGSIZE \<le> pa_end
      then (case kfree p s of
              Ret x s' \<Rightarrow> freerange_loop (p + PGSIZE) pa_end s'
            | Panic e \<Rightarrow> Panic e
            | Block c s' \<Rightarrow> Block c s')
      else Ret () s)"
  by pat_completeness auto
termination
proof (relation "measure (\<lambda>(p, pa_end, s). unat PHYSTOP - unat p)")
  fix p pa_end :: u64 and s s' :: "'a kmem_state_scheme" and x :: unit
  assume "kfree p s = Ret x s'"
  then have "unat p < unat PHYSTOP" by (auto dest!: kfree_RetD simp: word_less_nat_alt)
  moreover from this have "unat (p + PGSIZE) = unat p + 4096"
    by (simp add: unat_word_ariths)
  ultimately show "((p + PGSIZE, pa_end, s'), (p, pa_end, s)) \<in> measure (\<lambda>(p, pa_end, s). unat PHYSTOP - unat p)"
    by simp
qed simp

declare freerange_loop.simps [simp del]

definition freerange :: "u64 \<Rightarrow> u64 \<Rightarrow> ('a kmem_state_scheme, unit) M" where
  "freerange pa_start pa_end = freerange_loop (PGROUNDUP pa_start) pa_end"

definition kinit :: "('a kmem_state_scheme, unit) M" where
  "kinit s = freerange (kend s) PHYSTOP s"

section \<open>The free list\<close>

text \<open>\<open>linked m x ps\<close>: the chain of \<open>next\<close> pointers from \<open>x\<close> runs through \<open>ps\<close>.\<close>

fun linked :: "memory \<Rightarrow> u64 \<Rightarrow> u64 list \<Rightarrow> bool" where
  "linked m x [] \<longleftrightarrow> x = 0"
| "linked m x (p # ps) \<longleftrightarrow> x = p \<and> p \<noteq> 0 \<and> linked m (load64 m p) ps"

definition heap_pages :: "'a kmem_state_scheme \<Rightarrow> u64 set" where
  "heap_pages s = {p. page_aligned p \<and> kend s \<le> p \<and> p < PHYSTOP}"

definition free_list :: "'a kmem_state_scheme \<Rightarrow> u64 list \<Rightarrow> bool" where
  "free_list s ps \<longleftrightarrow>
     linked (mem s) (freelist s) ps \<and> distinct ps \<and> set ps \<subseteq> heap_pages s"

definition kmem_ok :: "'a kmem_state_scheme \<Rightarrow> bool" where
  "kmem_ok s \<longleftrightarrow> KERNBASE \<le> kend s \<and> (\<exists>ps. free_list s ps)"

definition free_pages :: "'a kmem_state_scheme \<Rightarrow> u64 set" where
  "free_pages s = {p. \<exists>ps. linked (mem s) (freelist s) ps \<and> p \<in> set ps}"

lemma linked_unique: "linked m x ps \<Longrightarrow> linked m x qs \<Longrightarrow> ps = qs"
proof (induction ps arbitrary: x qs)
  case Nil
  then show ?case by (cases qs) auto
next
  case (Cons p ps)
  then show ?case by (cases qs) auto
qed

lemma free_pages_eq: "free_list s ps \<Longrightarrow> free_pages s = set ps"
  unfolding free_pages_def free_list_def using linked_unique by blast

lemma load64_frame:
  assumes "\<And>x. in_page p x \<Longrightarrow> m' x = m x"
  shows "load64 m' p = load64 m p"
  by (rule load64_cong) (simp add: assms in_page_offset)

lemma linked_frame:
  assumes "\<And>p x. p \<in> set ps \<Longrightarrow> in_page p x \<Longrightarrow> m' x = m x"
  shows "linked m' x ps \<longleftrightarrow> linked m x ps"
  using assms
proof (induction ps arbitrary: x)
  case (Cons p ps)
  have "load64 m' p = load64 m p" by (rule load64_frame) (use Cons.prems in auto)
  moreover have "linked m' y ps \<longleftrightarrow> linked m y ps" for y by (rule Cons.IH) (use Cons.prems in auto)
  ultimately show ?case by simp
qed simp

lemma heap_pages_disjoint:
  assumes "p \<in> heap_pages s" and "q \<in> heap_pages s" and "p \<noteq> q" and "in_page p x"
  shows "\<not> in_page q x"
  using assms pages_disjoint [of p q x] by (auto simp: heap_pages_def)

lemma heap_page_nonzero: "KERNBASE \<le> kend s \<Longrightarrow> p \<in> heap_pages s \<Longrightarrow> p \<noteq> 0"
  by (auto simp: heap_pages_def)

lemma memset_page: "memset m p c 4096 x = (if in_page p x then c else m x)"
  by (simp add: memset_apply in_page_def)

lemma store64_page: "\<not> in_page p x \<Longrightarrow> store64 m p w x = m x"
  by (simp add: store64_apply in_page_def)

lemma heap_pages_update [simp]:
  "heap_pages (s\<lparr>mem := m\<rparr>) = heap_pages s" "heap_pages (s\<lparr>freelist := f\<rparr>) = heap_pages s"
  by (simp_all add: heap_pages_def)

text \<open>\<open>kfree\<close> pushes the page on the list and touches no other page.\<close>

lemma kfree_push:
  assumes "free_list s ps" and "pa \<in> heap_pages s" and "pa \<notin> set ps" and "KERNBASE \<le> kend s"
  obtains m where "kfree pa s = Ret () (s\<lparr>mem := m, freelist := pa\<rparr>)"
    and "free_list (s\<lparr>mem := m, freelist := pa\<rparr>) (pa # ps)"
    and "\<And>x. \<not> in_page pa x \<Longrightarrow> m x = mem s x"
proof
  let ?m = "store64 (memset (mem s) pa 1 4096) pa (freelist s)"
  show frame: "?m x = mem s x" if "\<not> in_page pa x" for x
    using that by (simp add: store64_page memset_page)
  show "kfree pa s = Ret () (s\<lparr>mem := ?m, freelist := pa\<rparr>)"
    using assms(2) by (auto simp: kfree_def heap_pages_def page_aligned_def Let_def)
  have "linked ?m (freelist s) ps"
  proof -
    have "?m x = mem s x" if "p \<in> set ps" "in_page p x" for p x
      using that assms heap_pages_disjoint [of p s pa x] frame by (auto simp: free_list_def)
    from linked_frame [of ps ?m, OF this] assms(1) show ?thesis by (simp add: free_list_def)
  qed
  then show "free_list (s\<lparr>mem := ?m, freelist := pa\<rparr>) (pa # ps)"
    using assms heap_page_nonzero [of s pa] by (auto simp: free_list_def)
qed

text \<open>\<open>kalloc\<close> pops the first page, fills it with 5s and touches no other page.\<close>

lemma kalloc_pop:
  assumes "free_list s (p # ps)"
  defines "s' \<equiv> s\<lparr>freelist := load64 (mem s) p, mem := memset (mem s) p 5 4096\<rparr>"
  shows "kalloc s = Ret p s'" and "free_list s' ps"
proof -
  from assms(1) have p: "freelist s = p" "p \<noteq> 0" by (auto simp: free_list_def)
  show "kalloc s = Ret p s'" by (simp add: kalloc_def p s'_def)
  have "memset (mem s) p 5 4096 x = mem s x" if "q \<in> set ps" "in_page q x" for q x
    using that assms(1) heap_pages_disjoint [of q s p x] by (auto simp: free_list_def memset_page)
  from linked_frame [of ps "memset (mem s) p 5 4096", OF this]
  show "free_list s' ps" using assms(1) by (auto simp: free_list_def s'_def)
qed

lemma kalloc_empty: "free_list s [] \<Longrightarrow> kalloc s = Ret 0 s"
  by (simp add: free_list_def kalloc_def)

lemma kalloc_cases:
  assumes "kmem_ok s"
  obtains "kalloc s = Ret 0 s" and "free_pages s = {}"
  | p m f where "kalloc s = Ret p (s\<lparr>freelist := f, mem := m\<rparr>)"
      and "kmem_ok (s\<lparr>freelist := f, mem := m\<rparr>)" and "p \<in> free_pages s" and "p \<in> heap_pages s" and "p \<noteq> 0"
      and "free_pages (s\<lparr>freelist := f, mem := m\<rparr>) = free_pages s - {p}"
      and "\<And>x. m x = (if in_page p x then 5 else mem s x)"
proof -
  from assms obtain ps where ps: "free_list s ps" and e: "KERNBASE \<le> kend s" by (auto simp: kmem_ok_def)
  show ?thesis
  proof (cases ps)
    case Nil
    with ps that(1) show ?thesis by (simp add: kalloc_empty free_pages_eq [OF ps])
  next
    case (Cons p qs)
    let ?s = "s\<lparr>freelist := load64 (mem s) p, mem := memset (mem s) p 5 4096\<rparr>"
    note ps = ps [unfolded Cons]
    from kalloc_pop [OF ps] have s: "kalloc s = Ret p ?s" "free_list ?s qs" by simp_all
    have p: "p \<in> heap_pages s" "p \<notin> set qs" using ps by (auto simp: free_list_def)
    show ?thesis
    proof (rule that(2))
      show "kmem_ok ?s" using s e by (auto simp: kmem_ok_def)
      show "free_pages ?s = free_pages s - {p}"
        using free_pages_eq [OF s(2)] free_pages_eq [OF ps] p by simp
      show "p \<noteq> 0" by (rule heap_page_nonzero [OF e p(1)])
    qed (use s(1) p(1) free_pages_eq [OF ps] in \<open>simp_all add: memset_page\<close>)
  qed
qed

section \<open>The allocator contract\<close>

interpretation pages: allocator "kalloc :: ('a kmem_state_scheme, u64) M" kfree 0 kmem_ok free_pages heap_pages
proof
  fix s :: "'a kmem_state_scheme" and pa
  assume ok: "kmem_ok s"
  then show "0 \<notin> heap_pages s" by (auto simp: kmem_ok_def heap_pages_def)
  from ok obtain ps where ps: "free_list s ps" and e: "KERNBASE \<le> kend s" by (auto simp: kmem_ok_def)
  then show sub: "free_pages s \<subseteq> heap_pages s" by (simp add: free_pages_eq free_list_def)
  show "\<exists>r s'. kalloc s = Ret r s' \<and> r \<in> free_pages s \<and> kmem_ok s'
      \<and> free_pages s' = free_pages s - {r} \<and> heap_pages s' = heap_pages s"
    if "free_pages s \<noteq> {}" using ok
  proof (cases rule: kalloc_cases)
    case 1
    with that show ?thesis by simp
  next
    case (2 p m f)
    then show ?thesis by simp
  qed
  show "\<exists>s'. kalloc s = Ret 0 s' \<and> kmem_ok s' \<and> free_pages s' = {} \<and> heap_pages s' = heap_pages s"
    if "free_pages s = {}" using ok
  proof (cases rule: kalloc_cases)
    case 1
    with that ok show ?thesis by simp
  next
    case (2 p m f)
    with that show ?thesis by simp
  qed
  show "\<exists>s'. kfree pa s = Ret () s' \<and> kmem_ok s' \<and> free_pages s' = insert pa (free_pages s)
      \<and> heap_pages s' = heap_pages s" if "pa \<in> heap_pages s" "pa \<notin> free_pages s"
  proof -
    from that ps have "pa \<notin> set ps" by (simp add: free_pages_eq)
    from kfree_push [OF ps that(1) this e] obtain m where
      "kfree pa s = Ret () (s\<lparr>mem := m, freelist := pa\<rparr>)"
      and fl: "free_list (s\<lparr>mem := m, freelist := pa\<rparr>) (pa # ps)" by blast
    moreover from fl e have "kmem_ok (s\<lparr>mem := m, freelist := pa\<rparr>)" by (auto simp: kmem_ok_def)
    ultimately show ?thesis using free_pages_eq [OF ps] free_pages_eq [OF fl] by simp
  qed
qed

section \<open>Boot\<close>

lemma page_successor:
  assumes "page_aligned p" and "p < PHYSTOP"
  shows "page_aligned (p + PGSIZE)" and "unat (p + PGSIZE) = unat p + 4096" and "p + PGSIZE \<le> PHYSTOP"
proof -
  from assms(1) obtain k where k: "unat p = 4096 * k" by (rule page_alignedE)
  with assms have "k < 0x88000" by (simp add: word_less_nat_alt)
  then show u: "unat (p + PGSIZE) = unat p + 4096" by (simp add: unat_word_ariths k)
  with k show "page_aligned (p + PGSIZE)" by (simp add: page_aligned_nat)
  from u k \<open>k < 0x88000\<close> show "p + PGSIZE \<le> PHYSTOP" by (simp add: word_le_nat_alt)
qed

lemma freerange_loop_free_list:
  assumes "page_aligned p" and "KERNBASE \<le> kend s" and "kend s \<le> p" and "p \<le> PHYSTOP"
    and "free_list s ps" and "set ps = {q \<in> heap_pages s. q < p}"
  shows "\<exists>s' ps'. freerange_loop p PHYSTOP s = Ret () s' \<and> kend s' = kend s
    \<and> free_list s' ps' \<and> set ps' = heap_pages s"
  using assms
proof (induction p "PHYSTOP" s arbitrary: ps rule: freerange_loop.induct)
  case (1 p s)
  show ?case
  proof (cases "p < PHYSTOP")
    case False
    then have "p = PHYSTOP" using 1 by simp
    then have "freerange_loop p PHYSTOP s = Ret () s" by (simp add: freerange_loop.simps)
    moreover have "set ps = heap_pages s"
      using 1 \<open>p = PHYSTOP\<close> by (auto simp: heap_pages_def)
    ultimately show ?thesis using 1 by blast
  next
    case True
    note succ = page_successor [OF 1(2) True]
    have p: "p \<in> heap_pages s" "p \<notin> set ps" using 1 True by (auto simp: heap_pages_def)
    from kfree_push [OF 1(6) p 1(3)] obtain m where
      m: "kfree p s = Ret () (s\<lparr>mem := m, freelist := p\<rparr>)"
      and fl: "free_list (s\<lparr>mem := m, freelist := p\<rparr>) (p # ps)" by blast
    have "q < p + PGSIZE \<longleftrightarrow> q < p \<or> q = p" if "page_aligned q" for q
    proof -
      from that obtain j where "unat q = 4096 * j" by (rule page_alignedE)
      moreover from 1(2) obtain k where "unat p = 4096 * k" by (rule page_alignedE)
      ultimately show ?thesis using succ(2) by (auto simp: word_less_nat_alt word_unat_eq_iff)
    qed
    then have "set (p # ps) = {q \<in> heap_pages s. q < p + PGSIZE}"
      using 1(7) p by (auto simp: heap_pages_def)
    moreover have "kend s \<le> p + PGSIZE"
      using 1(4) succ(2) by (simp add: word_le_nat_alt)
    ultimately show ?thesis
      using 1(1) [OF succ(3) m succ(1) _ _ succ(3) fl] 1(3) m succ(3)
      by (subst freerange_loop.simps) simp
  qed
qed

lemma kinit_free_list:
  assumes "KERNBASE \<le> kend s" and "kend s \<le> PHYSTOP" and "freelist s = 0"
  shows "\<exists>s'. kinit s = Ret () s' \<and> kmem_ok s' \<and> free_pages s' = heap_pages s'
    \<and> heap_pages s' = heap_pages s"
proof -
  let ?p = "PGROUNDUP (kend s)"
  have e: "unat (kend s) \<le> 0x88000000" using assms(2) by (simp add: word_le_nat_alt)
  then have p: "unat ?p = (unat (kend s) + 4095) div 4096 * 4096"
    by (simp add: unat_PGROUNDUP)
  have al: "page_aligned ?p" using p by (simp add: page_aligned_nat)
  have le: "kend s \<le> ?p" using p by (simp add: word_le_nat_alt)
  have "?p \<le> PHYSTOP" using p e by (simp add: word_le_nat_alt)
  moreover have "{q \<in> heap_pages s. q < ?p} = {}"
  proof -
    have "\<not> q < ?p" if "q \<in> heap_pages s" for q
    proof -
      from that obtain j where "unat q = 4096 * j" by (auto simp: heap_pages_def elim: page_alignedE)
      moreover have "kend s \<le> q" using that by (simp add: heap_pages_def)
      ultimately show ?thesis using p by (simp add: word_le_nat_alt word_less_nat_alt)
    qed
    then show ?thesis by blast
  qed
  moreover have "free_list s []" using assms(3) by (simp add: free_list_def)
  ultimately obtain s' ps where "kinit s = Ret () s'" "kend s' = kend s" "free_list s' ps"
    "set ps = heap_pages s"
    using freerange_loop_free_list [OF al assms(1) le, of "[]"] by (auto simp: kinit_def freerange_def)
  moreover from this have "heap_pages s' = heap_pages s" by (simp add: heap_pages_def)
  ultimately show ?thesis
    using assms(1) free_pages_eq [of s' ps] by (auto simp: kmem_ok_def)
qed

text \<open>
  C2: \<open>kinit\<close> leaves exactly the pages between \<open>end\<close> and \<open>PHYSTOP\<close> on the free list, each
  once: the allocator invariant holds and every heap page is available.
\<close>

theorem kinit_frees_all_pages:
  assumes "KERNBASE \<le> kend s" and "kend s \<le> PHYSTOP" and "freelist s = 0"
  shows "\<exists>s'. kinit s = Ret () s' \<and> kmem_ok s' \<and> free_pages s' = heap_pages s'
    \<and> heap_pages s' = heap_pages s"
  using assms by (rule kinit_free_list)

theorem kinit_frees_all_pages_witness:
  "\<exists>s'. kinit \<lparr>mem = (\<lambda>_. 0), freelist = 0, kend = 0x80021d10\<rparr> = Ret () s' \<and> kmem_ok s'
    \<and> free_pages s' = heap_pages s'
    \<and> heap_pages s' = heap_pages \<lparr>mem = (\<lambda>_. 0), freelist = 0, kend = 0x80021d10\<rparr>"
  by (rule kinit_frees_all_pages) simp_all

text \<open>
  C1: Page allocator safety. After boot, any sequence of \<open>kalloc\<close> and \<open>kfree\<close> calls (of pages
  the callers hold) returns without a panic; no page is ever held twice, and the held and
  the free pages partition the physical pages from \<open>end\<close> to \<open>PHYSTOP\<close>.
\<close>

theorem kalloc_no_double_allocation:
  assumes "KERNBASE \<le> kend s" and "kend s \<le> PHYSTOP" and "freelist s = 0"
  shows "\<exists>held s'. thenM kinit (serve kalloc kfree 0 rs []) s = Ret held s' \<and> distinct held
    \<and> set held \<inter> free_pages s' = {} \<and> set held \<union> free_pages s' = heap_pages s"
proof -
  from kinit_free_list [OF assms] obtain s1 where
    s1: "kinit s = Ret () s1" "kmem_ok s1" "free_pages s1 = heap_pages s1" "heap_pages s1 = heap_pages s"
    by blast
  from s1(2,3) obtain held s' where "serve kalloc kfree 0 rs [] s1 = Ret held s'" "distinct held"
    "set held \<inter> free_pages s' = {}" "set held \<union> free_pages s' = heap_pages s1" "kmem_ok s'"
    by (rule pages.serve_partition)
  with s1(1,4) show ?thesis by simp
qed

theorem kalloc_no_double_allocation_witness:
  "\<exists>held s'. thenM kinit (serve kalloc kfree 0 [Alloc, Alloc, Free 0x87fff000, Alloc] [])
      \<lparr>mem = (\<lambda>_. 0), freelist = 0, kend = 0x80021d10\<rparr> = Ret held s' \<and> distinct held
    \<and> set held \<inter> free_pages s' = {}
    \<and> set held \<union> free_pages s' = heap_pages \<lparr>mem = (\<lambda>_. 0), freelist = 0, kend = 0x80021d10\<rparr>"
  by (rule kalloc_no_double_allocation) simp_all

end
