(* ===== verification/Vm.thy ===== *)
theory Vm
  imports Kalloc
begin

text \<open>
  Virtual memory, \<^verbatim>\<open>kernel/vm.c\<close>: three-level Sv39 page tables stored in physical memory, the
  walks through them, the operations that map, unmap, grow, copy and free user address
  spaces, and the copies between kernel and user memory. A page-table entry is the eight bytes at its
  address; a kernel buffer on the other side of a copy is a list of bytes.
\<close>

section \<open>Model\<close>

record vm_state = kmem_state +
  etext :: u64              \<comment> \<open>the linker symbol \<open>etext\<close>\<close>
  trampoline :: u64         \<comment> \<open>the address of the trampoline page in the kernel text\<close>
  kernel_pagetable :: u64
  satp :: u64               \<comment> \<open>the page-table register of this hart\<close>

text \<open>\<open>&pagetable[i]\<close>\<close>

definition pte_addr :: "u64 \<Rightarrow> u64 \<Rightarrow> u64" where
  "pte_addr pagetable i = pagetable + 8 * i"

fun walk_level :: "nat \<Rightarrow> u64 \<Rightarrow> u64 \<Rightarrow> bool \<Rightarrow> ('a kmem_state_scheme, u64) M" where
  "walk_level 0 pagetable va alloc s = Ret (pte_addr pagetable (PX 0 va)) s"
| "walk_level (Suc l) pagetable va alloc s =
     (let pte = pte_addr pagetable (PX (Suc l) va); e = load64 (mem s) pte in
      if e AND PTE_V \<noteq> 0 then walk_level l (PTE2PA e) va alloc s
      else if \<not> alloc then Ret 0 s
      else bindM kalloc (\<lambda>r s.
        if r = 0 then Ret 0 s
        else let m = memset (mem s) r 0 4096 in
          walk_level l r va alloc (s\<lparr>mem := store64 m pte (PA2PTE r OR PTE_V)\<rparr>)) s)"

definition walk :: "u64 \<Rightarrow> u64 \<Rightarrow> bool \<Rightarrow> ('a kmem_state_scheme, u64) M" where
  "walk pagetable va alloc s =
     (if va \<ge> MAXVA then Panic ''walk'' else walk_level 2 pagetable va alloc s)"

definition walkaddr :: "u64 \<Rightarrow> u64 \<Rightarrow> ('a kmem_state_scheme, u64) M" where
  "walkaddr pagetable va s =
     (if va \<ge> MAXVA then Ret 0 s
      else bindM (walk pagetable va False) (\<lambda>pte s.
        if pte = 0 then Ret 0 s
        else let e = load64 (mem s) pte in
          if e AND PTE_V = 0 then Ret 0 s
          else if e AND PTE_U = 0 then Ret 0 s
          else Ret (PTE2PA e) s) s)"

lemma walk_RetD: "walk pagetable va alloc s = Ret x s' \<Longrightarrow> va < MAXVA"
  by (auto simp: walk_def not_le split: if_splits)

lemma next_page_below:
  assumes "a < MAXVA"
  shows "unat (a + PGSIZE) = unat a + 4096" and "0x4000000000 - unat (a + PGSIZE) < 0x4000000000 - unat a"
proof -
  have "unat a < 0x4000000000" using assms by (simp add: word_less_nat_alt)
  then show "unat (a + PGSIZE) = unat a + 4096" by (simp add: unat_word_ariths)
  with \<open>unat a < 0x4000000000\<close> show "0x4000000000 - unat (a + PGSIZE) < 0x4000000000 - unat a" by simp
qed

function mappages_loop :: "u64 \<Rightarrow> u64 \<Rightarrow> u64 \<Rightarrow> u64 \<Rightarrow> u64 \<Rightarrow> ('a kmem_state_scheme, int) M" where
  "mappages_loop pagetable a lst pa perm s =
     (case walk pagetable a True s of
        Ret pte s1 \<Rightarrow>
          if pte = 0 then Ret (- 1) s1
          else if load64 (mem s1) pte AND PTE_V \<noteq> 0 then Panic ''mappages: remap''
          else let s2 = s1\<lparr>mem := store64 (mem s1) pte (PA2PTE pa OR perm OR PTE_V)\<rparr> in
            if a = lst then Ret 0 s2
            else mappages_loop pagetable (a + PGSIZE) lst (pa + PGSIZE) perm s2
      | Panic e \<Rightarrow> Panic e
      | Block c s1 \<Rightarrow> Block c s1)"
  by pat_completeness auto
termination
  by (relation "measure (\<lambda>(pagetable, a, lst, pa, perm, s). 0x4000000000 - unat a)")
    (auto dest: walk_RetD next_page_below(2))

declare mappages_loop.simps [simp del]

definition mappages :: "u64 \<Rightarrow> u64 \<Rightarrow> u64 \<Rightarrow> u64 \<Rightarrow> u64 \<Rightarrow> ('a kmem_state_scheme, int) M" where
  "mappages pagetable va sz pa perm s =
     (if va mod PGSIZE \<noteq> 0 then Panic ''mappages: va not aligned''
      else if sz mod PGSIZE \<noteq> 0 then Panic ''mappages: size not aligned''
      else if sz = 0 then Panic ''mappages: size''
      else mappages_loop pagetable va (va + sz - PGSIZE) pa perm s)"

definition kvmmap :: "u64 \<Rightarrow> u64 \<Rightarrow> u64 \<Rightarrow> u64 \<Rightarrow> u64 \<Rightarrow> ('a kmem_state_scheme, unit) M" where
  "kvmmap kpgtbl va pa sz perm =
     bindM (mappages kpgtbl va sz pa perm) (\<lambda>r. if r \<noteq> 0 then panicM ''kvmmap'' else retM ())"

definition proc_mapstacks :: "u64 \<Rightarrow> ('a kmem_state_scheme, unit) M" where
  "proc_mapstacks kpgtbl =
     eachM (\<lambda>p. bindM kalloc (\<lambda>pa.
       if pa = 0 then panicM ''kalloc'' else kvmmap kpgtbl (KSTACK p) pa PGSIZE (PTE_R OR PTE_W))) [0..<NPROC]"

definition kvmmake :: "('a vm_state_scheme, u64) M" where
  "kvmmake =
     bindM kalloc (\<lambda>kpgtbl.
     thenM (modM (\<lambda>s. s\<lparr>mem := memset (mem s) kpgtbl 0 4096\<rparr>))
    (thenM (kvmmap kpgtbl UART0 UART0 PGSIZE (PTE_R OR PTE_W))
    (thenM (kvmmap kpgtbl VIRTIO0 VIRTIO0 PGSIZE (PTE_R OR PTE_W))
    (thenM (kvmmap kpgtbl PLIC PLIC 0x4000000 (PTE_R OR PTE_W))
    (thenM (\<lambda>s. kvmmap kpgtbl KERNBASE KERNBASE (etext s - KERNBASE) (PTE_R OR PTE_X) s)
    (thenM (\<lambda>s. kvmmap kpgtbl (etext s) (etext s) (PHYSTOP - etext s) (PTE_R OR PTE_W) s)
    (thenM (\<lambda>s. kvmmap kpgtbl TRAMPOLINE (trampoline s) PGSIZE (PTE_R OR PTE_X) s)
    (thenM (proc_mapstacks kpgtbl) (retM kpgtbl)))))))))"

definition kvminit :: "('a vm_state_scheme, unit) M" where
  "kvminit = bindM kvmmake (\<lambda>k. modM (\<lambda>s. s\<lparr>kernel_pagetable := k\<rparr>))"

definition kvminithart :: "('a vm_state_scheme, unit) M" where
  "kvminithart = modM (\<lambda>s. s\<lparr>satp := MAKE_SATP (kernel_pagetable s)\<rparr>)"

function uvmunmap_loop :: "u64 \<Rightarrow> u64 \<Rightarrow> u64 \<Rightarrow> bool \<Rightarrow> ('a kmem_state_scheme, unit) M" where
  "uvmunmap_loop pagetable a stop do_free s =
     (if a < stop
      then (case walk pagetable a False s of
        Ret pte s1 \<Rightarrow>
          if pte = 0 then Panic ''uvmunmap: walk''
          else let e = load64 (mem s1) pte in
            if e AND PTE_V = 0 then Panic ''uvmunmap: not mapped''
            else if PTE_FLAGS e = PTE_V then Panic ''uvmunmap: not a leaf''
            else (case (if do_free then kfree (PTE2PA e) s1 else Ret () s1) of
                    Ret x s2 \<Rightarrow> uvmunmap_loop pagetable (a + PGSIZE) stop do_free
                                 (s2\<lparr>mem := store64 (mem s2) pte 0\<rparr>)
                  | Panic m \<Rightarrow> Panic m
                  | Block c s2 \<Rightarrow> Block c s2)
      | Panic m \<Rightarrow> Panic m
      | Block c s1 \<Rightarrow> Block c s1)
      else Ret () s)"
  by pat_completeness auto
termination
  by (relation "measure (\<lambda>(pagetable, a, stop, do_free, s). 0x4000000000 - unat a)")
    (auto dest: walk_RetD next_page_below(2))

declare uvmunmap_loop.simps [simp del]

definition uvmunmap :: "u64 \<Rightarrow> u64 \<Rightarrow> u64 \<Rightarrow> bool \<Rightarrow> ('a kmem_state_scheme, unit) M" where
  "uvmunmap pagetable va npages do_free s =
     (if va mod PGSIZE \<noteq> 0 then Panic ''uvmunmap: not aligned''
      else uvmunmap_loop pagetable va (va + npages * PGSIZE) do_free s)"

definition uvmcreate :: "('a kmem_state_scheme, u64) M" where
  "uvmcreate =
     bindM kalloc (\<lambda>pagetable.
       if pagetable = 0 then retM 0
       else thenM (modM (\<lambda>s. s\<lparr>mem := memset (mem s) pagetable 0 4096\<rparr>)) (retM pagetable))"

definition uvmfirst :: "u64 \<Rightarrow> u8 list \<Rightarrow> ('a kmem_state_scheme, unit) M" where
  "uvmfirst pagetable src =
     (if length src \<ge> 4096 then panicM ''uvmfirst: more than a page''
      else bindM kalloc (\<lambda>p.
        thenM (modM (\<lambda>s. s\<lparr>mem := memset (mem s) p 0 4096\<rparr>))
       (thenM (mappages pagetable 0 PGSIZE p (PTE_W OR PTE_R OR PTE_X OR PTE_U))
          (modM (\<lambda>s. s\<lparr>mem := store_bytes (mem s) p src\<rparr>)))))"

definition uvmdealloc :: "u64 \<Rightarrow> u64 \<Rightarrow> u64 \<Rightarrow> ('a kmem_state_scheme, u64) M" where
  "uvmdealloc pagetable oldsz newsz =
     (if newsz \<ge> oldsz then retM oldsz
      else thenM
        (whenM (PGROUNDUP newsz < PGROUNDUP oldsz)
          (let npages = ucast ((PGROUNDUP oldsz - PGROUNDUP newsz) div PGSIZE) :: 32 word in
           uvmunmap pagetable (PGROUNDUP newsz) (scast npages) True))
        (retM newsz))"

function uvmalloc_loop :: "u64 \<Rightarrow> u64 \<Rightarrow> u64 \<Rightarrow> u64 \<Rightarrow> u64 \<Rightarrow> ('a kmem_state_scheme, u64) M" where
  "uvmalloc_loop pagetable oldsz newsz xperm a s =
     (if a < newsz
      then (case kalloc s of
        Ret p s1 \<Rightarrow>
          if p = 0 then thenM (uvmdealloc pagetable a oldsz) (retM 0) s1
          else (case mappages pagetable a PGSIZE p (PTE_R OR PTE_U OR xperm)
                       (s1\<lparr>mem := memset (mem s1) p 0 4096\<rparr>) of
            Ret r s2 \<Rightarrow>
              if r \<noteq> 0 then thenM (kfree p) (thenM (uvmdealloc pagetable a oldsz) (retM 0)) s2
              else uvmalloc_loop pagetable oldsz newsz xperm (a + PGSIZE) s2
          | Panic m \<Rightarrow> Panic m
          | Block c s2 \<Rightarrow> Block c s2)
      | Panic m \<Rightarrow> Panic m
      | Block c s1 \<Rightarrow> Block c s1)
      else Ret newsz s)"
  by pat_completeness auto

lemma mappages_RetD:
  assumes "mappages pagetable va sz pa perm s = Ret r s'"
  shows "va < MAXVA"
  using assms
  by (auto simp: mappages_def mappages_loop.simps split: if_splits res.splits dest: walk_RetD)

termination uvmalloc_loop
  by (relation "measure (\<lambda>(pagetable, oldsz, newsz, xperm, a, s). 0x4000000000 - unat a)")
    (auto dest: mappages_RetD next_page_below(2))

declare uvmalloc_loop.simps [simp del]

definition uvmalloc :: "u64 \<Rightarrow> u64 \<Rightarrow> u64 \<Rightarrow> u64 \<Rightarrow> ('a kmem_state_scheme, u64) M" where
  "uvmalloc pagetable oldsz newsz xperm s =
     (if newsz < oldsz then Ret oldsz s
      else uvmalloc_loop pagetable (PGROUNDUP oldsz) newsz xperm (PGROUNDUP oldsz) s)"

text \<open>
  \<open>freewalk\<close> recurses into every entry that is valid but not a leaf. The first argument is
  the number of levels left; tables of Sv39 have three. A deeper chain, which only a corrupt
  table can have, is reported as a panic of its own.
\<close>

fun freewalk_at :: "nat \<Rightarrow> u64 \<Rightarrow> ('a kmem_state_scheme, unit) M" where
  "freewalk_at 0 pagetable = panicM ''freewalk: too deep''"
| "freewalk_at (Suc l) pagetable =
     thenM
       (eachM (\<lambda>i s.
          let pte = load64 (mem s) (pte_addr pagetable (of_nat i)) in
          if pte AND PTE_V \<noteq> 0 \<and> pte AND (PTE_R OR PTE_W OR PTE_X) = 0
          then thenM (freewalk_at l (PTE2PA pte))
                 (modM (\<lambda>s. s\<lparr>mem := store64 (mem s) (pte_addr pagetable (of_nat i)) 0\<rparr>)) s
          else if pte AND PTE_V \<noteq> 0 then Panic ''freewalk: leaf''
          else Ret () s) [0..<512])
       (kfree pagetable)"

definition freewalk :: "u64 \<Rightarrow> ('a kmem_state_scheme, unit) M" where
  "freewalk = freewalk_at 3"

definition uvmfree :: "u64 \<Rightarrow> u64 \<Rightarrow> ('a kmem_state_scheme, unit) M" where
  "uvmfree pagetable sz =
     thenM (whenM (sz > 0) (uvmunmap pagetable 0 (PGROUNDUP sz div PGSIZE) True)) (freewalk pagetable)"

function uvmcopy_loop :: "u64 \<Rightarrow> u64 \<Rightarrow> u64 \<Rightarrow> u64 \<Rightarrow> ('a kmem_state_scheme, int) M" where
  "uvmcopy_loop old new sz i s =
     (if i < sz
      then (case walk old i False s of
        Ret pte s1 \<Rightarrow>
          if pte = 0 then Panic ''uvmcopy: pte should exist''
          else let e = load64 (mem s1) pte in
            if e AND PTE_V = 0 then Panic ''uvmcopy: page not present''
            else (case kalloc s1 of
              Ret p s2 \<Rightarrow>
                if p = 0 then thenM (uvmunmap new 0 (i div PGSIZE) True) (retM (- 1)) s2
                else (case mappages new i PGSIZE p (PTE_FLAGS e)
                             (s2\<lparr>mem := memmove (mem s2) p (PTE2PA e) 4096\<rparr>) of
                  Ret r s3 \<Rightarrow>
                    if r \<noteq> 0
                    then thenM (kfree p) (thenM (uvmunmap new 0 (i div PGSIZE) True) (retM (- 1))) s3
                    else uvmcopy_loop old new sz (i + PGSIZE) s3
                | Panic m \<Rightarrow> Panic m
                | Block c s3 \<Rightarrow> Block c s3)
            | Panic m \<Rightarrow> Panic m
            | Block c s2 \<Rightarrow> Block c s2)
      | Panic m \<Rightarrow> Panic m
      | Block c s1 \<Rightarrow> Block c s1)
      else Ret 0 s)"
  by pat_completeness auto
termination
  by (relation "measure (\<lambda>(old, new, sz, i, s). 0x4000000000 - unat i)")
    (auto dest: walk_RetD next_page_below(2))

declare uvmcopy_loop.simps [simp del]

definition uvmcopy :: "u64 \<Rightarrow> u64 \<Rightarrow> u64 \<Rightarrow> ('a kmem_state_scheme, int) M" where
  "uvmcopy old new sz = uvmcopy_loop old new sz 0"

definition uvmclear :: "u64 \<Rightarrow> u64 \<Rightarrow> ('a kmem_state_scheme, unit) M" where
  "uvmclear pagetable va =
     bindM (walk pagetable va False) (\<lambda>pte.
       if pte = 0 then panicM ''uvmclear''
       else modM (\<lambda>s. s\<lparr>mem := store64 (mem s) pte (load64 (mem s) pte AND NOT PTE_U)\<rparr>))"

text \<open>Bytes left in the page of \<open>va\<close>, and the size of the next piece of a copy.\<close>

definition piece :: "u64 \<Rightarrow> nat \<Rightarrow> nat" where
  "piece va len = min (unat (PGSIZE - (va - PGROUNDDOWN va))) len"

lemma offset_in_page: "unat (va - PGROUNDDOWN va) = unat va mod 4096"
proof -
  have "unat (PGROUNDDOWN va) = unat va div 4096 * 4096" by (simp add: unat_PGROUNDDOWN)
  moreover from this have "PGROUNDDOWN va \<le> va" by (simp add: word_le_nat_alt)
  ultimately show ?thesis by (simp add: unat_sub minus_div_mult_eq_mod)
qed

lemma piece_eq: "piece va len = min (4096 - unat va mod 4096) len"
proof -
  have "va - PGROUNDDOWN va \<le> PGSIZE" by (simp add: word_le_nat_alt offset_in_page less_imp_le)
  then have "unat (PGSIZE - (va - PGROUNDDOWN va)) = 4096 - unat va mod 4096"
    by (simp add: unat_sub offset_in_page)
  then show ?thesis by (simp add: piece_def)
qed

lemma piece_pos: "0 < len \<Longrightarrow> 0 < piece va len"
  by (simp add: piece_eq)

function copyout :: "u64 \<Rightarrow> u64 \<Rightarrow> u8 list \<Rightarrow> ('a kmem_state_scheme, int) M" where
  "copyout pagetable dstva src s =
     (if length src > 0
      then let va0 = PGROUNDDOWN dstva in
        if va0 \<ge> MAXVA then Ret (- 1) s
        else (case walk pagetable va0 False s of
          Ret pte s1 \<Rightarrow>
            let e = load64 (mem s1) pte in
            if pte = 0 \<or> e AND PTE_V = 0 \<or> e AND PTE_U = 0 \<or> e AND PTE_W = 0 then Ret (- 1) s1
            else let n = piece dstva (length src) in
              copyout pagetable (va0 + PGSIZE) (drop n src)
                (s1\<lparr>mem := store_bytes (mem s1) (PTE2PA e + (dstva - va0)) (take n src)\<rparr>)
        | Panic m \<Rightarrow> Panic m
        | Block c s1 \<Rightarrow> Block c s1)
      else Ret 0 s)"
  by pat_completeness auto
termination
  by (relation "measure (\<lambda>(pagetable, dstva, src, s). length src)") (auto simp: piece_pos)

declare copyout.simps [simp del]

text \<open>\<open>copyin\<close> and \<open>copyinstr\<close> return the C result and the bytes they wrote to \<open>dst\<close>.\<close>

function copyin :: "u64 \<Rightarrow> u64 \<Rightarrow> nat \<Rightarrow> ('a kmem_state_scheme, int \<times> u8 list) M" where
  "copyin pagetable srcva len s =
     (if len > 0
      then let va0 = PGROUNDDOWN srcva in
        (case walkaddr pagetable va0 s of
          Ret pa0 s1 \<Rightarrow>
            if pa0 = 0 then Ret (- 1, []) s1
            else let n = piece srcva len; bs = load_bytes (mem s1) (pa0 + (srcva - va0)) n in
              (case copyin pagetable (va0 + PGSIZE) (len - n) s1 of
                 Ret (r, rest) s2 \<Rightarrow> Ret (r, bs @ rest) s2
               | Panic m \<Rightarrow> Panic m
               | Block c s2 \<Rightarrow> Block c s2)
        | Panic m \<Rightarrow> Panic m
        | Block c s1 \<Rightarrow> Block c s1)
      else Ret (0, []) s)"
  by pat_completeness auto
termination
  by (relation "measure (\<lambda>(pagetable, srcva, len, s). len)") (auto simp: piece_pos)

declare copyin.simps [simp del]

text \<open>The inner loop of \<open>copyinstr\<close>: the bytes written and whether the nul was found.\<close>

fun copy_until_nul :: "u8 list \<Rightarrow> u8 list \<times> bool" where
  "copy_until_nul [] = ([], False)"
| "copy_until_nul (c # cs) =
     (if c = 0 then ([0], True) else case copy_until_nul cs of (bs, z) \<Rightarrow> (c # bs, z))"

function copyinstr :: "u64 \<Rightarrow> u64 \<Rightarrow> nat \<Rightarrow> ('a kmem_state_scheme, int \<times> u8 list) M" where
  "copyinstr pagetable srcva mx s =
     (if mx > 0
      then let va0 = PGROUNDDOWN srcva in
        (case walkaddr pagetable va0 s of
          Ret pa0 s1 \<Rightarrow>
            if pa0 = 0 then Ret (- 1, []) s1
            else let n = piece srcva mx;
                     (bs, got_null) = copy_until_nul (load_bytes (mem s1) (pa0 + (srcva - va0)) n) in
              if got_null then Ret (0, bs) s1
              else (case copyinstr pagetable (va0 + PGSIZE) (mx - n) s1 of
                 Ret (r, rest) s2 \<Rightarrow> Ret (r, bs @ rest) s2
               | Panic m \<Rightarrow> Panic m
               | Block c s2 \<Rightarrow> Block c s2)
        | Panic m \<Rightarrow> Panic m
        | Block c s1 \<Rightarrow> Block c s1)
      else Ret (- 1, []) s)"
  by pat_completeness auto
termination
  by (relation "measure (\<lambda>(pagetable, srcva, mx, s). mx)") (auto simp: piece_pos)

declare copyinstr.simps [simp del]

end
