(* ===== verification/Proc_State.thy ===== *)
theory Proc_State
  imports Vm
begin

text \<open>
  The process table of \<^verbatim>\<open>kernel/proc.h\<close> as the components below the scheduler see it, the
  sleep/wakeup interface they call, and the sleep locks of \<^verbatim>\<open>kernel/sleeplock.c\<close>. The
  operations of \<^verbatim>\<open>kernel/proc.c\<close> that create, run and end processes come later, in theory
  \<open>Proc\<close>, because they call the file system.
\<close>

section \<open>Process table\<close>

datatype procstate = UNUSED | USED | SLEEPING | RUNNABLE | RUNNING | ZOMBIE

record kcontext =
  c_ra :: u64
  c_sp :: u64
  c_s :: "nat \<Rightarrow> u64"            \<comment> \<open>\<open>s0\<close> to \<open>s11\<close>\<close>

record proc =
  p_state :: procstate
  p_chan :: chan
  p_killed :: int
  p_xstate :: int
  p_pid :: int
  p_parent :: "nat option"        \<comment> \<open>index of the parent in the table\<close>
  p_kstack :: u64
  p_sz :: u64
  p_pagetable :: u64
  p_trapframe :: u64              \<comment> \<open>physical address of the trapframe page, 0 if none\<close>
  p_context :: kcontext
  p_ofile :: "nat \<Rightarrow> nat option"  \<comment> \<open>open files, as indices of the file table\<close>
  p_cwd :: "nat option"           \<comment> \<open>index of the inode table\<close>
  p_name :: "u8 list"

text \<open>
  \<open>procs\<close> is the table \<open>proc[NPROC]\<close>, \<open>cur\<close> the process running on this CPU
  (\<open>myproc()\<close>), \<open>nextpid\<close>, \<open>initproc\<close> and \<open>ticks\<close> the global variables of these names.
\<close>

record proc_state = vm_state +
  procs :: "nat \<Rightarrow> proc"
  cur :: nat
  nextpid :: int
  initproc :: nat
  ticks :: u32

definition myproc :: "'a proc_state_scheme \<Rightarrow> proc" where
  "myproc s = procs s (cur s)"

definition upd_proc :: "nat \<Rightarrow> (proc \<Rightarrow> proc) \<Rightarrow> 'a proc_state_scheme \<Rightarrow> 'a proc_state_scheme" where
  "upd_proc i f s = s\<lparr>procs := (procs s)(i := f (procs s i))\<rparr>"

definition wakeup :: "chan \<Rightarrow> 'a proc_state_scheme \<Rightarrow> 'a proc_state_scheme" where
  "wakeup c s = s\<lparr>procs := (\<lambda>i. let p = procs s i in
     if i < NPROC \<and> i \<noteq> cur s \<and> p_state p = SLEEPING \<and> p_chan p = c
     then p\<lparr>p_state := RUNNABLE\<rparr> else p)\<rparr>"

lemma wakeup_fields [simp]:
  "cur (wakeup c s) = cur s" "mem (wakeup c s) = mem s" "freelist (wakeup c s) = freelist s"
  "kend (wakeup c s) = kend s" "nextpid (wakeup c s) = nextpid s" "ticks (wakeup c s) = ticks s"
  "initproc (wakeup c s) = initproc s"
  by (simp_all add: wakeup_def)

lemma wakeup_proc [simp]:
  "p_pid (procs (wakeup c s) i) = p_pid (procs s i)"
  "p_killed (procs (wakeup c s) i) = p_killed (procs s i)"
  "p_pagetable (procs (wakeup c s) i) = p_pagetable (procs s i)"
  "p_sz (procs (wakeup c s) i) = p_sz (procs s i)"
  "p_parent (procs (wakeup c s) i) = p_parent (procs s i)"
  "p_ofile (procs (wakeup c s) i) = p_ofile (procs s i)"
  "p_cwd (procs (wakeup c s) i) = p_cwd (procs s i)"
  "p_xstate (procs (wakeup c s) i) = p_xstate (procs s i)"
  by (simp_all add: wakeup_def Let_def)

lemma wakeup_cur [simp]: "procs (wakeup c s) (cur s) = procs s (cur s)"
  by (simp add: wakeup_def Let_def)

lemma wakeup_state:
  "p_state (procs (wakeup c s) i) =
     (if i < NPROC \<and> i \<noteq> cur s \<and> p_state (procs s i) = SLEEPING \<and> p_chan (procs s i) = c
      then RUNNABLE else p_state (procs s i))"
  by (simp add: wakeup_def Let_def)

section \<open>Sleep locks\<close>

record sleeplock =
  sl_locked :: bool
  sl_pid :: int

definition initsleeplock :: sleeplock where
  "initsleeplock = \<lparr>sl_locked = False, sl_pid = 0\<rparr>"

text \<open>
  A sleep lock is embedded in a buffer or an inode; \<open>get\<close> and \<open>put\<close> read and write it there
  and \<open>c\<close> is its address as a wait channel.
\<close>

definition acquiresleep ::
  "chan \<Rightarrow> ('a proc_state_scheme \<Rightarrow> sleeplock) \<Rightarrow>
   (sleeplock \<Rightarrow> 'a proc_state_scheme \<Rightarrow> 'a proc_state_scheme) \<Rightarrow> ('a proc_state_scheme, unit) M" where
  "acquiresleep c get put s =
     (if sl_locked (get s) then Block c s
      else Ret () (put \<lparr>sl_locked = True, sl_pid = p_pid (myproc s)\<rparr> s))"

definition releasesleep ::
  "chan \<Rightarrow> (sleeplock \<Rightarrow> 'a proc_state_scheme \<Rightarrow> 'a proc_state_scheme) \<Rightarrow>
   ('a proc_state_scheme, unit) M" where
  "releasesleep c put s = Ret () (wakeup c (put \<lparr>sl_locked = False, sl_pid = 0\<rparr> s))"

definition holdingsleep ::
  "('a proc_state_scheme \<Rightarrow> sleeplock) \<Rightarrow> 'a proc_state_scheme \<Rightarrow> bool" where
  "holdingsleep get s \<longleftrightarrow> sl_locked (get s) \<and> sl_pid (get s) = p_pid (myproc s)"

end
