(* ===== verification/Sched.thy ===== *)
theory Sched
  imports Proc_State
begin

text \<open>
  The scheduler (\<^verbatim>\<open>scheduler\<close>, \<^verbatim>\<open>sched\<close>, \<^verbatim>\<open>yield\<close>, \<^verbatim>\<open>sleep\<close>, \<^verbatim>\<open>wakeup\<close>,
  \<^verbatim>\<open>forkret\<close> of \<^verbatim>\<open>kernel/proc.c\<close>) on all CPUs at once, as a step relation. The other theories
  follow one process through the kernel and stop where it sleeps; here it is shown that switching
  between processes does what they rely on. A step is one statement of the C code: taking or
  releasing a lock, or an assignment to a field that a lock protects. Spin locks are atomic here,
  which theory \<open>Spinlock\<close> justifies.
\<close>

section \<open>Program points\<close>

text \<open>
  The points of \<open>scheduler()\<close>. \<open>Scan i f\<close>: at the top of the loop body for process \<open>i\<close>, \<open>f\<close>
  being the variable \<open>found\<close>; \<open>Locked\<close>: holds the lock of the process and tests its state;
  \<open>Marked\<close>: has set the state to \<open>RUNNING\<close>; \<open>About\<close>: has set \<open>c->proc\<close> and calls \<open>swtch\<close>;
  \<open>Switched p\<close>: the CPU runs on the kernel stack of process \<open>p\<close>; \<open>Back\<close>: \<open>swtch\<close> has returned;
  \<open>Unlock\<close>: about to release the lock; \<open>Wfi\<close>: waits for an interrupt.
\<close>

datatype sched_pc =
    Scan nat bool | Locked nat bool | Marked nat | About nat | Switched nat
  | Back nat | Unlock nat bool | Wfi

text \<open>The code that takes the lock of a process to change its state: \<open>kill\<close>, \<open>wait\<close> freeing a
  zombie, \<open>allocproc\<close>, and \<open>fork\<close> or \<open>userinit\<close> making a new process runnable.\<close>

datatype lock_op = Kill | Reap | Alloc | Ready

text \<open>
  The points of the kernel code of a process. \<open>Run\<close> is any code without spin locks, \<open>Lk c\<close> code
  holding the lock of the condition waited for on channel \<open>c\<close>. \<open>Slp1\<close> to \<open>Slp7\<close> are the points
  of \<open>sleep\<close>, \<open>Yld1\<close> to \<open>Yld3\<close> of \<open>yield\<close>, \<open>Ex1\<close> and \<open>Ex2\<close> the end of \<open>exit\<close>, \<open>Gone\<close> that
  of a process that has exited. While a process is off the CPU its point is where \<open>swtch\<close> will
  return to.
\<close>

datatype kernel_pc =
    Run | Lk chan
  | Slp1 chan | Slp2 chan | Slp3 chan | Slp4 chan | Slp5 chan | Slp6 chan | Slp7 chan
  | Yld1 | Yld2 | Yld3
  | Ex1 | Ex2 | Gone
  | Forkret
  | Op lock_op nat | Op_done nat

text \<open>The points of \<open>wakeup(c)\<close>, called with the lock of the condition by a process or an interrupt
  handler on top of what the CPU was doing; \<open>i\<close> is the process the loop has got to.\<close>

datatype wake_pc = No_wake | Wake chan nat | Wake1 chan nat | Wake2 chan nat

text \<open>
  \<open>pown\<close> and \<open>lown\<close> say which CPU holds the lock of a process and of a condition, \<open>depth\<close> is
  \<open>c->noff\<close>, \<open>cproc\<close> is \<open>c->proc\<close>.
\<close>

record sched_state =
  pst :: "nat \<Rightarrow> procstate"
  pch :: "nat \<Rightarrow> chan"
  pown :: "nat \<Rightarrow> nat option"
  kat :: "nat \<Rightarrow> kernel_pc"
  cproc :: "nat \<Rightarrow> nat option"
  sat :: "nat \<Rightarrow> sched_pc"
  wat :: "nat \<Rightarrow> wake_pc"
  depth :: "nat \<Rightarrow> int"
  lown :: "chan \<Rightarrow> nat option"
  cond :: "chan \<Rightarrow> bool"
  panicked_at :: "string option"

section \<open>Steps\<close>

definition lock_proc :: "nat \<Rightarrow> nat \<Rightarrow> sched_state \<Rightarrow> sched_state" where
  "lock_proc h i s = s\<lparr>pown := (pown s)(i := Some h), depth := (depth s)(h := depth s h + 1)\<rparr>"

definition unlock_proc :: "nat \<Rightarrow> nat \<Rightarrow> sched_state \<Rightarrow> sched_state" where
  "unlock_proc h i s = s\<lparr>pown := (pown s)(i := None), depth := (depth s)(h := depth s h - 1)\<rparr>"

definition lock_cond :: "nat \<Rightarrow> chan \<Rightarrow> sched_state \<Rightarrow> sched_state" where
  "lock_cond h c s = s\<lparr>lown := (lown s)(c := Some h), depth := (depth s)(h := depth s h + 1)\<rparr>"

definition unlock_cond :: "nat \<Rightarrow> chan \<Rightarrow> sched_state \<Rightarrow> sched_state" where
  "unlock_cond h c s = s\<lparr>lown := (lown s)(c := None), depth := (depth s)(h := depth s h - 1)\<rparr>"

definition set_state :: "nat \<Rightarrow> procstate \<Rightarrow> sched_state \<Rightarrow> sched_state" where
  "set_state p x s = s\<lparr>pst := (pst s)(p := x)\<rparr>"

definition to_sched :: "nat \<Rightarrow> sched_pc \<Rightarrow> sched_state \<Rightarrow> sched_state" where
  "to_sched h x s = s\<lparr>sat := (sat s)(h := x)\<rparr>"

definition to_kernel :: "nat \<Rightarrow> kernel_pc \<Rightarrow> sched_state \<Rightarrow> sched_state" where
  "to_kernel p x s = s\<lparr>kat := (kat s)(p := x)\<rparr>"

definition to_wake :: "nat \<Rightarrow> wake_pc \<Rightarrow> sched_state \<Rightarrow> sched_state" where
  "to_wake h x s = s\<lparr>wat := (wat s)(h := x)\<rparr>"

lemmas sched_upd = lock_proc_def unlock_proc_def lock_cond_def unlock_cond_def set_state_def
  to_sched_def to_kernel_def to_wake_def

text \<open>
  \<open>sched()\<close>, called by process \<open>p\<close> on CPU \<open>h\<close>: the checks, and then \<open>swtch\<close> into the
  scheduler's context, which returns after the scheduler's own \<open>swtch\<close>. Interrupts are off as long
  as \<open>depth\<close> is not zero, so the last check of the C code repeats the second.
\<close>

definition sched :: "nat \<Rightarrow> nat \<Rightarrow> kernel_pc \<Rightarrow> sched_state \<Rightarrow> sched_state" where
  "sched h p resume s =
     (if pown s p \<noteq> Some h then s\<lparr>panicked_at := Some ''sched p->lock''\<rparr>
      else if depth s h \<noteq> 1 then s\<lparr>panicked_at := Some ''sched locks''\<rparr>
      else if pst s p = RUNNING then s\<lparr>panicked_at := Some ''sched running''\<rparr>
      else to_sched h (Back p) (to_kernel p resume s))"

definition lock_op_effect :: "lock_op \<Rightarrow> nat \<Rightarrow> sched_state \<Rightarrow> sched_state" where
  "lock_op_effect op i s = (case op of
     Kill \<Rightarrow> if pst s i = SLEEPING then set_state i RUNNABLE s else s
   | Reap \<Rightarrow> if pst s i = ZOMBIE then set_state i UNUSED s else s
   | Alloc \<Rightarrow> if pst s i = UNUSED then to_kernel i Forkret (set_state i USED s) else s
   | Ready \<Rightarrow> if pst s i = USED then set_state i RUNNABLE s else s)"

text \<open>CPU \<open>h\<close> executes code of process \<open>p\<close> and is not in an interrupt handler that wakes up.\<close>

definition runs :: "sched_state \<Rightarrow> nat \<Rightarrow> nat \<Rightarrow> kernel_pc \<Rightarrow> bool" where
  "runs s h p k \<longleftrightarrow> sat s h = Switched p \<and> wat s h = No_wake \<and> kat s p = k"

text \<open>Where interrupts are on: no spin lock is held.\<close>

definition interruptible :: "sched_state \<Rightarrow> nat \<Rightarrow> bool" where
  "interruptible s h \<longleftrightarrow> wat s h = No_wake \<and>
     (case sat s h of Scan _ _ \<Rightarrow> True | Wfi \<Rightarrow> True | Switched p \<Rightarrow> kat s p = Run | _ \<Rightarrow> False)"

inductive sched_step :: "nat \<Rightarrow> sched_state \<Rightarrow> sched_state \<Rightarrow> bool" for h where
  scheduler_lock: "sat s h = Scan i f \<Longrightarrow> wat s h = No_wake \<Longrightarrow> i < NPROC \<Longrightarrow> pown s i = None \<Longrightarrow>
    sched_step h s (to_sched h (Locked i f) (lock_proc h i s))"
| scheduler_end: "sat s h = Scan i f \<Longrightarrow> wat s h = No_wake \<Longrightarrow> \<not> i < NPROC \<Longrightarrow>
    sched_step h s (to_sched h (if f then Scan 0 False else Wfi) s)"
| scheduler_wfi: "sat s h = Wfi \<Longrightarrow> wat s h = No_wake \<Longrightarrow> sched_step h s (to_sched h (Scan 0 False) s)"
| scheduler_pick: "sat s h = Locked i f \<Longrightarrow> pst s i = RUNNABLE \<Longrightarrow>
    sched_step h s (to_sched h (Marked i) (set_state i RUNNING s))"
| scheduler_skip: "sat s h = Locked i f \<Longrightarrow> pst s i \<noteq> RUNNABLE \<Longrightarrow> sched_step h s (to_sched h (Unlock i f) s)"
| scheduler_proc: "sat s h = Marked i \<Longrightarrow>
    sched_step h s (to_sched h (About i) (s\<lparr>cproc := (cproc s)(h := Some i)\<rparr>))"
| scheduler_swtch: "sat s h = About i \<Longrightarrow> sched_step h s (to_sched h (Switched i) s)"
| scheduler_back: "sat s h = Back i \<Longrightarrow>
    sched_step h s (to_sched h (Unlock i True) (s\<lparr>cproc := (cproc s)(h := None)\<rparr>))"
| scheduler_unlock: "sat s h = Unlock i f \<Longrightarrow>
    sched_step h s (to_sched h (Scan (Suc i) f) (unlock_proc h i s))"
| forkret: "runs s h p Forkret \<Longrightarrow> sched_step h s (to_kernel p Run (unlock_proc h p s))"
| yield_lock: "runs s h p Run \<Longrightarrow> pown s p = None \<Longrightarrow> sched_step h s (to_kernel p Yld1 (lock_proc h p s))"
| yield_state: "runs s h p Yld1 \<Longrightarrow> sched_step h s (to_kernel p Yld2 (set_state p RUNNABLE s))"
| yield_sched: "runs s h p Yld2 \<Longrightarrow> sched_step h s (sched h p Yld3 s)"
| yield_unlock: "runs s h p Yld3 \<Longrightarrow> sched_step h s (to_kernel p Run (unlock_proc h p s))"
| cond_lock: "runs s h p Run \<Longrightarrow> lown s c = None \<Longrightarrow> sched_step h s (to_kernel p (Lk c) (lock_cond h c s))"
| cond_unlock: "runs s h p (Lk c) \<Longrightarrow> sched_step h s (to_kernel p Run (unlock_cond h c s))"
| cond_use: "runs s h p (Lk c) \<Longrightarrow> cond s c \<Longrightarrow> sched_step h s (s\<lparr>cond := (cond s)(c := False)\<rparr>)"
| sleep_lock: "runs s h p (Lk c) \<Longrightarrow> \<not> cond s c \<Longrightarrow> pown s p = None \<Longrightarrow>
    sched_step h s (to_kernel p (Slp1 c) (lock_proc h p s))"
| sleep_unlock: "runs s h p (Slp1 c) \<Longrightarrow> sched_step h s (to_kernel p (Slp2 c) (unlock_cond h c s))"
| sleep_chan: "runs s h p (Slp2 c) \<Longrightarrow> sched_step h s (to_kernel p (Slp3 c) (s\<lparr>pch := (pch s)(p := c)\<rparr>))"
| sleep_state: "runs s h p (Slp3 c) \<Longrightarrow> sched_step h s (to_kernel p (Slp4 c) (set_state p SLEEPING s))"
| sleep_sched: "runs s h p (Slp4 c) \<Longrightarrow> sched_step h s (sched h p (Slp5 c) s)"
| sleep_clear: "runs s h p (Slp5 c) \<Longrightarrow>
    sched_step h s (to_kernel p (Slp6 c) (s\<lparr>pch := (pch s)(p := Chan_none)\<rparr>))"
| sleep_release: "runs s h p (Slp6 c) \<Longrightarrow> sched_step h s (to_kernel p (Slp7 c) (unlock_proc h p s))"
| sleep_relock: "runs s h p (Slp7 c) \<Longrightarrow> lown s c = None \<Longrightarrow> sched_step h s (to_kernel p (Lk c) (lock_cond h c s))"
| exit_lock: "runs s h p Run \<Longrightarrow> pown s p = None \<Longrightarrow> sched_step h s (to_kernel p Ex1 (lock_proc h p s))"
| exit_state: "runs s h p Ex1 \<Longrightarrow> sched_step h s (to_kernel p Ex2 (set_state p ZOMBIE s))"
| exit_sched: "runs s h p Ex2 \<Longrightarrow> sched_step h s (sched h p Gone s)"
| op_lock: "runs s h p Run \<Longrightarrow> i < NPROC \<Longrightarrow> pown s i = None \<Longrightarrow>
    sched_step h s (to_kernel p (Op op i) (lock_proc h i s))"
| op_effect: "runs s h p (Op op i) \<Longrightarrow> sched_step h s (to_kernel p (Op_done i) (lock_op_effect op i s))"
| op_unlock: "runs s h p (Op_done i) \<Longrightarrow> sched_step h s (to_kernel p Run (unlock_proc h i s))"
| wakeup_begin: "interruptible s h \<Longrightarrow> lown s c = None \<Longrightarrow>
    sched_step h s (to_wake h (Wake c 0) (lock_cond h c (s\<lparr>cond := (cond s)(c := True)\<rparr>)))"
| wakeup_self: "wat s h = Wake c i \<Longrightarrow> i < NPROC \<Longrightarrow> cproc s h = Some i \<Longrightarrow>
    sched_step h s (to_wake h (Wake c (Suc i)) s)"
| wakeup_lock: "wat s h = Wake c i \<Longrightarrow> i < NPROC \<Longrightarrow> cproc s h \<noteq> Some i \<Longrightarrow> pown s i = None \<Longrightarrow>
    sched_step h s (to_wake h (Wake1 c i) (lock_proc h i s))"
| wakeup_state: "wat s h = Wake1 c i \<Longrightarrow>
    sched_step h s (to_wake h (Wake2 c i)
      (if pst s i = SLEEPING \<and> pch s i = c then set_state i RUNNABLE s else s))"
| wakeup_unlock: "wat s h = Wake2 c i \<Longrightarrow> sched_step h s (to_wake h (Wake c (Suc i)) (unlock_proc h i s))"
| wakeup_end: "wat s h = Wake c i \<Longrightarrow> \<not> i < NPROC \<Longrightarrow> sched_step h s (to_wake h No_wake (unlock_cond h c s))"

text \<open>
  Boot: no process but \<open>initproc\<close>, which \<open>userinit\<close> has made runnable, every CPU entering
  \<open>scheduler()\<close>.
\<close>

definition sched_boot :: "sched_state \<Rightarrow> bool" where
  "sched_boot s \<longleftrightarrow> pst s 0 = RUNNABLE \<and> kat s 0 = Forkret \<and> (\<forall>i>0. pst s i = UNUSED) \<and>
     (\<forall>i. pown s i = None) \<and> (\<forall>c. lown s c = None) \<and> panicked_at s = None \<and>
     (\<forall>h. cproc s h = None \<and> sat s h = Scan 0 False \<and> wat s h = No_wake \<and> depth s h = 0)"

inductive sched_reach :: "sched_state \<Rightarrow> bool" where
  boot: "sched_boot s \<Longrightarrow> sched_reach s"
| step: "sched_reach s \<Longrightarrow> sched_step h s s' \<Longrightarrow> sched_reach s'"

section \<open>Invariant\<close>

text \<open>The process lock and the condition lock that a CPU holds, read off its program points.\<close>

fun sched_lock :: "sched_pc \<Rightarrow> nat option" where
  "sched_lock (Locked i _) = Some i" | "sched_lock (Marked i) = Some i" | "sched_lock (About i) = Some i"
| "sched_lock (Back i) = Some i" | "sched_lock (Unlock i _) = Some i" | "sched_lock _ = None"

fun kernel_lock :: "nat \<Rightarrow> kernel_pc \<Rightarrow> nat option" where
  "kernel_lock p Run = None" | "kernel_lock p (Lk _) = None" | "kernel_lock p (Slp7 _) = None"
| "kernel_lock p Gone = None" | "kernel_lock p (Op _ i) = Some i" | "kernel_lock p (Op_done i) = Some i"
| "kernel_lock p _ = Some p"

fun wake_lock :: "wake_pc \<Rightarrow> nat option" where
  "wake_lock (Wake1 _ i) = Some i" | "wake_lock (Wake2 _ i) = Some i" | "wake_lock _ = None"

definition proc_lock_of :: "sched_state \<Rightarrow> nat \<Rightarrow> nat option" where
  "proc_lock_of s h =
     (if wat s h = No_wake then (case sat s h of Switched p \<Rightarrow> kernel_lock p (kat s p) | x \<Rightarrow> sched_lock x)
      else wake_lock (wat s h))"

fun kernel_cond :: "kernel_pc \<Rightarrow> chan option" where
  "kernel_cond (Lk c) = Some c" | "kernel_cond (Slp1 c) = Some c" | "kernel_cond _ = None"

fun wake_cond :: "wake_pc \<Rightarrow> chan option" where
  "wake_cond No_wake = None" | "wake_cond (Wake c _) = Some c" | "wake_cond (Wake1 c _) = Some c"
| "wake_cond (Wake2 c _) = Some c"

definition cond_lock_of :: "sched_state \<Rightarrow> nat \<Rightarrow> chan option" where
  "cond_lock_of s h =
     (if wat s h = No_wake then (case sat s h of Switched p \<Rightarrow> kernel_cond (kat s p) | _ \<Rightarrow> None)
      else wake_cond (wat s h))"

text \<open>The process a CPU has taken from the table.\<close>

fun taken :: "sched_pc \<Rightarrow> nat option" where
  "taken (Marked i) = Some i" | "taken (About i) = Some i" | "taken (Switched i) = Some i" | "taken _ = None"

text \<open>Where \<open>swtch\<close> may return to in a process, and the state of a running process at each point.\<close>

fun resumable :: "kernel_pc \<Rightarrow> bool" where
  "resumable (Slp5 _) = True" | "resumable Yld3 = True" | "resumable Forkret = True" | "resumable _ = False"

fun state_at :: "kernel_pc \<Rightarrow> procstate" where
  "state_at (Slp4 _) = SLEEPING" | "state_at Yld2 = RUNNABLE" | "state_at Ex2 = ZOMBIE" | "state_at _ = RUNNING"

definition hart_ok :: "sched_state \<Rightarrow> nat \<Rightarrow> bool" where
  "hart_ok s h \<longleftrightarrow>
     depth s h = of_bool (proc_lock_of s h \<noteq> None) + of_bool (cond_lock_of s h \<noteq> None) \<and>
     (wat s h \<noteq> No_wake \<longrightarrow> (case sat s h of Scan _ _ \<Rightarrow> True | Wfi \<Rightarrow> True | Switched p \<Rightarrow> kat s p = Run | _ \<Rightarrow> False)) \<and>
     cproc s h = (case sat s h of About i \<Rightarrow> Some i | Switched i \<Rightarrow> Some i | Back i \<Rightarrow> Some i | _ \<Rightarrow> None)"

definition running_ok :: "sched_state \<Rightarrow> nat \<Rightarrow> nat \<Rightarrow> bool" where
  "running_ok s h p \<longleftrightarrow>
     (case sat s h of
        Switched _ \<Rightarrow> pst s p = state_at (kat s p) \<and> kat s p \<noteq> Gone \<and>
          (\<forall>c. kat s p = Slp3 c \<or> kat s p = Slp4 c \<longrightarrow> pch s p = c)
      | _ \<Rightarrow> pst s p = RUNNING \<and> resumable (kat s p))"

definition parked_ok :: "sched_state \<Rightarrow> nat \<Rightarrow> bool" where
  "parked_ok s p \<longleftrightarrow> pst s p \<noteq> RUNNING \<and>
     (pst s p \<in> {USED, RUNNABLE, SLEEPING} \<longrightarrow> resumable (kat s p)) \<and>
     (pst s p = SLEEPING \<longrightarrow> kat s p = Slp5 (pch s p))"

definition sched_inv :: "sched_state \<Rightarrow> bool" where
  "sched_inv s \<longleftrightarrow> (\<forall>h. hart_ok s h) \<and>
     (\<forall>h i. pown s i = Some h \<longleftrightarrow> proc_lock_of s h = Some i) \<and>
     (\<forall>h c. lown s c = Some h \<longleftrightarrow> cond_lock_of s h = Some c) \<and>
     (\<forall>h h' p. taken (sat s h) = Some p \<longrightarrow> taken (sat s h') = Some p \<longrightarrow> h = h') \<and>
     (\<forall>h p. taken (sat s h) = Some p \<longrightarrow> running_ok s h p) \<and>
     (\<forall>p. (\<forall>h. taken (sat s h) \<noteq> Some p) \<longrightarrow> parked_ok s p)"

lemma sched_invD:
  assumes "sched_inv s"
  shows "hart_ok s h" and "pown s i = Some h \<longleftrightarrow> proc_lock_of s h = Some i"
    and "lown s c = Some h \<longleftrightarrow> cond_lock_of s h = Some c"
    and "taken (sat s h) = Some p \<Longrightarrow> taken (sat s h') = Some p \<Longrightarrow> h = h'"
    and "taken (sat s h) = Some p \<Longrightarrow> running_ok s h p"
    and "(\<And>h. taken (sat s h) \<noteq> Some p) \<Longrightarrow> parked_ok s p"
  using assms unfolding sched_inv_def by blast+

lemma sched_inv_boot:
  assumes "sched_boot s"
  shows "sched_inv s"
proof -
  have "parked_ok s p" for p
    using assms by (cases "p = 0") (auto simp: sched_boot_def parked_ok_def)
  then show ?thesis
    using assms by (simp add: sched_boot_def sched_inv_def hart_ok_def proc_lock_of_def cond_lock_of_def)
qed

text \<open>
  While a CPU holds the lock of a process that another CPU has taken, that process is running and
  stays as it is.
\<close>

lemma foreign:
  assumes inv: "sched_inv s" and lock: "proc_lock_of s h = Some i" and tk: "taken (sat s k) = Some i" and "k \<noteq> h"
  shows "pst s i = RUNNING \<and> sat s k = Switched i"
proof -
  have nolock: "proc_lock_of s k \<noteq> Some i" using sched_invD(2) [OF inv] lock \<open>k \<noteq> h\<close> by (metis option.inject)
  have run: "running_ok s k i" by (rule sched_invD(5) [OF inv tk])
  have wk: "wat s k \<noteq> No_wake \<Longrightarrow> (case sat s k of Switched p \<Rightarrow> kat s p = Run | x \<Rightarrow> sched_lock x = None)"
    using sched_invD(1) [OF inv, of k] by (auto simp: hart_ok_def split: sched_pc.splits)
  show ?thesis
  proof (cases "sat s k")
    case (Switched p)
    then have "p = i" using tk by simp
    show ?thesis
    proof (cases "wat s k = No_wake")
      case True
      then show ?thesis using nolock run Switched \<open>p = i\<close>
        by (cases "kat s i") (auto simp: proc_lock_of_def running_ok_def)
    next
      case False
      then show ?thesis using wk run Switched \<open>p = i\<close> by (auto simp: running_ok_def)
    qed
  qed (use tk nolock wk in \<open>auto simp: proc_lock_of_def split: if_splits\<close>)
qed

text \<open>What a step of CPU \<open>h\<close> has to keep.\<close>

lemma sched_inv_update:
  assumes inv: "sched_inv s"
    and other: "\<And>k. k \<noteq> h \<Longrightarrow> sat s' k = sat s k \<and> wat s' k = wat s k \<and> cproc s' k = cproc s k \<and> depth s' k = depth s k"
    and procs: "\<And>k p. k \<noteq> h \<Longrightarrow> taken (sat s k) = Some p \<Longrightarrow>
      kat s' p = kat s p \<and> pst s' p = pst s p \<and> pch s' p = pch s p"
    and powns: "\<And>i. pown s' i = (if proc_lock_of s' h = Some i then Some h
      else if proc_lock_of s h = Some i then None else pown s i)"
    and acquired: "\<And>i. proc_lock_of s' h = Some i \<Longrightarrow> proc_lock_of s h \<noteq> Some i \<Longrightarrow> pown s i = None"
    and lowns: "\<And>c. lown s' c = (if cond_lock_of s' h = Some c then Some h
      else if cond_lock_of s h = Some c then None else lown s c)"
    and acquired_cond: "\<And>c. cond_lock_of s' h = Some c \<Longrightarrow> cond_lock_of s h \<noteq> Some c \<Longrightarrow> lown s c = None"
    and hart: "hart_ok s' h"
    and took: "\<And>p k. taken (sat s' h) = Some p \<Longrightarrow> taken (sat s k) = Some p \<Longrightarrow> k = h"
    and run: "\<And>p. taken (sat s' h) = Some p \<Longrightarrow> running_ok s' h p"
    and park: "\<And>p. taken (sat s' h) \<noteq> Some p \<Longrightarrow> (\<And>k. k \<noteq> h \<Longrightarrow> taken (sat s k) \<noteq> Some p) \<Longrightarrow>
      (taken (sat s h) \<noteq> Some p \<Longrightarrow> parked_ok s p) \<Longrightarrow> parked_ok s' p"
  shows "sched_inv s'"
proof -
  have plo: "proc_lock_of s' k = proc_lock_of s k" if "k \<noteq> h" for k
    using other [OF that] procs [OF that] by (auto simp: proc_lock_of_def split: sched_pc.splits)
  have clo: "cond_lock_of s' k = cond_lock_of s k" if "k \<noteq> h" for k
    using other [OF that] procs [OF that] by (auto simp: cond_lock_of_def split: sched_pc.splits)
  have hk: "hart_ok s' k" for k
  proof (cases "k = h")
    case False
    then show ?thesis using sched_invD(1) [OF inv, of k] other [OF False] procs [OF False] plo clo
      by (auto simp: hart_ok_def split: sched_pc.splits)
  qed (use hart in simp)
  have p: "pown s' i = Some k \<longleftrightarrow> proc_lock_of s' k = Some i" for k i
    using powns [of i] acquired [of i] plo [of k] sched_invD(2) [OF inv, of i k] sched_invD(2) [OF inv, of i h]
    by (cases "k = h") auto
  have c: "lown s' i = Some k \<longleftrightarrow> cond_lock_of s' k = Some i" for k i
    using lowns [of i] acquired_cond [of i] clo [of k] sched_invD(3) [OF inv, of i k] sched_invD(3) [OF inv, of i h]
    by (cases "k = h") auto
  have t: "k = k'" if "taken (sat s' k) = Some q" "taken (sat s' k') = Some q" for k k' q
    using that took [of q] sched_invD(4) [OF inv, of k q k'] other by (metis)
  have r: "running_ok s' k q" if "taken (sat s' k) = Some q" for k q
  proof (cases "k = h")
    case False
    then show ?thesis using that other [OF False] procs [OF False, of q] sched_invD(5) [OF inv, of k q]
      by (auto simp: running_ok_def split: sched_pc.splits)
  qed (use that run in simp)
  have "parked_ok s' q" if "\<And>k. taken (sat s' k) \<noteq> Some q" for q
  proof (rule park)
    show k: "taken (sat s k) \<noteq> Some q" if "k \<noteq> h" for k using other [OF that] \<open>\<And>k. taken (sat s' k) \<noteq> Some q\<close> [of k] by simp
    show "parked_ok s q" if "taken (sat s h) \<noteq> Some q" using sched_invD(6) [OF inv, of q] k that by metis
  qed (rule that)
  then show ?thesis unfolding sched_inv_def using hk p c t r by blast
qed

text \<open>What the invariant says of a CPU that executes code of a process.\<close>

lemma runs_facts:
  assumes "sched_inv s" and "runs s h p k"
  shows "sat s h = Switched p" and "wat s h = No_wake" and "kat s p = k" and "cproc s h = Some p"
    and "depth s h = of_bool (kernel_lock p k \<noteq> None) + of_bool (kernel_cond k \<noteq> None)"
    and "pst s p = state_at k" and "k \<noteq> Gone" and "k = Slp3 c \<or> k = Slp4 c \<Longrightarrow> pch s p = c"
    and "kernel_lock p k = Some i \<Longrightarrow> pown s i = Some h"
    and "kernel_cond k = Some c \<Longrightarrow> lown s c = Some h"
    and "pown s i = Some h \<Longrightarrow> kernel_lock p k = Some i"
proof -
  show *: "sat s h = Switched p" "wat s h = No_wake" "kat s p = k" using assms(2) by (simp_all add: runs_def)
  have l: "proc_lock_of s h = kernel_lock p k" "cond_lock_of s h = kernel_cond k"
    using * by (simp_all add: proc_lock_of_def cond_lock_of_def)
  show "cproc s h = Some p" "depth s h = of_bool (kernel_lock p k \<noteq> None) + of_bool (kernel_cond k \<noteq> None)"
    using sched_invD(1) [OF assms(1), of h] l * by (simp_all add: hart_ok_def)
  have "running_ok s h p" using sched_invD(5) [OF assms(1), of h p] * by simp
  then show "pst s p = state_at k" "k \<noteq> Gone" "k = Slp3 c \<or> k = Slp4 c \<Longrightarrow> pch s p = c"
    using * by (auto simp: running_ok_def)
  show "kernel_lock p k = Some i \<Longrightarrow> pown s i = Some h" "kernel_cond k = Some c \<Longrightarrow> lown s c = Some h"
    "pown s i = Some h \<Longrightarrow> kernel_lock p k = Some i"
    using sched_invD(2,3) [OF assms(1)] l by auto
qed

text \<open>A step of a process that stays on its CPU.\<close>

lemma kernel_step_inv:
  assumes inv: "sched_inv s" and run: "runs s h p k"
    and same: "sat s' = sat s" "wat s' = wat s" "cproc s' = cproc s"
    and kat: "kat s' p = k'"
    and procs: "\<And>q. q \<noteq> p \<Longrightarrow> kat s' q = kat s q \<and> pst s' q = pst s q \<and> pch s' q = pch s q \<or>
      (\<forall>j. taken (sat s j) \<noteq> Some q) \<and> parked_ok s' q"
    and depth: "depth s' = (depth s)(h := of_bool (kernel_lock p k' \<noteq> None) + of_bool (kernel_cond k' \<noteq> None))"
    and powns: "\<And>i. pown s' i = (if kernel_lock p k' = Some i then Some h
      else if kernel_lock p k = Some i then None else pown s i)"
    and acquired: "\<And>i. kernel_lock p k' = Some i \<Longrightarrow> kernel_lock p k \<noteq> Some i \<Longrightarrow> pown s i = None"
    and lowns: "\<And>c. lown s' c = (if kernel_cond k' = Some c then Some h
      else if kernel_cond k = Some c then None else lown s c)"
    and acquired_cond: "\<And>c. kernel_cond k' = Some c \<Longrightarrow> kernel_cond k \<noteq> Some c \<Longrightarrow> lown s c = None"
    and state: "pst s' p = state_at k'" "k' \<noteq> Gone" "\<And>c. k' = Slp3 c \<or> k' = Slp4 c \<Longrightarrow> pch s' p = c"
  shows "sched_inv s'"
proof (rule sched_inv_update [OF inv, of h])
  note R = runs_facts [OF inv run]
  have l: "proc_lock_of s h = kernel_lock p k" "cond_lock_of s h = kernel_cond k"
    "proc_lock_of s' h = kernel_lock p k'" "cond_lock_of s' h = kernel_cond k'"
    using R(1-3) same kat by (simp_all add: proc_lock_of_def cond_lock_of_def)
  have excl: "taken (sat s j) \<noteq> Some p" if "j \<noteq> h" for j
    using sched_invD(4) [OF inv, of j p h] R(1) that by auto
  show "sat s' j = sat s j \<and> wat s' j = wat s j \<and> cproc s' j = cproc s j \<and> depth s' j = depth s j" if "j \<noteq> h" for j
    using that same depth by simp
  show "kat s' q = kat s q \<and> pst s' q = pst s q \<and> pch s' q = pch s q" if "j \<noteq> h" "taken (sat s j) = Some q" for j q
    using that excl [OF that(1)] procs [of q] by auto
  show "hart_ok s' h" using R(1,2,4) same l depth by (simp add: hart_ok_def)
  show "j = h" if "taken (sat s' h) = Some q" "taken (sat s j) = Some q" for q j
    using that same sched_invD(4) [OF inv, of j q h] by simp
  show "running_ok s' h q" if "taken (sat s' h) = Some q" for q
    using that R(1) same kat state by (auto simp: running_ok_def)
  show "parked_ok s' q" if "taken (sat s' h) \<noteq> Some q" "taken (sat s h) \<noteq> Some q \<Longrightarrow> parked_ok s q" for q
    using that same R(1) procs [of q] by (auto simp: parked_ok_def)
qed (use powns lowns acquired acquired_cond run in \<open>auto simp: runs_def proc_lock_of_def cond_lock_of_def same kat\<close>)

text \<open>The call of \<open>sched()\<close>: none of its panics is reached.\<close>

lemma sched_call:
  assumes inv: "sched_inv s" and run: "runs s h p k"
    and k: "kernel_lock p k = Some p" "kernel_cond k = None" "state_at k \<noteq> RUNNING"
  shows "sched h p resume s = to_sched h (Back p) (to_kernel p resume s)"
proof -
  note R = runs_facts [OF inv run]
  have "pown s p = Some h" using R(9) k(1) by simp
  moreover have "depth s h = 1" using R(5) k(1,2) by simp
  moreover have "pst s p \<noteq> RUNNING" using R(6) k(3) by simp
  ultimately show ?thesis by (simp add: sched_def)
qed

lemma sched_call_inv:
  assumes inv: "sched_inv s" and run: "runs s h p k"
    and k: "kernel_lock p k = Some p" "kernel_cond k = None" "state_at k \<noteq> RUNNING"
    and resume: "state_at k \<in> {RUNNABLE, SLEEPING} \<Longrightarrow> resumable resume" "state_at k \<noteq> USED"
      "state_at k = SLEEPING \<Longrightarrow> resume = Slp5 (pch s p)"
  shows "sched_inv (sched h p resume s)"
proof -
  note R = runs_facts [OF inv run]
  have excl: "taken (sat s j) \<noteq> Some p" if "j \<noteq> h" for j
    using sched_invD(4) [OF inv, of j p h] R(1) that by auto
  have "sched_inv (to_sched h (Back p) (to_kernel p resume s))"
  proof (rule sched_inv_update [OF inv, of h])
    show "kat (to_sched h (Back p) (to_kernel p resume s)) q = kat s q \<and>
        pst (to_sched h (Back p) (to_kernel p resume s)) q = pst s q \<and>
        pch (to_sched h (Back p) (to_kernel p resume s)) q = pch s q"
      if "j \<noteq> h" "taken (sat s j) = Some q" for j q
      using that excl [of j] by (auto simp: sched_upd)
    show "parked_ok (to_sched h (Back p) (to_kernel p resume s)) q"
      if "taken (sat s h) \<noteq> Some q \<Longrightarrow> parked_ok s q" for q
      using that R(1,6) k(3) resume by (cases "q = p") (auto simp: sched_upd parked_ok_def)
  qed (use R(1-5,9) k in \<open>auto simp: sched_upd hart_ok_def proc_lock_of_def cond_lock_of_def\<close>)
  then show ?thesis using sched_call [OF inv run k] by simp
qed

text \<open>The steps of the scheduler.\<close>

lemma scheduler_facts:
  assumes "sched_inv s" and "sched_lock (sat s h) = Some i"
  shows "wat s h = No_wake" and "pown s i = Some h" and "depth s h = 1"
    and "taken (sat s k) = Some i \<Longrightarrow> k \<noteq> h \<Longrightarrow> pst s i = RUNNING \<and> sat s k = Switched i"
proof -
  have H: "hart_ok s h" by (rule sched_invD(1) [OF assms(1)])
  show W: "wat s h = No_wake" using H assms(2) by (cases "sat s h") (auto simp: hart_ok_def)
  have l: "proc_lock_of s h = Some i" "cond_lock_of s h = None"
    using W assms(2) by (cases "sat s h"; simp add: proc_lock_of_def cond_lock_of_def)+
  then show "pown s i = Some h" "depth s h = 1" using sched_invD(2) [OF assms(1)] H by (auto simp: hart_ok_def)
  show "taken (sat s k) = Some i \<Longrightarrow> k \<noteq> h \<Longrightarrow> pst s i = RUNNING \<and> sat s k = Switched i"
    using foreign [OF assms(1) l(1)] by blast
qed

lemmas sched_unfold = sched_upd hart_ok_def proc_lock_of_def cond_lock_of_def running_ok_def parked_ok_def

lemma resumable_facts:
  "resumable k \<Longrightarrow> kernel_lock p k = Some p \<and> kernel_cond k = None \<and> state_at k = RUNNING \<and> k \<noteq> Gone \<and>
     (\<forall>c. k \<noteq> Slp3 c \<and> k \<noteq> Slp4 c)"
  by (cases k) auto

lemma scheduler_step_inv:
  assumes "sched_step h s s'" and "sched_inv s" and "\<forall>p. sat s h \<noteq> Switched p" and "wat s' h = No_wake" "wat s h = No_wake"
  shows "sched_inv s'"
  using assms
proof (induction rule: sched_step.induct)
  case (scheduler_lock s i f)
  note H = sched_invD(1) [OF scheduler_lock.prems(1), of h]
  show ?case
    by (rule sched_inv_update [OF scheduler_lock.prems(1), of h])
      (use scheduler_lock.hyps H scheduler_lock.prems(3) in \<open>auto simp: sched_unfold split: if_splits\<close>)
next
  case (scheduler_end s i f)
  note H = sched_invD(1) [OF scheduler_end.prems(1), of h]
  show ?case
    by (rule sched_inv_update [OF scheduler_end.prems(1), of h])
      (use scheduler_end.hyps H scheduler_end.prems(3) in \<open>auto simp: sched_unfold split: if_splits\<close>)
next
  case (scheduler_wfi s)
  note H = sched_invD(1) [OF scheduler_wfi.prems(1), of h]
  show ?case
    by (rule sched_inv_update [OF scheduler_wfi.prems(1), of h])
      (use scheduler_wfi.hyps H scheduler_wfi.prems(3) in \<open>auto simp: sched_unfold split: if_splits\<close>)
next
  case (scheduler_pick s i f)
  note H = sched_invD(1) [OF scheduler_pick.prems(1), of h]
  have L: "sched_lock (sat s h) = Some i" using scheduler_pick.hyps by simp
  note F = scheduler_facts [OF scheduler_pick.prems(1) L]
  have "taken (sat s k) \<noteq> Some i" for k using F(4) [of k] scheduler_pick.hyps by (cases "k = h") auto
  then have P: "parked_ok s i" by (rule sched_invD(6) [OF scheduler_pick.prems(1)])
  show ?case
    by (rule sched_inv_update [OF scheduler_pick.prems(1), of h])
      (use scheduler_pick.hyps H F P in \<open>auto simp: sched_unfold split: if_splits\<close>)
next
  case (scheduler_skip s i f)
  note H = sched_invD(1) [OF scheduler_skip.prems(1), of h]
  have L: "sched_lock (sat s h) = Some i" using scheduler_skip.hyps by simp
  note F = scheduler_facts [OF scheduler_skip.prems(1) L]
  have P: "taken (sat s h) = Some i \<Longrightarrow> running_ok s h i" by (rule sched_invD(5) [OF scheduler_skip.prems(1)])
  have X: "taken (sat s h) = Some i \<Longrightarrow> taken (sat s k) = Some i \<Longrightarrow> k = h" for k by (rule sched_invD(4) [OF scheduler_skip.prems(1)])
  show ?case
    by (rule sched_inv_update [OF scheduler_skip.prems(1), of h])
      (use scheduler_skip.hyps H F P X in \<open>auto simp: sched_unfold split: if_splits\<close>)
next
  case (scheduler_proc s i)
  note H = sched_invD(1) [OF scheduler_proc.prems(1), of h]
  have L: "sched_lock (sat s h) = Some i" using scheduler_proc.hyps by simp
  note F = scheduler_facts [OF scheduler_proc.prems(1) L]
  have P: "taken (sat s h) = Some i \<Longrightarrow> running_ok s h i" by (rule sched_invD(5) [OF scheduler_proc.prems(1)])
  have X: "taken (sat s h) = Some i \<Longrightarrow> taken (sat s k) = Some i \<Longrightarrow> k = h" for k by (rule sched_invD(4) [OF scheduler_proc.prems(1)])
  show ?case
    by (rule sched_inv_update [OF scheduler_proc.prems(1), of h])
      (use scheduler_proc.hyps H F P X in \<open>auto simp: sched_unfold split: if_splits\<close>)
next
  case (scheduler_swtch s i)
  note H = sched_invD(1) [OF scheduler_swtch.prems(1), of h]
  have L: "sched_lock (sat s h) = Some i" using scheduler_swtch.hyps by simp
  note F = scheduler_facts [OF scheduler_swtch.prems(1) L]
  have P: "taken (sat s h) = Some i \<Longrightarrow> running_ok s h i" by (rule sched_invD(5) [OF scheduler_swtch.prems(1)])
  have X: "taken (sat s h) = Some i \<Longrightarrow> taken (sat s k) = Some i \<Longrightarrow> k = h" for k by (rule sched_invD(4) [OF scheduler_swtch.prems(1)])
  have Q: "resumable (kat s i)" using P scheduler_swtch.hyps by (simp add: running_ok_def)
  show ?case
    by (rule sched_inv_update [OF scheduler_swtch.prems(1), of h])
      (use scheduler_swtch.hyps H F P X resumable_facts [OF Q] in \<open>auto simp: sched_unfold split: if_splits\<close>)
next
  case (scheduler_back s i)
  note H = sched_invD(1) [OF scheduler_back.prems(1), of h]
  have L: "sched_lock (sat s h) = Some i" using scheduler_back.hyps by simp
  note F = scheduler_facts [OF scheduler_back.prems(1) L]
  have P: "taken (sat s h) = Some i \<Longrightarrow> running_ok s h i" by (rule sched_invD(5) [OF scheduler_back.prems(1)])
  have X: "taken (sat s h) = Some i \<Longrightarrow> taken (sat s k) = Some i \<Longrightarrow> k = h" for k by (rule sched_invD(4) [OF scheduler_back.prems(1)])
  show ?case
    by (rule sched_inv_update [OF scheduler_back.prems(1), of h])
      (use scheduler_back.hyps H F P X in \<open>auto simp: sched_unfold split: if_splits\<close>)
next
  case (scheduler_unlock s i f)
  note H = sched_invD(1) [OF scheduler_unlock.prems(1), of h]
  have L: "sched_lock (sat s h) = Some i" using scheduler_unlock.hyps by simp
  note F = scheduler_facts [OF scheduler_unlock.prems(1) L]
  have P: "taken (sat s h) = Some i \<Longrightarrow> running_ok s h i" by (rule sched_invD(5) [OF scheduler_unlock.prems(1)])
  have X: "taken (sat s h) = Some i \<Longrightarrow> taken (sat s k) = Some i \<Longrightarrow> k = h" for k by (rule sched_invD(4) [OF scheduler_unlock.prems(1)])
  show ?case
    by (rule sched_inv_update [OF scheduler_unlock.prems(1), of h])
      (use scheduler_unlock.hyps H F P X in \<open>auto simp: sched_unfold split: if_splits\<close>)
qed (auto simp: runs_def sched_upd)

text \<open>The steps of processes.\<close>

lemma process_step_inv:
  assumes "sched_step h s s'" and "sched_inv s" and "sat s h = Switched p'" and "wat s' h = No_wake" "wat s h = No_wake"
  shows "sched_inv s'"
  using assms
proof (induction rule: sched_step.induct)
  case (forkret s p)
  note R = runs_facts [OF forkret.prems(1) forkret.hyps(1)]
  show ?case
    by (rule kernel_step_inv [OF forkret.prems(1) forkret.hyps(1), where k' = "Run"])
      (use forkret.hyps R(1-7,9,10) in \<open>auto simp: sched_upd\<close>)
next
  case (yield_lock s p)
  note R = runs_facts [OF yield_lock.prems(1) yield_lock.hyps(1)]
  show ?case
    by (rule kernel_step_inv [OF yield_lock.prems(1) yield_lock.hyps(1), where k' = "Yld1"])
      (use yield_lock.hyps R(1-7,9,10) in \<open>auto simp: sched_upd\<close>)
next
  case (yield_state s p)
  note R = runs_facts [OF yield_state.prems(1) yield_state.hyps(1)]
  show ?case
    by (rule kernel_step_inv [OF yield_state.prems(1) yield_state.hyps(1), where k' = "Yld2"])
      (use yield_state.hyps R(1-7,9,10) in \<open>auto simp: sched_upd\<close>)
next
  case (yield_sched s p)
  note R = runs_facts [OF yield_sched.prems(1) yield_sched.hyps(1)]
  show ?case by (rule sched_call_inv [OF yield_sched.prems(1) yield_sched.hyps(1)]) (use R(8) in auto)
next
  case (yield_unlock s p)
  note R = runs_facts [OF yield_unlock.prems(1) yield_unlock.hyps(1)]
  show ?case
    by (rule kernel_step_inv [OF yield_unlock.prems(1) yield_unlock.hyps(1), where k' = "Run"])
      (use yield_unlock.hyps R(1-7,9,10) in \<open>auto simp: sched_upd\<close>)
next
  case (cond_lock s p c)
  note R = runs_facts [OF cond_lock.prems(1) cond_lock.hyps(1)]
  show ?case
    by (rule kernel_step_inv [OF cond_lock.prems(1) cond_lock.hyps(1), where k' = "Lk c"])
      (use cond_lock.hyps R(1-7,9,10) in \<open>auto simp: sched_upd\<close>)
next
  case (cond_unlock s p c)
  note R = runs_facts [OF cond_unlock.prems(1) cond_unlock.hyps(1)]
  show ?case
    by (rule kernel_step_inv [OF cond_unlock.prems(1) cond_unlock.hyps(1), where k' = "Run"])
      (use cond_unlock.hyps R(1-7,9,10) in \<open>auto simp: sched_upd\<close>)
next
  case (cond_use s p c)
  note R = runs_facts [OF cond_use.prems(1) cond_use.hyps(1)]
  show ?case
    by (rule kernel_step_inv [OF cond_use.prems(1) cond_use.hyps(1), where k' = "Lk c"])
      (use cond_use.hyps R(1-7,9,10) in \<open>auto simp: sched_upd\<close>)
next
  case (sleep_lock s p c)
  note R = runs_facts [OF sleep_lock.prems(1) sleep_lock.hyps(1)]
  show ?case
    by (rule kernel_step_inv [OF sleep_lock.prems(1) sleep_lock.hyps(1), where k' = "Slp1 c"])
      (use sleep_lock.hyps R(1-7,9,10) in \<open>auto simp: sched_upd\<close>)
next
  case (sleep_unlock s p c)
  note R = runs_facts [OF sleep_unlock.prems(1) sleep_unlock.hyps(1)]
  show ?case
    by (rule kernel_step_inv [OF sleep_unlock.prems(1) sleep_unlock.hyps(1), where k' = "Slp2 c"])
      (use sleep_unlock.hyps R(1-7,9,10) in \<open>auto simp: sched_upd\<close>)
next
  case (sleep_chan s p c)
  note R = runs_facts [OF sleep_chan.prems(1) sleep_chan.hyps(1)]
  show ?case
    by (rule kernel_step_inv [OF sleep_chan.prems(1) sleep_chan.hyps(1), where k' = "Slp3 c"])
      (use sleep_chan.hyps R(1-7,9,10) in \<open>auto simp: sched_upd\<close>)
next
  case (sleep_state s p c)
  note R = runs_facts [OF sleep_state.prems(1) sleep_state.hyps(1)]
  show ?case
    by (rule kernel_step_inv [OF sleep_state.prems(1) sleep_state.hyps(1), where k' = "Slp4 c"])
      (use sleep_state.hyps R(1-7,9,10) R(8) [of c] in \<open>auto simp: sched_upd\<close>)
next
  case (sleep_sched s p c)
  note R = runs_facts [OF sleep_sched.prems(1) sleep_sched.hyps(1)]
  show ?case by (rule sched_call_inv [OF sleep_sched.prems(1) sleep_sched.hyps(1)]) (use R(8) in auto)
next
  case (sleep_clear s p c)
  note R = runs_facts [OF sleep_clear.prems(1) sleep_clear.hyps(1)]
  show ?case
    by (rule kernel_step_inv [OF sleep_clear.prems(1) sleep_clear.hyps(1), where k' = "Slp6 c"])
      (use sleep_clear.hyps R(1-7,9,10) in \<open>auto simp: sched_upd\<close>)
next
  case (sleep_release s p c)
  note R = runs_facts [OF sleep_release.prems(1) sleep_release.hyps(1)]
  show ?case
    by (rule kernel_step_inv [OF sleep_release.prems(1) sleep_release.hyps(1), where k' = "Slp7 c"])
      (use sleep_release.hyps R(1-7,9,10) in \<open>auto simp: sched_upd\<close>)
next
  case (sleep_relock s p c)
  note R = runs_facts [OF sleep_relock.prems(1) sleep_relock.hyps(1)]
  show ?case
    by (rule kernel_step_inv [OF sleep_relock.prems(1) sleep_relock.hyps(1), where k' = "Lk c"])
      (use sleep_relock.hyps R(1-7,9,10) in \<open>auto simp: sched_upd\<close>)
next
  case (exit_lock s p)
  note R = runs_facts [OF exit_lock.prems(1) exit_lock.hyps(1)]
  show ?case
    by (rule kernel_step_inv [OF exit_lock.prems(1) exit_lock.hyps(1), where k' = "Ex1"])
      (use exit_lock.hyps R(1-7,9,10) in \<open>auto simp: sched_upd\<close>)
next
  case (exit_state s p)
  note R = runs_facts [OF exit_state.prems(1) exit_state.hyps(1)]
  show ?case
    by (rule kernel_step_inv [OF exit_state.prems(1) exit_state.hyps(1), where k' = "Ex2"])
      (use exit_state.hyps R(1-7,9,10) in \<open>auto simp: sched_upd\<close>)
next
  case (exit_sched s p)
  note R = runs_facts [OF exit_sched.prems(1) exit_sched.hyps(1)]
  show ?case by (rule sched_call_inv [OF exit_sched.prems(1) exit_sched.hyps(1)]) (use R(8) in auto)
next
  case (op_lock s p i op)
  note R = runs_facts [OF op_lock.prems(1) op_lock.hyps(1)]
  show ?case
    by (rule kernel_step_inv [OF op_lock.prems(1) op_lock.hyps(1), where k' = "Op op i"])
      (use op_lock.hyps R(1-7,9,10) in \<open>auto simp: sched_upd\<close>)
next
  case (op_effect s p op i)
  note R = runs_facts [OF op_effect.prems(1) op_effect.hyps(1)]
  have F: "pst s i = RUNNING" if "taken (sat s j) = Some i" for j
  proof (cases "j = h")
    case True
    then show ?thesis using that R(1,6) by simp
  next
    case False
    then show ?thesis using foreign [OF op_effect.prems(1) _ that, of h] R(1-3) by (simp add: proc_lock_of_def)
  qed
  have P: "(\<And>j. taken (sat s j) \<noteq> Some i) \<Longrightarrow> parked_ok s i" by (rule sched_invD(6) [OF op_effect.prems(1)])
  have ne: "pst s i \<noteq> RUNNING \<Longrightarrow> i \<noteq> p \<and> (\<forall>j. taken (sat s j) \<noteq> Some i) \<and> parked_ok s i"
    using F P R(6) by auto
  show ?case
    by (rule kernel_step_inv [OF op_effect.prems(1) op_effect.hyps(1), where k' = "Op_done i"])
      (use R(1-7,9,10) ne in \<open>auto simp: sched_upd lock_op_effect_def parked_ok_def split: lock_op.splits if_splits\<close>)
next
  case (op_unlock s p i)
  note R = runs_facts [OF op_unlock.prems(1) op_unlock.hyps(1)]
  show ?case
    by (rule kernel_step_inv [OF op_unlock.prems(1) op_unlock.hyps(1), where k' = "Run"])
      (use op_unlock.hyps R(1-7,9,10) in \<open>auto simp: sched_upd\<close>)
qed (auto simp: sched_upd)

text \<open>The steps of \<open>wakeup\<close>.\<close>

lemma wake_update:
  assumes inv: "sched_inv s"
    and same: "sat s' = sat s" "cproc s' = cproc s" "kat s' = kat s" "pch s' = pch s"
    and other: "\<And>k. k \<noteq> h \<Longrightarrow> wat s' k = wat s k \<and> depth s' k = depth s k"
    and ctxt: "case sat s h of Scan _ _ \<Rightarrow> True | Wfi \<Rightarrow> True | Switched p \<Rightarrow> kat s p = Run | _ \<Rightarrow> False"
    and states: "\<And>p. pst s' p \<noteq> pst s p \<Longrightarrow> pst s p = SLEEPING \<and> pst s' p = RUNNABLE \<and> (\<forall>k. taken (sat s k) \<noteq> Some p)"
    and powns: "\<And>i. pown s' i = (if wake_lock (wat s' h) = Some i then Some h
      else if wake_lock (wat s h) = Some i then None else pown s i)"
    and acquired: "\<And>i. wake_lock (wat s' h) = Some i \<Longrightarrow> wake_lock (wat s h) \<noteq> Some i \<Longrightarrow> pown s i = None"
    and lowns: "\<And>c. lown s' c = (if wake_cond (wat s' h) = Some c then Some h
      else if wake_cond (wat s h) = Some c then None else lown s c)"
    and acquired_cond: "\<And>c. wake_cond (wat s' h) = Some c \<Longrightarrow> wake_cond (wat s h) \<noteq> Some c \<Longrightarrow> lown s c = None"
    and depth: "depth s' h = of_bool (wake_lock (wat s' h) \<noteq> None) + of_bool (wake_cond (wat s' h) \<noteq> None)"
  shows "sched_inv s'"
proof -
  have l: "proc_lock_of s h = wake_lock (wat s h)" "proc_lock_of s' h = wake_lock (wat s' h)"
    "cond_lock_of s h = wake_cond (wat s h)" "cond_lock_of s' h = wake_cond (wat s' h)"
    using ctxt same by (auto simp: proc_lock_of_def cond_lock_of_def split: sched_pc.splits)
  have tk: "taken (sat s k) = Some p \<Longrightarrow> pst s' p = pst s p" for k p using states by blast
  show ?thesis
  proof (rule sched_inv_update [OF inv, of h])
    show "hart_ok s' h" using sched_invD(1) [OF inv, of h] ctxt same depth l
      by (auto simp: hart_ok_def split: sched_pc.splits)
    show "k = h" if "taken (sat s' h) = Some p" "taken (sat s k) = Some p" for p k
      using that same sched_invD(4) [OF inv, of k p h] by simp
    show "running_ok s' h p" if "taken (sat s' h) = Some p" for p
      using that same tk sched_invD(5) [OF inv, of h p] by (auto simp: running_ok_def split: sched_pc.splits)
    show "parked_ok s' p" if "taken (sat s' h) \<noteq> Some p" "taken (sat s h) \<noteq> Some p \<Longrightarrow> parked_ok s p" for p
      using that same states [of p] by (auto simp: parked_ok_def)
  qed (use same other tk l powns acquired lowns acquired_cond in auto)
qed

lemma wake_facts:
  assumes "sched_inv s" and "wat s h \<noteq> No_wake"
  shows "case sat s h of Scan _ _ \<Rightarrow> True | Wfi \<Rightarrow> True | Switched p \<Rightarrow> kat s p = Run | _ \<Rightarrow> False"
    and "depth s h = of_bool (wake_lock (wat s h) \<noteq> None) + of_bool (wake_cond (wat s h) \<noteq> None)"
    and "wake_lock (wat s h) = Some i \<Longrightarrow> pown s i = Some h"
    and "wake_cond (wat s h) = Some c \<Longrightarrow> lown s c = Some h"
  using sched_invD(1) [OF assms(1), of h] sched_invD(2,3) [OF assms(1)] assms(2)
  by (auto simp: hart_ok_def proc_lock_of_def cond_lock_of_def)

lemma wake_not_taken:
  assumes inv: "sched_inv s" and wk: "wat s h \<noteq> No_wake" "wake_lock (wat s h) = Some i" and sl: "pst s i = SLEEPING"
  shows "taken (sat s k) \<noteq> Some i"
proof
  assume tk: "taken (sat s k) = Some i"
  show False
  proof (cases "k = h")
    case True
    then show ?thesis using wake_facts(1) [OF inv wk(1)] tk sched_invD(5) [OF inv, of h i] sl
      by (auto simp: running_ok_def split: sched_pc.splits)
  next
    case False
    then show ?thesis using foreign [OF inv _ tk False] wk sl by (simp add: proc_lock_of_def)
  qed
qed

lemma wakeup_step_inv:
  assumes "sched_step h s s'" and "sched_inv s" and "wat s h \<noteq> No_wake \<or> wat s' h \<noteq> No_wake"
  shows "sched_inv s'"
  using assms
proof (induction rule: sched_step.induct)
  case (wakeup_begin s c)
  have W: "wat s h = No_wake" using wakeup_begin.hyps by (simp add: interruptible_def)
  have "depth s h = 0" using sched_invD(1) [OF wakeup_begin.prems(1), of h] wakeup_begin.hyps
    by (auto simp: interruptible_def hart_ok_def proc_lock_of_def cond_lock_of_def split: sched_pc.splits)
  then show ?case
    by - (rule wake_update [OF wakeup_begin.prems(1), of _ h];
      use wakeup_begin.hyps W in \<open>auto simp: sched_upd interruptible_def split: sched_pc.splits\<close>)
next
  case (wakeup_self s c i)
  have W: "wat s h \<noteq> No_wake" using wakeup_self.hyps by simp
  note F = wake_facts [OF wakeup_self.prems(1) W]
  show ?case
    by (rule wake_update [OF wakeup_self.prems(1), of _ h]; use wakeup_self.hyps F  in \<open>auto simp: sched_upd split: if_splits\<close>)
next
  case (wakeup_lock s c i)
  have W: "wat s h \<noteq> No_wake" using wakeup_lock.hyps by simp
  note F = wake_facts [OF wakeup_lock.prems(1) W]
  show ?case
    by (rule wake_update [OF wakeup_lock.prems(1), of _ h]; use wakeup_lock.hyps F  in \<open>auto simp: sched_upd split: if_splits\<close>)
next
  case (wakeup_state s c i)
  have W: "wat s h \<noteq> No_wake" using wakeup_state.hyps by simp
  note F = wake_facts [OF wakeup_state.prems(1) W]
  show ?case
    by (rule wake_update [OF wakeup_state.prems(1), of _ h]; use wakeup_state.hyps F wake_not_taken [OF wakeup_state.prems(1) W] in \<open>auto simp: sched_upd split: if_splits\<close>)
next
  case (wakeup_unlock s c i)
  have W: "wat s h \<noteq> No_wake" using wakeup_unlock.hyps by simp
  note F = wake_facts [OF wakeup_unlock.prems(1) W]
  show ?case
    by (rule wake_update [OF wakeup_unlock.prems(1), of _ h]; use wakeup_unlock.hyps F  in \<open>auto simp: sched_upd split: if_splits\<close>)
next
  case (wakeup_end s c i)
  have W: "wat s h \<noteq> No_wake" using wakeup_end.hyps by simp
  note F = wake_facts [OF wakeup_end.prems(1) W]
  show ?case
    by (rule wake_update [OF wakeup_end.prems(1), of _ h]; use wakeup_end.hyps F  in \<open>auto simp: sched_upd split: if_splits\<close>)
qed (auto simp: runs_def sched_upd sched_def lock_op_effect_def dest: wake_facts(1) split: lock_op.splits if_splits)

lemma sched_step_inv:
  assumes "sched_step h s s'" and "sched_inv s"
  shows "sched_inv s'"
proof (cases "wat s h \<noteq> No_wake \<or> wat s' h \<noteq> No_wake")
  case False
  then show ?thesis using assms scheduler_step_inv process_step_inv by metis
qed (use assms wakeup_step_inv in blast)

lemma sched_reach_inv: "sched_reach s \<Longrightarrow> sched_inv s"
  by (induction rule: sched_reach.induct) (auto intro: sched_inv_boot sched_step_inv)

lemma sched_step_no_panic:
  assumes "sched_step h s s'" and "sched_inv s" and "panicked_at s = None"
  shows "panicked_at s' = None"
  using assms
  by (induction rule: sched_step.induct)
    (auto simp: sched_call sched_upd lock_op_effect_def split: lock_op.splits)

lemma sched_reach_no_panic: "sched_reach s \<Longrightarrow> panicked_at s = None"
  by (induction rule: sched_reach.induct) (auto simp: sched_boot_def dest: sched_step_no_panic sched_reach_inv)

text \<open>The first steps after boot.\<close>

definition sched0 :: sched_state where
  "sched0 = \<lparr>pst = \<lambda>i. if i = 0 then RUNNABLE else UNUSED, pch = \<lambda>_. Chan_none, pown = \<lambda>_. None,
     kat = \<lambda>_. Forkret, cproc = \<lambda>_. None, sat = \<lambda>_. Scan 0 False, wat = \<lambda>_. No_wake, depth = \<lambda>_. 0,
     lown = \<lambda>_. None, cond = \<lambda>_. False, panicked_at = None\<rparr>"

lemma sched0_reach: "sched_reach sched0"
  by (rule sched_reach.boot) (simp add: sched_boot_def sched0_def)

lemma switched_reachable: "\<exists>s. sched_reach s \<and> sat s 0 = Switched 0"
proof -
  define s1 where "s1 = to_sched 0 (Locked 0 False) (lock_proc 0 0 sched0)"
  define s2 where "s2 = to_sched 0 (Marked 0) (set_state 0 RUNNING s1)"
  define s3 where "s3 = to_sched 0 (About 0) (s2\<lparr>cproc := (cproc s2)(0 := Some 0)\<rparr>)"
  define s4 where "s4 = to_sched 0 (Switched 0) s3"
  have "sched_step 0 sched0 s1" unfolding s1_def by (rule sched_step.scheduler_lock) (simp_all add: sched0_def)
  then have r1: "sched_reach s1" by (rule sched_reach.step [OF sched0_reach])
  have "sched_step 0 s1 s2" unfolding s2_def
    by (rule sched_step.scheduler_pick [of _ _ _ False]) (simp_all add: s1_def sched_upd sched0_def)
  then have r2: "sched_reach s2" by (rule sched_reach.step [OF r1])
  have "sched_step 0 s2 s3" unfolding s3_def by (rule sched_step.scheduler_proc) (simp add: s2_def sched_upd)
  then have r3: "sched_reach s3" by (rule sched_reach.step [OF r2])
  have "sched_step 0 s3 s4" unfolding s4_def by (rule sched_step.scheduler_swtch) (simp add: s3_def sched_upd)
  then have "sched_reach s4" by (rule sched_reach.step [OF r3])
  then show ?thesis by (auto simp: s4_def sched_upd)
qed

text \<open>
  C27: The scheduler never runs a process on two CPUs. In every state reachable by any interleaving
  of the CPUs, two CPUs on the kernel stack of the same process are the same CPU; the process on a
  CPU's stack is the one \<open>c->proc\<close> names; a process on no CPU is not marked \<open>RUNNING\<close>, and if it
  can be chosen, its saved context is at a point right after a \<open>swtch\<close>; and none of the
  checks in \<open>sched()\<close> fails.
\<close>

theorem one_cpu_per_process:
  assumes "sched_reach s"
  shows "(sat s h = Switched p \<longrightarrow> sat s h' = Switched p \<longrightarrow> h = h') \<and>
    (sat s h = Switched p \<longrightarrow> cproc s h = Some p) \<and>
    ((\<forall>k. taken (sat s k) \<noteq> Some p) \<longrightarrow> pst s p \<noteq> RUNNING \<and> (pst s p = RUNNABLE \<longrightarrow> resumable (kat s p))) \<and>
    panicked_at s = None"
proof -
  have inv: "sched_inv s" by (rule sched_reach_inv [OF assms])
  have "cproc s h = Some p" if "sat s h = Switched p"
    using sched_invD(1) [OF inv, of h] that by (simp add: hart_ok_def)
  moreover have "h = h'" if "sat s h = Switched p" "sat s h' = Switched p"
    using sched_invD(4) [OF inv, of h p h'] that by simp
  moreover have "pst s p \<noteq> RUNNING \<and> (pst s p = RUNNABLE \<longrightarrow> resumable (kat s p))" if "\<forall>k. taken (sat s k) \<noteq> Some p"
    using sched_invD(6) [OF inv, of p] that by (auto simp: parked_ok_def)
  ultimately show ?thesis using sched_reach_no_panic [OF assms] by blast
qed

theorem one_cpu_per_process_witness:
  "\<exists>s. sched_reach s \<and> sat s 0 = Switched 0 \<and> (\<forall>h. sat s h = Switched 0 \<longrightarrow> 0 = h) \<and> cproc s 0 = Some 0"
proof -
  obtain s where s: "sched_reach s" "sat s 0 = Switched 0" using switched_reachable by blast
  have "sat s h = Switched 0 \<longrightarrow> 0 = h" for h using one_cpu_per_process [OF s(1), of 0 0 h] s(2) by blast
  moreover have "cproc s 0 = Some 0" using one_cpu_per_process [OF s(1), of 0 0 0] s(2) by blast
  ultimately show ?thesis using s by blast
qed

end
