(* ===== verification/Sched_Live.thy ===== *)
theory Sched_Live
  imports Sched
begin

text \<open>
  What sleeping and waking processes rely on: no wakeup is lost, and a runnable process is chosen
  by every CPU that keeps scheduling.
\<close>

section \<open>No lost wakeup\<close>

text \<open>
  A process is waiting on \<open>c\<close> from the moment it has given up the lock of the condition until it is
  made runnable again. A call of \<open>wakeup(c)\<close> is still to reach process \<open>p\<close> as long as its loop has
  not passed it.
\<close>

definition waiting :: "sched_state \<Rightarrow> chan \<Rightarrow> nat \<Rightarrow> bool" where
  "waiting s c p \<longleftrightarrow>
     (kat s p = Slp2 c \<or> kat s p = Slp3 c) \<and> pst s p = RUNNING \<or>
     (kat s p = Slp4 c \<or> kat s p = Slp5 c) \<and> pst s p = SLEEPING"

definition to_reach :: "wake_pc \<Rightarrow> chan \<Rightarrow> nat \<Rightarrow> bool" where
  "to_reach w c p \<longleftrightarrow> (case w of No_wake \<Rightarrow> False | Wake d i \<Rightarrow> d = c \<and> i \<le> p | Wake1 d i \<Rightarrow> d = c \<and> i \<le> p
     | Wake2 d i \<Rightarrow> d = c \<and> i < p)"

definition table_ok :: "sched_state \<Rightarrow> bool" where
  "table_ok s \<longleftrightarrow> (\<forall>i. pown s i \<noteq> None \<longrightarrow> i < NPROC) \<and> (\<forall>p. pst s p \<noteq> UNUSED \<longrightarrow> p < NPROC)"

definition wake_inv :: "sched_state \<Rightarrow> bool" where
  "wake_inv s \<longleftrightarrow>
     (\<forall>c p. cond s c \<longrightarrow> waiting s c p \<longrightarrow> (\<exists>h. to_reach (wat s h) c p)) \<and>
     (\<forall>c p. kat s p = Slp1 c \<longrightarrow> pst s p = RUNNING \<longrightarrow> \<not> cond s c)"

lemma table_ok_step:
  assumes "sched_step h s s'" and "sched_inv s" and "table_ok s"
  shows "table_ok s'"
proof -
  have run: "pst s p = state_at k \<and> p < NPROC" if "runs s h p k" for p k
  proof -
    have "pst s p = state_at k" by (rule runs_facts(6) [OF assms(2) that])
    moreover from this have "pst s p \<noteq> UNUSED" by (cases k) auto
    ultimately show ?thesis using assms(3) by (auto simp: table_ok_def)
  qed
  have op: "i < NPROC" if "runs s h p (Op op i)" for p op i
    using runs_facts(9) [OF assms(2) that, of i] assms(3) by (auto simp: table_ok_def)
  from assms(1) run op assms(3) show ?thesis
    by (induction rule: sched_step.induct)
      (auto simp: table_ok_def sched_upd sched_def lock_op_effect_def split: lock_op.splits if_splits)
qed

text \<open>A process that is about to sleep is on a CPU that holds its lock.\<close>

lemma about_to_sleep:
  assumes inv: "sched_inv s" and "kat s p \<in> {Slp1 c, Slp2 c, Slp3 c} \<and> pst s p = RUNNING \<or> kat s p = Slp4 c \<and> pst s p = SLEEPING"
  shows "\<exists>k. runs s k p (kat s p)"
proof -
  have "\<not> parked_ok s p" using assms(2) by (auto simp: parked_ok_def)
  then obtain k where k: "taken (sat s k) = Some p" using sched_invD(6) [OF inv, of p] by blast
  then have "running_ok s k p" by (rule sched_invD(5) [OF inv])
  then have sw: "sat s k = Switched p" using k assms(2) by (cases "sat s k") (auto simp: running_ok_def)
  then have "wat s k = No_wake" using sched_invD(1) [OF inv, of k] assms(2) by (auto simp: hart_ok_def)
  then show ?thesis using sw by (auto simp: runs_def)
qed

text \<open>Only \<open>sleep\<close> makes a process wait, and only while the condition is false.\<close>

lemma waiting_step:
  assumes "sched_step h s s'" and "sched_inv s" and "wake_inv s"
    and "waiting s' c p" and "cond s' c" and "wat s' h = wat s h"
  shows "waiting s c p \<and> cond s c"
proof -
  have st: "pst s q = state_at k" if "runs s h q k" for q k by (rule runs_facts(6) [OF assms(2) that])
  have pk: "resumable (kat s i)" if "sat s h = Locked i f" "pst s i = RUNNABLE" for i f
  proof -
    have "parked_ok s i"
    proof (rule sched_invD(6) [OF assms(2)])
      show "taken (sat s k) \<noteq> Some i" for k
        using scheduler_facts(4) [OF assms(2), of h i k] that by (cases "k = h") auto
    qed
    then show ?thesis using that by (simp add: parked_ok_def)
  qed
  from assms(1) st pk assms(3-) show ?thesis
    by (induction rule: sched_step.induct)
      (auto simp: wake_inv_def waiting_def sched_upd sched_def lock_op_effect_def runs_def interruptible_def
        split: lock_op.splits if_splits)
qed

text \<open>A step of \<open>wakeup\<close> passes a process only when the process is not waiting any more.\<close>

lemma wake_lock_not_waiting:
  assumes inv: "sched_inv s" and wk: "wat s h \<noteq> No_wake" "wake_lock (wat s h) = Some p"
    and wt: "waiting s c p"
  shows "pst s p = SLEEPING \<and> kat s p = Slp5 c \<and> pch s p = c"
proof -
  have own: "pown s p = Some h" by (rule wake_facts(3) [OF inv wk])
  have no: "\<not> runs s k p (kat s p)" if "kernel_lock p (kat s p) = Some p" for k
    using runs_facts(2,9) [OF inv, of k p] that own wk(1) by (metis option.inject)
  have sl: "kat s p = Slp5 c \<and> pst s p = SLEEPING"
    using about_to_sleep [OF inv, of p c] no wt by (auto simp: waiting_def)
  then have "parked_ok s p" using sched_invD(6) [OF inv, of p] wake_not_taken [OF inv wk] by blast
  then show ?thesis using sl by (auto simp: parked_ok_def)
qed

lemma to_reach_step:
  assumes step: "sched_step h s s'" and inv: "sched_inv s" and tab: "table_ok s"
    and wt: "waiting s' c p" and tr: "to_reach (wat s h) c p"
  shows "to_reach (wat s' h) c p"
proof -
  have bound: "p < NPROC" if "waiting s c p" using that tab by (auto simp: table_ok_def waiting_def)
  have self: "cproc s h \<noteq> Some p" if "wat s h \<noteq> No_wake" "waiting s c p"
    using sched_invD(1) [OF inv, of h] that by (auto simp: hart_ok_def waiting_def split: sched_pc.splits)
  have lock: "wat s h \<noteq> No_wake \<Longrightarrow> wake_lock (wat s h) = Some p \<Longrightarrow> waiting s c p \<Longrightarrow>
      pst s p = SLEEPING \<and> pch s p = c" using wake_lock_not_waiting [OF inv] by blast
  have nz: "wat s h \<noteq> No_wake" using tr by (auto simp: to_reach_def)
  have ctx: "case sat s h of Scan _ _ \<Rightarrow> True | Wfi \<Rightarrow> True | Switched p \<Rightarrow> kat s p = Run | _ \<Rightarrow> False"
    by (rule wake_facts(1) [OF inv nz])
  from step bound self lock nz ctx wt tr show ?thesis
    by (induction rule: sched_step.induct)
      (auto simp: to_reach_def waiting_def sched_upd runs_def interruptible_def le_eq_less_or_eq split: if_splits)
qed

lemma wake_other: "sched_step h s s' \<Longrightarrow> k \<noteq> h \<Longrightarrow> wat s' k = wat s k"
  by (induction rule: sched_step.induct)
    (auto simp: sched_upd sched_def lock_op_effect_def split: lock_op.splits)

lemma wake_changes:
  assumes "sched_step h s s'" and "wat s' h \<noteq> wat s h" and "waiting s' c p" and "cond s' c"
  shows "to_reach (wat s' h) c p \<or> waiting s c p \<and> cond s c"
  using assms
  by (induction rule: sched_step.induct)
    (auto simp: waiting_def to_reach_def sched_upd sched_def lock_op_effect_def runs_def split: lock_op.splits if_splits)

lemma sleeping_condition_step:
  assumes step: "sched_step h s s'" and inv: "sched_inv s" and wk: "wake_inv s"
    and k: "kat s' p = Slp1 c" "pst s' p = RUNNING"
  shows "\<not> cond s' c"
proof -
  have lk: "lown s c \<noteq> None" if "kat s p = Slp1 c" "pst s p = RUNNING"
    using about_to_sleep [OF inv, of p c] runs_facts(10) [OF inv, of _ p "Slp1 c" c] that by auto
  have pk: "kat s i \<noteq> Slp1 c" if "sat s h = Locked i f" "pst s i = RUNNABLE" for i f
  proof -
    have "parked_ok s i"
    proof (rule sched_invD(6) [OF inv])
      show "taken (sat s j) \<noteq> Some i" for j
        using scheduler_facts(4) [OF inv, of h i j] that by (cases "j = h") auto
    qed
    then show ?thesis using that by (auto simp: parked_ok_def)
  qed
  from step lk pk wk k show ?thesis
    by (induction rule: sched_step.induct)
      (auto simp: wake_inv_def sched_upd sched_def lock_op_effect_def runs_def split: lock_op.splits if_splits)
qed

lemma wake_inv_step:
  assumes step: "sched_step h s s'" and inv: "sched_inv s" and tab: "table_ok s" and wk: "wake_inv s"
  shows "wake_inv s'"
proof -
  have "\<exists>k. to_reach (wat s' k) c p" if "cond s' c" "waiting s' c p" for c p
  proof (cases "to_reach (wat s' h) c p")
    case False
    then have "waiting s c p \<and> cond s c"
      using wake_changes [OF step _ that(2,1)] waiting_step [OF step inv wk that(2,1)] by blast
    then obtain k where k: "to_reach (wat s k) c p" using wk unfolding wake_inv_def by blast
    then show ?thesis using to_reach_step [OF step inv tab that(2)] wake_other [OF step, of k] by metis
  qed blast
  then show ?thesis using sleeping_condition_step [OF step inv wk] by (auto simp: wake_inv_def)
qed

lemma sched_reach_wake: "sched_reach s \<Longrightarrow> table_ok s \<and> wake_inv s"
proof (induction rule: sched_reach.induct)
  case (boot s)
  have "pst s p \<in> {RUNNABLE, UNUSED}" for p using boot by (cases "p = 0") (auto simp: sched_boot_def)
  then have "\<not> waiting s c p" "pst s p \<noteq> RUNNING" for c p by (auto simp: waiting_def) (metis procstate.distinct)+
  moreover have "p < NPROC" if "pst s p \<noteq> UNUSED" for p
    using boot that by (cases "p = 0") (auto simp: sched_boot_def const_defs)
  then have "table_ok s" using boot by (auto simp: sched_boot_def table_ok_def)
  ultimately show ?case by (simp add: wake_inv_def)
next
  case (step s h s')
  then show ?case using sched_reach_inv table_ok_step wake_inv_step by blast
qed

text \<open>
  C28: No wakeup is lost. A process sleeps with \<open>sleep(c, lk)\<close> only after it found the condition
  false under \<open>lk\<close>; whoever makes it true does so under \<open>lk\<close> and calls \<open>wakeup(c)\<close>. For every
  interleaving: when the condition is true and no \<open>wakeup(c)\<close> is under way, no process sleeps on
  \<open>c\<close>, although \<open>sleep\<close> gives up \<open>lk\<close> before it marks the process as sleeping.
\<close>

theorem no_lost_wakeup:
  assumes "sched_reach s" and "cond s c" and "\<And>h. wake_cond (wat s h) \<noteq> Some c"
  shows "\<not> (pst s p = SLEEPING \<and> pch s p = c)"
proof
  assume sl: "pst s p = SLEEPING \<and> pch s p = c"
  have inv: "sched_inv s" by (rule sched_reach_inv [OF assms(1)])
  have "waiting s c p"
  proof (cases "\<exists>k. taken (sat s k) = Some p")
    case True
    then obtain k where "running_ok s k p" using sched_invD(5) [OF inv] by blast
    then show ?thesis using sl by (cases "sat s k"; cases "kat s p") (auto simp: running_ok_def waiting_def)
  next
    case False
    then have "parked_ok s p" using sched_invD(6) [OF inv] by blast
    then show ?thesis using sl by (auto simp: parked_ok_def waiting_def)
  qed
  then obtain h where "to_reach (wat s h) c p"
    using sched_reach_wake [OF assms(1)] assms(2) unfolding wake_inv_def by blast
  then show False using assms(3) [of h] by (cases "wat s h") (auto simp: to_reach_def)
qed

text \<open>A run in which a CPU makes a condition true and wakes up its channel.\<close>

lemma wakeup_completes:
  assumes "sched_reach s" and "wat s 1 = Wake c i" and "i \<le> NPROC" and "cond s c"
    and "\<And>i. pown s i = None" and "\<And>h. cproc s h = None" and "\<And>h. h \<noteq> 1 \<Longrightarrow> wat s h = No_wake"
  shows "\<exists>s'. sched_reach s' \<and> cond s' c \<and> (\<forall>h. wat s' h = No_wake)"
  using assms
proof (induction "NPROC - i" arbitrary: s i)
  case 0
  have "sched_step 1 s (to_wake 1 No_wake (unlock_cond 1 c s))"
    by (rule sched_step.wakeup_end [of s 1 c i]) (use 0 in simp_all)
  then have "sched_reach (to_wake 1 No_wake (unlock_cond 1 c s))" by (rule sched_reach.step [OF 0(2)])
  then show ?case using 0 by (intro exI [of _ "to_wake 1 No_wake (unlock_cond 1 c s)"]) (auto simp: sched_upd)
next
  case (Suc n)
  define s1 where "s1 = to_wake 1 (Wake1 c i) (lock_proc 1 i s)"
  define s2 where "s2 = to_wake 1 (Wake2 c i) (if pst s1 i = SLEEPING \<and> pch s1 i = c then set_state i RUNNABLE s1 else s1)"
  define s3 where "s3 = to_wake 1 (Wake c (Suc i)) (unlock_proc 1 i s2)"
  have "sched_step 1 s s1" unfolding s1_def by (rule sched_step.wakeup_lock) (use Suc in auto)
  then have r1: "sched_reach s1" by (rule sched_reach.step [OF Suc(3)])
  have "sched_step 1 s1 s2" unfolding s2_def by (rule sched_step.wakeup_state) (simp add: s1_def sched_upd)
  then have r2: "sched_reach s2" by (rule sched_reach.step [OF r1])
  have "sched_step 1 s2 s3" unfolding s3_def by (rule sched_step.wakeup_unlock) (simp add: s2_def sched_upd)
  then have "sched_reach s3" by (rule sched_reach.step [OF r2])
  then show ?case using Suc by (intro Suc(1) [of "Suc i" s3]) (auto simp: s1_def s2_def s3_def sched_upd split: if_splits)
qed

theorem no_lost_wakeup_witness:
  "\<exists>s. sched_reach s \<and> cond s Chan_ticks \<and> (\<forall>p. \<not> (pst s p = SLEEPING \<and> pch s p = Chan_ticks))"
proof -
  define s where "s = to_wake 1 (Wake Chan_ticks 0) (lock_cond 1 Chan_ticks (sched0\<lparr>cond := (cond sched0)(Chan_ticks := True)\<rparr>))"
  have "sched_step 1 sched0 s"
    unfolding s_def by (rule sched_step.wakeup_begin) (simp_all add: interruptible_def sched0_def)
  then have "sched_reach s" by (rule sched_reach.step [OF sched0_reach])
  then obtain s' where s': "sched_reach s'" "cond s' Chan_ticks" "\<forall>h. wat s' h = No_wake"
    using wakeup_completes [of s Chan_ticks 0] by (auto simp: s_def sched_upd sched0_def)
  then have "\<not> (pst s' p = SLEEPING \<and> pch s' p = Chan_ticks)" for p
    by (intro no_lost_wakeup) auto
  then show ?thesis using s' by blast
qed

section \<open>Every runnable process is scheduled\<close>

lemma sat_other: "sched_step h s s' \<Longrightarrow> k \<noteq> h \<Longrightarrow> sat s' k = sat s k"
  by (induction rule: sched_step.induct)
    (auto simp: sched_upd sched_def lock_op_effect_def split: lock_op.splits)

lemma runnable_stays:
  assumes "sched_step h s s'" and "sched_inv s" and "pst s p = RUNNABLE" and "pst s' p \<noteq> RUNNING"
  shows "pst s' p = RUNNABLE"
proof -
  have st: "pst s q = state_at k" if "runs s h q k" for q k by (rule runs_facts(6) [OF assms(2) that])
  from assms(1) st assms(3,4) show ?thesis
    by (induction rule: sched_step.induct)
      (auto simp: sched_upd sched_def lock_op_effect_def split: lock_op.splits if_splits)
qed

text \<open>How far a CPU is from testing process \<open>p\<close>.\<close>

definition ahead :: "nat \<Rightarrow> nat \<Rightarrow> nat" where
  "ahead p i = (if i \<le> p then p - i else p + 1 + (NPROC - i))"

definition behind :: "nat \<Rightarrow> nat \<Rightarrow> nat" where
  "behind p i = (if i < p then p - i else p + 1 + (NPROC - i))"

fun rank :: "nat \<Rightarrow> sched_pc \<Rightarrow> nat" where
  "rank p (Scan i _) = 8 * ahead p i + 7"
| "rank p (Locked i _) = 8 * (if i = p then 0 else behind p i) + 6"
| "rank p (Marked i) = 8 * behind p i + 5"
| "rank p (About i) = 8 * behind p i + 4"
| "rank p (Switched i) = 8 * behind p i + 3"
| "rank p (Back i) = 8 * behind p i + 2"
| "rank p (Unlock i _) = 8 * behind p i + 1"
| "rank p Wfi = 8 * p + 8"

lemma sched_index:
  assumes "sched_inv s" and "table_ok s"
  shows "sched_lock (sat s h) = Some i \<Longrightarrow> i < NPROC" and "sat s h = Switched i \<Longrightarrow> i < NPROC"
proof -
  show "i < NPROC" if "sched_lock (sat s h) = Some i"
    using scheduler_facts(2) [OF assms(1) that] assms(2) by (auto simp: table_ok_def)
  show "i < NPROC" if "sat s h = Switched i"
  proof -
    have "running_ok s h i" using sched_invD(5) [OF assms(1), of h i] that by simp
    then have "pst s i \<noteq> UNUSED" using that by (cases "kat s i") (auto simp: running_ok_def)
    then show ?thesis using assms(2) by (auto simp: table_ok_def)
  qed
qed

lemma rank_step:
  assumes "sched_step h s s'" and inv: "sched_inv s" "table_ok s" and "p < NPROC"
    and "sat s' h \<noteq> sat s h" and "\<And>f. sat s h \<noteq> Locked p f"
  shows "rank p (sat s' h) < rank p (sat s h)"
proof -
  have l: "sched_lock (sat s h) = Some i \<Longrightarrow> i < NPROC" "sat s h = Switched i \<Longrightarrow> i < NPROC" for i
    using sched_index [OF inv] by blast+
  from assms(1) l assms(4-) show ?thesis
    by (induction rule: sched_step.induct)
      (auto simp: sched_upd sched_def lock_op_effect_def runs_def ahead_def behind_def split: lock_op.splits if_splits)
qed

text \<open>An infinite run, one step of some CPU at a time; CPU \<open>h\<close> never stays at one point for ever.\<close>

definition sched_run :: "(nat \<Rightarrow> sched_state) \<Rightarrow> bool" where
  "sched_run \<sigma> \<longleftrightarrow> sched_reach (\<sigma> 0) \<and> (\<forall>n. \<exists>h. sched_step h (\<sigma> n) (\<sigma> (Suc n)))"

definition keeps_going :: "(nat \<Rightarrow> sched_state) \<Rightarrow> nat \<Rightarrow> bool" where
  "keeps_going \<sigma> h \<longleftrightarrow> (\<forall>n. \<exists>m\<ge>n. sat (\<sigma> m) h \<noteq> sat (\<sigma> n) h)"

lemma run_reach: "sched_run \<sigma> \<Longrightarrow> sched_reach (\<sigma> n)"
  by (induction n) (auto simp: sched_run_def intro: sched_reach.step)

lemma next_change:
  assumes "sched_run \<sigma>" and "keeps_going \<sigma> h"
  obtains m where "m \<ge> n" and "sat (\<sigma> m) h = sat (\<sigma> n) h" and "sat (\<sigma> (Suc m)) h \<noteq> sat (\<sigma> n) h"
    and "sched_step h (\<sigma> m) (\<sigma> (Suc m))"
proof -
  define k where "k = (LEAST k. sat (\<sigma> (n + k)) h \<noteq> sat (\<sigma> n) h)"
  have "\<exists>k. sat (\<sigma> (n + k)) h \<noteq> sat (\<sigma> n) h"
    using assms(2) unfolding keeps_going_def by (metis le_Suc_ex)
  then have k: "sat (\<sigma> (n + k)) h \<noteq> sat (\<sigma> n) h" unfolding k_def by (rule LeastI_ex)
  then obtain j where j: "k = Suc j" by (cases k) auto
  then have same: "sat (\<sigma> (n + j)) h = sat (\<sigma> n) h"
    using not_less_Least [of j "\<lambda>k. sat (\<sigma> (n + k)) h \<noteq> sat (\<sigma> n) h"] by (auto simp: k_def)
  obtain g where g: "sched_step g (\<sigma> (n + j)) (\<sigma> (Suc (n + j)))" using assms(1) by (auto simp: sched_run_def)
  then have "g = h" using sat_other [OF g, of h] k j same by auto
  then show ?thesis using that [of "n + j"] same k j g by simp
qed

lemma runnable_until:
  assumes "sched_run \<sigma>" and "pst (\<sigma> n) p = RUNNABLE" and "\<And>m. m \<ge> n \<Longrightarrow> pst (\<sigma> m) p \<noteq> RUNNING"
  shows "pst (\<sigma> (n + k)) p = RUNNABLE"
proof (induction k)
  case (Suc k)
  obtain h where "sched_step h (\<sigma> (n + k)) (\<sigma> (Suc (n + k)))" using assms(1) by (auto simp: sched_run_def)
  then show ?case
    using runnable_stays [OF _ sched_reach_inv [OF run_reach [OF assms(1)]] Suc] assms(3) [of "Suc (n + k)"] by simp
qed (use assms in simp)

lemma reaches_lock:
  assumes run: "sched_run \<sigma>" and go: "keeps_going \<sigma> h" and p: "p < NPROC"
  shows "\<exists>m\<ge>n. \<exists>f. sat (\<sigma> m) h = Locked p f"
proof (induction "rank p (sat (\<sigma> n) h)" arbitrary: n rule: less_induct)
  case less
  show ?case
  proof (cases "\<exists>f. sat (\<sigma> n) h = Locked p f")
    case False
    obtain m where m: "m \<ge> n" "sat (\<sigma> m) h = sat (\<sigma> n) h" "sat (\<sigma> (Suc m)) h \<noteq> sat (\<sigma> n) h"
      and st: "sched_step h (\<sigma> m) (\<sigma> (Suc m))" by (rule next_change [OF run go])
    have "rank p (sat (\<sigma> (Suc m)) h) < rank p (sat (\<sigma> m) h)"
      by (rule rank_step [OF st sched_reach_inv [OF run_reach [OF run]] _ p])
        (use sched_reach_wake [OF run_reach [OF run]] m False in auto)
    then obtain k where "k \<ge> Suc m" "\<exists>f. sat (\<sigma> k) h = Locked p f" using less [of "Suc m"] m by auto
    then show ?thesis using m(1) by (meson Suc_leD le_trans)
  qed auto
qed

lemma pick_step:
  "sched_step h s s' \<Longrightarrow> sat s h = Locked p f \<Longrightarrow> wat s h = No_wake \<Longrightarrow> pst s p = RUNNABLE \<Longrightarrow>
   sat s' h \<noteq> Locked p f \<Longrightarrow> pst s' p = RUNNING"
  by (induction rule: sched_step.induct) (auto simp: sched_upd runs_def interruptible_def)

text \<open>
  C29: No process starves. In every infinite run, a process that is \<open>RUNNABLE\<close> is eventually
  \<open>RUNNING\<close>, provided there is one CPU that keeps going: the locks it spins on are released and the
  processes it runs give up the CPU, as the timer interrupt makes them do.
\<close>

theorem runnable_eventually_runs:
  assumes run: "sched_run \<sigma>" and go: "keeps_going \<sigma> h" and r: "pst (\<sigma> n) p = RUNNABLE"
  shows "\<exists>m\<ge>n. pst (\<sigma> m) p = RUNNING"
proof (rule ccontr)
  assume no: "\<not> ?thesis"
  have p: "p < NPROC" using sched_reach_wake [OF run_reach [OF run], of n] r by (auto simp: table_ok_def)
  obtain m f where m: "m \<ge> n" "sat (\<sigma> m) h = Locked p f" using reaches_lock [OF run go p] by blast
  obtain k where k: "k \<ge> m" "sat (\<sigma> k) h = Locked p f" "sat (\<sigma> (Suc k)) h \<noteq> Locked p f"
    and st: "sched_step h (\<sigma> k) (\<sigma> (Suc k))" using next_change [OF run go, of m] m by metis
  have "pst (\<sigma> k) p = RUNNABLE" using runnable_until [OF run r, of "k - n"] no k(1) m(1) by auto
  moreover have "wat (\<sigma> k) h = No_wake"
    using scheduler_facts(1) [OF sched_reach_inv [OF run_reach [OF run]], of k h p] k(2) by simp
  ultimately have "pst (\<sigma> (Suc k)) p = RUNNING"
    using pick_step [OF st] k(2,3) by simp
  then show False using no k(1) m(1) by auto
qed

text \<open>A run of one CPU and one process that yields again and again.\<close>

definition solo_next :: "sched_state \<Rightarrow> sched_state" where
  "solo_next s = (case sat s 0 of
     Scan i f \<Rightarrow> if i < NPROC then to_sched 0 (Locked i f) (lock_proc 0 i s)
                 else to_sched 0 (if f then Scan 0 False else Wfi) s
   | Wfi \<Rightarrow> to_sched 0 (Scan 0 False) s
   | Locked i f \<Rightarrow> if pst s i = RUNNABLE then to_sched 0 (Marked i) (set_state i RUNNING s) else to_sched 0 (Unlock i f) s
   | Marked i \<Rightarrow> to_sched 0 (About i) (s\<lparr>cproc := (cproc s)(0 := Some i)\<rparr>)
   | About i \<Rightarrow> to_sched 0 (Switched i) s
   | Back i \<Rightarrow> to_sched 0 (Unlock i True) (s\<lparr>cproc := (cproc s)(0 := None)\<rparr>)
   | Unlock i f \<Rightarrow> to_sched 0 (Scan (Suc i) f) (unlock_proc 0 i s)
   | Switched p \<Rightarrow> (case kat s p of
       Run \<Rightarrow> to_kernel p Yld1 (lock_proc 0 p s)
     | Yld1 \<Rightarrow> to_kernel p Yld2 (set_state p RUNNABLE s)
     | Yld2 \<Rightarrow> sched 0 p Yld3 s
     | _ \<Rightarrow> to_kernel p Run (unlock_proc 0 p s)))"

definition solo :: "sched_state \<Rightarrow> bool" where
  "solo s \<longleftrightarrow> sched_reach s \<and> (\<forall>h>0. sat s h = Scan 0 False) \<and> (\<forall>h. wat s h = No_wake) \<and>
     (\<forall>p>0. pst s p = UNUSED) \<and> kat s 0 \<in> {Forkret, Run, Yld1, Yld2, Yld3}"

lemma solo_unlocked:
  assumes "solo s" and "proc_lock_of s 0 = None"
  shows "pown s i = None"
proof (cases "pown s i")
  case (Some h)
  then have "proc_lock_of s h = Some i" using sched_invD(2) [OF sched_reach_inv] assms(1) by (auto simp: solo_def)
  then show ?thesis using assms by (cases "h = 0") (auto simp: solo_def proc_lock_of_def)
qed

lemma solo_step:
  assumes "solo s"
  shows "sched_step 0 s (solo_next s)" and "solo (solo_next s)"
proof -
  have inv: "sched_inv s" and W: "wat s 0 = No_wake" using assms sched_reach_inv by (auto simp: solo_def)
  have zero: "p = 0" if "sat s 0 = Switched p" for p
  proof (rule ccontr)
    assume "p \<noteq> 0"
    then have "pst s p = UNUSED" using assms by (simp add: solo_def)
    moreover have "running_ok s 0 p" using sched_invD(5) [OF inv, of 0 p] that by simp
    ultimately show False using that by (cases "kat s p") (auto simp: running_ok_def)
  qed
  have un: "pown s i = None" if "proc_lock_of s 0 = None" for i by (rule solo_unlocked [OF assms that])
  show step: "sched_step 0 s (solo_next s)"
  proof (cases "sat s 0")
    case (Switched p)
    then have p: "p = 0" by (rule zero)
    have k: "kat s 0 \<in> {Forkret, Run, Yld1, Yld2, Yld3}" using assms by (simp add: solo_def)
    have "runs s 0 0 (kat s 0)" using Switched p W by (simp add: runs_def)
    then show ?thesis using k Switched p un [of 0] W
      by (auto simp: solo_next_def proc_lock_of_def intro: sched_step.intros)
  next
    case (Scan i f)
    then show ?thesis using W un [of i] sched_step.scheduler_lock [of s 0 i f] sched_step.scheduler_end [of s 0 i f]
      by (auto simp: solo_next_def proc_lock_of_def)
  qed (use W in \<open>auto simp: solo_next_def intro: sched_step.intros\<close>)
  have "sched_reach (solo_next s)" using assms sched_reach.step [OF _ step] by (simp add: solo_def)
  moreover have "pst (solo_next s) p = UNUSED" if "p > 0" for p
    using that assms zero by (auto simp: solo_def solo_next_def sched_upd sched_def split: sched_pc.splits kernel_pc.splits)
  moreover have "kat (solo_next s) 0 \<in> {Forkret, Run, Yld1, Yld2, Yld3}"
    using assms zero by (auto simp: solo_def solo_next_def sched_upd sched_def split: sched_pc.splits kernel_pc.splits)
  moreover have "wat (solo_next s) h = No_wake" "h > 0 \<longrightarrow> sat (solo_next s) h = Scan 0 False" for h
    using assms by (auto simp: solo_def solo_next_def sched_upd sched_def split: sched_pc.splits kernel_pc.splits)
  ultimately show "solo (solo_next s)" by (simp add: solo_def)
qed

fun yield_steps :: "kernel_pc \<Rightarrow> nat" where
  "yield_steps Yld2 = 0" | "yield_steps Yld1 = 1" | "yield_steps Run = 2" | "yield_steps _ = 3"

lemma solo_moves:
  assumes "solo s"
  shows "\<exists>k. sat ((solo_next ^^ k) s) 0 \<noteq> sat s 0"
  using assms
proof (induction "yield_steps (kat s 0)" arbitrary: s rule: less_induct)
  case less
  show ?case
  proof (cases "sat (solo_next s) 0 = sat s 0")
    case False
    then show ?thesis by (intro exI [of _ 1]) simp
  next
    case True
    have inv: "sched_inv s" and st: "sched_step 0 s (solo_next s)"
      using less.prems sched_reach_inv solo_step(1) by (auto simp: solo_def)
    have k: "kat s 0 \<in> {Forkret, Run, Yld1, Yld2, Yld3}" and p: "\<And>p. p > 0 \<Longrightarrow> pst s p = UNUSED"
      using less.prems by (auto simp: solo_def)
    obtain q where q: "sat s 0 = Switched q"
      using True by (cases "sat s 0") (auto simp: solo_next_def sched_upd split: if_splits)
    have "running_ok s 0 q" using sched_invD(5) [OF inv, of 0 q] q by simp
    then have "q = 0" using p [of q] k q by (cases "kat s q") (auto simp: running_ok_def)
    then have run: "runs s 0 0 (kat s 0)" using q less.prems by (simp add: runs_def solo_def)
    have "kat s 0 \<noteq> Yld2"
      using True sched_call [OF inv, of 0 0 Yld2 Yld3] run q \<open>q = 0\<close> by (auto simp: solo_next_def sched_upd)
    then have "yield_steps (kat (solo_next s) 0) < yield_steps (kat s 0)"
      using k q \<open>q = 0\<close> by (auto simp: solo_next_def sched_upd)
    then obtain j where "sat ((solo_next ^^ j) (solo_next s)) 0 \<noteq> sat (solo_next s) 0"
      using less.hyps solo_step(2) [OF less.prems] by blast
    then show ?thesis using True by (intro exI [of _ "Suc j"]) (simp add: funpow_swap1)
  qed
qed

lemma solo_run: "solo ((solo_next ^^ n) sched0)"
proof (induction n)
  case 0
  show ?case using sched0_reach by (simp add: solo_def sched0_def)
qed (simp add: solo_step(2))

theorem runnable_eventually_runs_witness:
  "\<exists>m. pst ((solo_next ^^ m) sched0) 0 = RUNNING"
proof -
  have "sched_run (\<lambda>n. (solo_next ^^ n) sched0)"
    using sched0_reach solo_step(1) [OF solo_run] by (auto simp: sched_run_def)
  moreover have "keeps_going (\<lambda>n. (solo_next ^^ n) sched0) 0"
    unfolding keeps_going_def
  proof
    fix n
    obtain k where "sat ((solo_next ^^ k) ((solo_next ^^ n) sched0)) 0 \<noteq> sat ((solo_next ^^ n) sched0) 0"
      using solo_moves [OF solo_run] by blast
    then show "\<exists>m\<ge>n. sat ((solo_next ^^ m) sched0) 0 \<noteq> sat ((solo_next ^^ n) sched0) 0"
      by (intro exI [of _ "k + n"]) (simp add: funpow_add)
  qed
  moreover have "pst ((solo_next ^^ 0) sched0) 0 = RUNNABLE" by (simp add: sched0_def)
  ultimately show ?thesis by (blast dest: runnable_eventually_runs)
qed

end
