(* ===== verification/Bio.thy ===== *)
theory Bio
  imports Proc_State
begin

text \<open>
  The buffer cache, \<^verbatim>\<open>kernel/bio.c\<close>: \<open>NBUF\<close> buffers on a circular doubly linked list in
  least-recently-used order. The list is kept with its \<open>prev\<close> and \<open>next\<close> pointers (indices
  of \<open>bufs\<close>, with index \<open>NBUF\<close> for the list head). The abstract view gives for every disk
  block its current contents, its reference count and its lock; the lemmas show that each
  operation changes exactly one entry of it.
\<close>

section \<open>Circular doubly linked lists\<close>

text \<open>\<open>links nx pv x ys z\<close>: from \<open>x\<close> the \<open>nx\<close> pointers lead through \<open>ys\<close> to \<open>z\<close>, and the
  \<open>pv\<close> pointers lead back.\<close>

fun links :: "('i \<Rightarrow> 'i) \<Rightarrow> ('i \<Rightarrow> 'i) \<Rightarrow> 'i \<Rightarrow> 'i list \<Rightarrow> 'i \<Rightarrow> bool" where
  "links nx pv x [] z \<longleftrightarrow> nx x = z \<and> pv z = x"
| "links nx pv x (y # ys) z \<longleftrightarrow> nx x = y \<and> pv y = x \<and> links nx pv y ys z"

lemma links_append:
  "links nx pv x (as @ b # bs) z \<longleftrightarrow> links nx pv x as b \<and> links nx pv b bs z"
  by (induction as arbitrary: x) auto

lemma links_cong:
  assumes "\<And>y. y \<in> set (x # ys) \<Longrightarrow> nx' y = nx y" and "\<And>y. y \<in> set (ys @ [z]) \<Longrightarrow> pv' y = pv y"
  shows "links nx' pv' x ys z \<longleftrightarrow> links nx pv x ys z"
  using assms by (induction ys arbitrary: x) auto

lemma links_first: "links nx pv x ys z \<Longrightarrow> nx x = hd (ys @ [z])"
  by (cases ys) auto

lemma links_last: "links nx pv x ys z \<Longrightarrow> pv z = last (x # ys)"
  by (induction ys arbitrary: x) auto

text \<open>Bridging two adjacent nodes of a list.\<close>

lemma links_join:
  assumes as: "links nx pv x as b" and bs: "links nx pv b bs z"
    and dist: "distinct (as @ b # bs)" "x \<notin> set (as @ b # bs)" "z \<notin> set (as @ b # bs)"
  shows "links (nx(pv b := nx b)) (pv(nx b := pv b)) x (as @ bs) z"
proof -
  let ?p = "pv b" and ?n = "nx b"
  have p: "?p = last (x # as)" and n: "?n = hd (bs @ [z])"
    using as bs by (simp_all only: links_last [of nx pv x as b] links_first [of nx pv b bs z])
  have left: "links (nx(?p := c)) (pv(c := ?p)) x as c"
    if "c \<notin> set as" for c
  proof (cases as rule: rev_cases)
    case Nil
    then show ?thesis using p by simp
  next
    case (snoc us u)
    then have u: "?p = u" using p by simp
    have "links nx pv x us u" using as by (simp add: snoc links_append)
    moreover have "links (nx(u := c)) (pv(c := u)) x us u \<longleftrightarrow> links nx pv x us u"
      using dist that snoc by (intro links_cong) auto
    ultimately show ?thesis by (simp add: snoc links_append u)
  qed
  show ?thesis
  proof (cases bs)
    case Nil
    then show ?thesis using left [of z] n dist by simp
  next
    case (Cons c cs)
    then have c: "?n = c" using n by simp
    have "links nx pv c cs z" using bs by (simp add: Cons)
    moreover have "links (nx(?p := c)) (pv(c := ?p)) c cs z \<longleftrightarrow> links nx pv c cs z"
      using dist Cons p by (intro links_cong) (cases as rule: rev_cases, auto)+
    ultimately show ?thesis using left [of c] dist by (simp add: Cons c links_append)
  qed
qed

lemma links_push:
  assumes "links nx pv h ys h" and "b \<notin> set (h # ys)" and "h \<notin> set ys" and "distinct ys"
  shows "links (nx(b := nx h, h := b)) (pv(b := h, nx h := b)) h (b # ys) h"
proof (cases ys)
  case Nil
  then show ?thesis using assms by auto
next
  case (Cons y zs)
  have "links (nx(b := y, h := b)) (pv(b := h, y := b)) y zs h \<longleftrightarrow> links nx pv y zs h"
    using assms Cons by (intro links_cong) auto
  then show ?thesis using assms by (auto simp: Cons)
qed

section \<open>Model\<close>

abbreviation (input) BSIZE :: nat where "BSIZE \<equiv> 1024"

record buf =
  b_valid :: bool
  b_disk :: bool
  b_dev :: u32
  b_blockno :: u32
  b_lock :: sleeplock
  b_refcnt :: u32
  b_prev :: nat
  b_next :: nat
  b_data :: "u8 list"

text \<open>
  \<open>disk\<close> is the contents of the disk, one entry per block; \<open>wtrace\<close> records the block writes
  in the order the disk carries them out, oldest first.
\<close>

record bio_state = proc_state +
  bufs :: "nat \<Rightarrow> buf"
  disk :: "u32 \<Rightarrow> u8 list"
  wtrace :: "(u32 \<times> u8 list) list"

abbreviation (input) bhead :: nat where "bhead \<equiv> NBUF"

definition upd_buf :: "nat \<Rightarrow> (buf \<Rightarrow> buf) \<Rightarrow> 'a bio_state_scheme \<Rightarrow> 'a bio_state_scheme" where
  "upd_buf b f s = s\<lparr>bufs := (bufs s)(b := f (bufs s b))\<rparr>"

definition binit_step :: "nat \<Rightarrow> 'a bio_state_scheme \<Rightarrow> 'a bio_state_scheme" where
  "binit_step b s =
     (let s1 = upd_buf b (\<lambda>x. x\<lparr>b_next := b_next (bufs s bhead)\<rparr>) s;
          s2 = upd_buf b (\<lambda>x. x\<lparr>b_prev := bhead\<rparr>) s1;
          s3 = upd_buf b (\<lambda>x. x\<lparr>b_lock := initsleeplock\<rparr>) s2;
          s4 = upd_buf (b_next (bufs s3 bhead)) (\<lambda>x. x\<lparr>b_prev := b\<rparr>) s3
      in upd_buf bhead (\<lambda>x. x\<lparr>b_next := b\<rparr>) s4)"

definition binit :: "'a bio_state_scheme \<Rightarrow> 'a bio_state_scheme" where
  "binit s =
     (let s1 = upd_buf bhead (\<lambda>x. x\<lparr>b_prev := bhead\<rparr>) s;
          s2 = upd_buf bhead (\<lambda>x. x\<lparr>b_next := bhead\<rparr>) s1
      in fold binit_step [0..<NBUF] s2)"

text \<open>
  The two scans of \<open>bget\<close>. The first argument bounds the number of buffers visited; the
  list has \<open>NBUF\<close> of them (\<open>bio_ok\<close>), so \<open>NBUF + 1\<close> always reaches the head again.
\<close>

fun scan :: "(buf \<Rightarrow> nat) \<Rightarrow> nat \<Rightarrow> (nat \<Rightarrow> buf) \<Rightarrow> (buf \<Rightarrow> bool) \<Rightarrow> nat \<Rightarrow> nat option" where
  "scan nx 0 bs P b = None"
| "scan nx (Suc n) bs P b =
     (if b = bhead then None else if P (bs b) then Some b else scan nx n bs P (nx (bs b)))"

definition buf_lock :: "nat \<Rightarrow> 'a bio_state_scheme \<Rightarrow> sleeplock" where
  "buf_lock b s = b_lock (bufs s b)"

definition set_buf_lock :: "nat \<Rightarrow> sleeplock \<Rightarrow> 'a bio_state_scheme \<Rightarrow> 'a bio_state_scheme" where
  "set_buf_lock b l = upd_buf b (\<lambda>x. x\<lparr>b_lock := l\<rparr>)"

definition bget :: "u32 \<Rightarrow> u32 \<Rightarrow> ('a bio_state_scheme, nat) M" where
  "bget dev blockno s =
     (case scan b_next (NBUF + 1) (bufs s) (\<lambda>b. b_dev b = dev \<and> b_blockno b = blockno)
        (b_next (bufs s bhead)) of
        Some b \<Rightarrow>
          thenM (acquiresleep (Chan_buf_lock b) (buf_lock b) (set_buf_lock b)) (retM b)
            (upd_buf b (\<lambda>x. x\<lparr>b_refcnt := b_refcnt x + 1\<rparr>) s)
      | None \<Rightarrow>
         (case scan b_prev (NBUF + 1) (bufs s) (\<lambda>b. b_refcnt b = 0) (b_prev (bufs s bhead)) of
            Some b \<Rightarrow>
              thenM (acquiresleep (Chan_buf_lock b) (buf_lock b) (set_buf_lock b)) (retM b)
                (upd_buf b (\<lambda>x. x\<lparr>b_dev := dev, b_blockno := blockno, b_valid := False, b_refcnt := 1\<rparr>) s)
          | None \<Rightarrow> Panic ''bget: no buffers''))"

text \<open>
  The effect of \<open>virtio_disk_rw(b, write)\<close> once the device has completed the request: a
  write stores the buffer in the block, a read fills the buffer.
\<close>

definition disk_rw :: "nat \<Rightarrow> bool \<Rightarrow> 'a bio_state_scheme \<Rightarrow> 'a bio_state_scheme" where
  "disk_rw b write s =
     (let n = b_blockno (bufs s b) in
      if write then s\<lparr>disk := (disk s)(n := b_data (bufs s b)), wtrace := wtrace s @ [(n, b_data (bufs s b))]\<rparr>
      else upd_buf b (\<lambda>x. x\<lparr>b_data := disk s n\<rparr>) s)"

definition bread :: "u32 \<Rightarrow> u32 \<Rightarrow> ('a bio_state_scheme, nat) M" where
  "bread dev blockno =
     bindM (bget dev blockno) (\<lambda>b s.
       Ret b (if \<not> b_valid (bufs s b)
              then upd_buf b (\<lambda>x. x\<lparr>b_valid := True\<rparr>) (disk_rw b False s) else s))"

definition bwrite :: "nat \<Rightarrow> ('a bio_state_scheme, unit) M" where
  "bwrite b s =
     (if \<not> holdingsleep (buf_lock b) s then Panic ''bwrite'' else Ret () (disk_rw b True s))"

definition brelse_move :: "nat \<Rightarrow> 'a bio_state_scheme \<Rightarrow> 'a bio_state_scheme" where
  "brelse_move b s =
     (let s1 = upd_buf (b_next (bufs s b)) (\<lambda>x. x\<lparr>b_prev := b_prev (bufs s b)\<rparr>) s;
          s2 = upd_buf (b_prev (bufs s1 b)) (\<lambda>x. x\<lparr>b_next := b_next (bufs s1 b)\<rparr>) s1;
          s3 = upd_buf b (\<lambda>x. x\<lparr>b_next := b_next (bufs s2 bhead)\<rparr>) s2;
          s4 = upd_buf b (\<lambda>x. x\<lparr>b_prev := bhead\<rparr>) s3;
          s5 = upd_buf (b_next (bufs s4 bhead)) (\<lambda>x. x\<lparr>b_prev := b\<rparr>) s4
      in upd_buf bhead (\<lambda>x. x\<lparr>b_next := b\<rparr>) s5)"

definition brelse :: "nat \<Rightarrow> ('a bio_state_scheme, unit) M" where
  "brelse b s =
     (if \<not> holdingsleep (buf_lock b) s then Panic ''brelse''
      else thenM (releasesleep (Chan_buf_lock b) (set_buf_lock b)) (\<lambda>s.
        let s1 = upd_buf b (\<lambda>x. x\<lparr>b_refcnt := b_refcnt x - 1\<rparr>) s in
        Ret () (if b_refcnt (bufs s1 b) = 0 then brelse_move b s1 else s1)) s)"

definition bpin :: "nat \<Rightarrow> ('a bio_state_scheme, unit) M" where
  "bpin b = modM (upd_buf b (\<lambda>x. x\<lparr>b_refcnt := b_refcnt x + 1\<rparr>))"

definition bunpin :: "nat \<Rightarrow> ('a bio_state_scheme, unit) M" where
  "bunpin b = modM (upd_buf b (\<lambda>x. x\<lparr>b_refcnt := b_refcnt x - 1\<rparr>))"

section \<open>The LRU list\<close>

definition lru :: "'a bio_state_scheme \<Rightarrow> nat list \<Rightarrow> bool" where
  "lru s xs \<longleftrightarrow>
     links (\<lambda>i. b_next (bufs s i)) (\<lambda>i. b_prev (bufs s i)) bhead xs bhead \<and>
     distinct xs \<and> set xs = {0..<NBUF}"

lemma links_rev: "links nx pv x ys z \<longleftrightarrow> links pv nx z (rev ys) x"
proof (induction ys arbitrary: x)
  case Nil
  then show ?case by auto
next
  case (Cons y ys)
  then show ?case by (auto simp: links_append)
qed

lemma scan_find:
  assumes "links (\<lambda>i. nx (bs i)) pv x ys bhead" and "bhead \<notin> set ys" and "length ys < n"
  shows "scan nx n bs P (nx (bs x)) = find (\<lambda>i. P (bs i)) ys"
  using assms
proof (induction ys arbitrary: x n)
  case Nil
  then show ?case by (cases n) auto
next
  case (Cons y ys)
  then show ?case by (cases n) auto
qed

lemma lru_length: "lru s xs \<Longrightarrow> length xs = NBUF"
  unfolding lru_def using distinct_card [of xs] by simp

lemma scan_next_lru:
  assumes "lru s xs"
  shows "scan b_next 31 (bufs s) P (b_next (bufs s bhead)) = find (\<lambda>i. P (bufs s i)) xs"
  using assms lru_length [OF assms] by (intro scan_find) (auto simp: lru_def)

lemma scan_prev_lru:
  assumes "lru s xs"
  shows "scan b_prev 31 (bufs s) P (b_prev (bufs s bhead)) = find (\<lambda>i. P (bufs s i)) (rev xs)"
  using assms lru_length [OF assms] by (intro scan_find) (auto simp: lru_def links_rev [of _ _ bhead xs])

lemma lru_upd_buf:
  assumes "\<And>x. b_next (f x) = b_next x" and "\<And>x. b_prev (f x) = b_prev x"
  shows "lru (upd_buf b f s) xs \<longleftrightarrow> lru s xs"
proof -
  have "(\<lambda>i. b_next (bufs (upd_buf b f s) i)) = (\<lambda>i. b_next (bufs s i))"
    and "(\<lambda>i. b_prev (bufs (upd_buf b f s) i)) = (\<lambda>i. b_prev (bufs s i))"
    using assms by (auto simp: upd_buf_def)
  then show ?thesis by (simp add: lru_def)
qed

text \<open>
  \<open>brelse_move\<close> takes a buffer out of the list and puts it first; everything but the links is
  unchanged.
\<close>

lemma upd_buf_next: "(\<lambda>i. b_next (bufs (upd_buf b (\<lambda>x. x\<lparr>b_next := v\<rparr>) s) i)) = (\<lambda>i. b_next (bufs s i))(b := v)"
  by (auto simp: upd_buf_def)

lemma upd_buf_prev: "(\<lambda>i. b_prev (bufs (upd_buf b (\<lambda>x. x\<lparr>b_prev := v\<rparr>) s) i)) = (\<lambda>i. b_prev (bufs s i))(b := v)"
  by (auto simp: upd_buf_def)

lemma upd_buf_next_prev: "(\<lambda>i. b_prev (bufs (upd_buf b (\<lambda>x. x\<lparr>b_next := v\<rparr>) s) i)) = (\<lambda>i. b_prev (bufs s i))"
  by (auto simp: upd_buf_def)

lemma upd_buf_prev_next: "(\<lambda>i. b_next (bufs (upd_buf b (\<lambda>x. x\<lparr>b_prev := v\<rparr>) s) i)) = (\<lambda>i. b_next (bufs s i))"
  by (auto simp: upd_buf_def)

lemmas upd_buf_links = upd_buf_next upd_buf_prev upd_buf_next_prev upd_buf_prev_next

lemma lru_brelse_move:
  assumes "lru s xs" and "b < NBUF"
  shows "lru (brelse_move b s) (b # remove1 b xs)"
proof -
  from assms have "b \<in> set xs" by (simp add: lru_def)
  then obtain as bs where xs: "xs = as @ b # bs" by (meson split_list)
  let ?nx = "\<lambda>i. b_next (bufs s i)" and ?pv = "\<lambda>i. b_prev (bufs s i)"
  let ?nx1 = "?nx(?pv b := ?nx b)" and ?pv1 = "?pv(?nx b := ?pv b)"
  have d: "distinct (as @ b # bs)" "bhead \<notin> set (as @ b # bs)" and st: "set (as @ b # bs) = {0..<NBUF}"
    using assms xs by (auto simp: lru_def)
  have l: "links ?nx ?pv bhead as b" "links ?nx ?pv b bs bhead"
    using assms(1) xs by (auto simp: lru_def links_append)
  have pb: "?pv b \<noteq> b" and nb: "?nx b \<noteq> b"
    using links_last [OF l(1)] links_first [OF l(2)] d
    by (cases as rule: rev_cases; cases bs; auto)+
  have "links ?nx1 ?pv1 bhead (as @ bs) bhead" using links_join [OF l d(1) d(2) d(2)] .
  from links_push [OF this, of b] d
  have "links (?nx1(b := ?nx1 bhead, bhead := b)) (?pv1(b := bhead, ?nx1 bhead := b)) bhead (b # as @ bs) bhead"
    by auto
  moreover have "(\<lambda>i. b_next (bufs (brelse_move b s) i)) = ?nx1(b := ?nx1 bhead, bhead := b)"
    and "(\<lambda>i. b_prev (bufs (brelse_move b s) i)) = ?pv1(b := bhead, ?nx1 bhead := b)"
    using pb nb d unfolding brelse_move_def Let_def upd_buf_links
    by (auto simp: fun_eq_iff upd_buf_def)
  moreover have "remove1 b xs = as @ bs" using d by (simp add: xs remove1_append)
  ultimately show ?thesis using d st by (auto simp: lru_def)
qed

definition same_but_links :: "buf \<Rightarrow> buf \<Rightarrow> bool" where
  "same_but_links x y \<longleftrightarrow> x = y\<lparr>b_next := b_next x, b_prev := b_prev x\<rparr>"

lemma same_but_linksD:
  assumes "same_but_links x y"
  shows "b_valid x = b_valid y" "b_dev x = b_dev y" "b_blockno x = b_blockno y" "b_lock x = b_lock y"
    "b_refcnt x = b_refcnt y" "b_data x = b_data y"
  using assms unfolding same_but_links_def by (cases x; cases y; simp)+

lemma same_but_links_upd:
  "same_but_links (bufs (upd_buf b (\<lambda>x. x\<lparr>b_next := v\<rparr>) s) i) y = same_but_links (bufs s i) y"
  "same_but_links (bufs (upd_buf b (\<lambda>x. x\<lparr>b_prev := v\<rparr>) s) i) y = same_but_links (bufs s i) y"
proof -
  have "same_but_links (x\<lparr>b_next := v\<rparr>) y = same_but_links x y"
    and "same_but_links (x\<lparr>b_prev := v\<rparr>) y = same_but_links x y" for x
    by (cases x; cases y; simp add: same_but_links_def)+
  then show "same_but_links (bufs (upd_buf b (\<lambda>x. x\<lparr>b_next := v\<rparr>) s) i) y = same_but_links (bufs s i) y"
    "same_but_links (bufs (upd_buf b (\<lambda>x. x\<lparr>b_prev := v\<rparr>) s) i) y = same_but_links (bufs s i) y"
    by (simp_all add: upd_buf_def)
qed

lemma brelse_move_frame:
  "same_but_links (bufs (brelse_move b s) i) (bufs s i)"
  unfolding brelse_move_def Let_def same_but_links_upd by (simp add: same_but_links_def)

lemma brelse_move_rest: "brelse_move b s = s\<lparr>bufs := bufs (brelse_move b s)\<rparr>"
  by (simp add: brelse_move_def Let_def upd_buf_def)

section \<open>The abstract view\<close>

text \<open>
  What the cache says about a block of device \<open>dev\<close>: its contents (of the cached copy if there
  is a valid one, otherwise of the disk), the number of references to it, and its lock.
\<close>

record blk =
  k_data :: "u8 list"
  k_refs :: u32
  k_lock :: sleeplock

definition buf_at :: "u32 \<Rightarrow> 'a bio_state_scheme \<Rightarrow> nat \<Rightarrow> u32 \<Rightarrow> bool" where
  "buf_at dev s b bn \<longleftrightarrow> b < NBUF \<and> b_dev (bufs s b) = dev \<and> b_blockno (bufs s b) = bn"

definition blk_of :: "'a bio_state_scheme \<Rightarrow> nat \<Rightarrow> blk" where
  "blk_of s b =
     (let x = bufs s b in
      \<lparr>k_data = (if b_valid x then b_data x else disk s (b_blockno x)), k_refs = b_refcnt x, k_lock = b_lock x\<rparr>)"

definition block :: "u32 \<Rightarrow> 'a bio_state_scheme \<Rightarrow> u32 \<Rightarrow> blk" where
  "block dev s bn =
     (case first_index (\<lambda>b. buf_at dev s b bn) NBUF of
        Some b \<Rightarrow> blk_of s b
      | None \<Rightarrow> \<lparr>k_data = disk s bn, k_refs = 0, k_lock = initsleeplock\<rparr>)"

text \<open>
  The invariant for a device \<open>dev\<close>: the list is an LRU list of all buffers; a block has at most
  one buffer; a buffer that is in use or holds data belongs to \<open>dev\<close>; a buffer that is not in use is
  unlocked and, if valid, agrees with the disk; blocks have \<open>BSIZE\<close> bytes.
\<close>

definition buf_ok :: "u32 \<Rightarrow> (u32 \<Rightarrow> u8 list) \<Rightarrow> buf \<Rightarrow> bool" where
  "buf_ok dev d x \<longleftrightarrow>
     (b_valid x \<or> b_refcnt x \<noteq> 0 \<longrightarrow> b_dev x = dev) \<and>
     (b_refcnt x = 0 \<longrightarrow> b_lock x = initsleeplock \<and> (b_valid x \<longrightarrow> b_data x = d (b_blockno x))) \<and>
     (b_valid x \<longrightarrow> length (b_data x) = BSIZE)"

definition bio_ok :: "u32 \<Rightarrow> 'a bio_state_scheme \<Rightarrow> bool" where
  "bio_ok dev s \<longleftrightarrow>
     (\<exists>xs. lru s xs) \<and>
     (\<forall>i j bn. buf_at dev s i bn \<longrightarrow> buf_at dev s j bn \<longrightarrow> i = j) \<and>
     (\<forall>i<NBUF. buf_ok dev (disk s) (bufs s i)) \<and>
     (\<forall>bn. length (disk s bn) = BSIZE)"

lemma bio_okD:
  assumes "bio_ok dev s"
  shows "\<exists>xs. lru s xs" and "\<And>i j bn. buf_at dev s i bn \<Longrightarrow> buf_at dev s j bn \<Longrightarrow> i = j"
    and "\<And>i. i < NBUF \<Longrightarrow> buf_ok dev (disk s) (bufs s i)" and "\<And>bn. length (disk s bn) = BSIZE"
  using assms by (auto simp: bio_ok_def)

lemma block_cached:
  assumes "bio_ok dev s" and "buf_at dev s b bn"
  shows "block dev s bn = blk_of s b"
proof -
  have "b < NBUF" using assms(2) by (simp add: buf_at_def)
  moreover have "\<not> buf_at dev s j bn" if "j < b" for j
    using bio_okD(2) [OF assms(1) _ assms(2), of j] that by blast
  ultimately have "first_index (\<lambda>b. buf_at dev s b bn) NBUF = Some b"
    using assms(2) by (simp add: first_index_Some_iff)
  then show ?thesis by (simp add: block_def)
qed

lemma block_uncached:
  assumes "\<And>b. \<not> buf_at dev s b bn"
  shows "block dev s bn = \<lparr>k_data = disk s bn, k_refs = 0, k_lock = initsleeplock\<rparr>"
  using assms by (simp add: block_def first_index_None_iff [THEN iffD2])

lemma length_block [simp]:
  assumes "bio_ok dev s"
  shows "length (k_data (block dev s bn)) = BSIZE"
proof (cases "\<exists>b. buf_at dev s b bn")
  case True
  then obtain b where b: "buf_at dev s b bn" by blast
  then have "buf_ok dev (disk s) (bufs s b)" using bio_okD(3) [OF assms] by (simp add: buf_at_def)
  then show ?thesis
    using bio_okD(4) [OF assms] by (simp add: block_cached [OF assms b] blk_of_def buf_ok_def Let_def)
next
  case False
  then show ?thesis using bio_okD(4) [OF assms] by (simp add: block_uncached)
qed

text \<open>If fewer than \<open>NBUF\<close> blocks are in use, some buffer is free.\<close>

lemma free_buffer_exists:
  assumes "bio_ok dev s" and "card {bn. k_refs (block dev s bn) \<noteq> 0} < NBUF"
  shows "\<exists>b<NBUF. b_refcnt (bufs s b) = 0"
proof (rule ccontr)
  assume "\<not> ?thesis"
  then have nz: "b_refcnt (bufs s b) \<noteq> 0" if "b < NBUF" for b using that by blast
  let ?f = "\<lambda>b. b_blockno (bufs s b)"
  have at: "buf_at dev s b (?f b)" if "b < NBUF" for b
    using bio_okD(3) [OF assms(1) that] nz [OF that] that by (simp add: buf_ok_def buf_at_def)
  have "inj_on ?f {0..<NBUF}"
  proof (rule inj_onI)
    fix i j assume "i \<in> {0..<NBUF}" "j \<in> {0..<NBUF}" "?f i = ?f j"
    then show "i = j" using bio_okD(2) [OF assms(1), of i "?f i" j] at [of i] at [of j] by simp
  qed
  moreover have "?f ` {0..<NBUF} \<subseteq> {bn. k_refs (block dev s bn) \<noteq> 0}"
    using nz by (auto simp: block_cached [OF assms(1) at] blk_of_def Let_def)
  ultimately have "NBUF \<le> card {bn. k_refs (block dev s bn) \<noteq> 0}"
    using card_inj_on_le [of ?f "{0..<NBUF}"] by (simp add: finite_subset [OF subset_UNIV])
  with assms(2) show False by simp
qed

section \<open>Operations on the abstract view\<close>

lemma bufs_upd_buf [simp]: "bufs (upd_buf b f s) = (bufs s)(b := f (bufs s b))"
  by (simp add: upd_buf_def)

lemma disk_upd_buf [simp]: "disk (upd_buf b f s) = disk s" "wtrace (upd_buf b f s) = wtrace s"
  "procs (upd_buf b f s) = procs s" "cur (upd_buf b f s) = cur s"
  by (simp_all add: upd_buf_def)

lemma myproc_upd_buf [simp]: "myproc (upd_buf b f s) = myproc s"
  by (simp add: myproc_def)

lemma upd_buf_twice [simp]: "upd_buf b f (upd_buf b g s) = upd_buf b (\<lambda>x. f (g x)) s"
  by (simp add: upd_buf_def)

text \<open>One buffer changes, and either it keeps its block or it was not in use.\<close>

lemma bio_ok_upd:
  assumes ok: "bio_ok dev s" and b: "b < NBUF"
    and links: "\<And>x. b_next (f x) = b_next x" "\<And>x. b_prev (f x) = b_prev x"
    and new: "buf_ok dev (disk s) (f (bufs s b))"
    and key: "b_dev (f (bufs s b)) = dev \<Longrightarrow> \<exists>i. buf_at dev s i (b_blockno (f (bufs s b))) \<Longrightarrow>
      buf_at dev s b (b_blockno (f (bufs s b)))"
  shows "bio_ok dev (upd_buf b f s)"
  unfolding bio_ok_def
proof (intro conjI allI impI)
  show "\<exists>xs. lru (upd_buf b f s) xs" using bio_okD(1) [OF ok] links by (simp add: lru_upd_buf)
  show "length (disk (upd_buf b f s) bn) = BSIZE" for bn using bio_okD(4) [OF ok] by simp
  show "buf_ok dev (disk (upd_buf b f s)) (bufs (upd_buf b f s) i)" if "i < NBUF" for i
    using bio_okD(3) [OF ok that] new by simp
  fix i j bn assume i: "buf_at dev (upd_buf b f s) i bn" and j: "buf_at dev (upd_buf b f s) j bn"
  have other: "buf_at dev s k bn" if "buf_at dev (upd_buf b f s) k bn" "k \<noteq> b" for k
    using that by (simp add: buf_at_def)
  have mine: "k = b" if "buf_at dev (upd_buf b f s) b bn" "buf_at dev (upd_buf b f s) k bn" for k
  proof (rule ccontr)
    assume "k \<noteq> b"
    with that other have "buf_at dev s k bn" by blast
    moreover have "b_dev (f (bufs s b)) = dev" "b_blockno (f (bufs s b)) = bn"
      using that(1) by (auto simp: buf_at_def)
    ultimately have "buf_at dev s b bn" using key by blast
    with \<open>buf_at dev s k bn\<close> bio_okD(2) [OF ok] \<open>k \<noteq> b\<close> show False by blast
  qed
  show "i = j"
  proof (cases "i = b \<or> j = b")
    case True
    then show ?thesis using mine i j by blast
  next
    case False
    then show ?thesis using other i j bio_okD(2) [OF ok] by blast
  qed
qed

lemma block_upd:
  assumes ok: "bio_ok dev s" "bio_ok dev s'"
    and s': "bufs s' = (bufs s)(b := y)" "disk s' = disk s"
    and b: "buf_at dev s' b bn" and old: "buf_at dev s b bn \<or> b_refcnt (bufs s b) = 0"
  shows "block dev s' = (block dev s)(bn := blk_of s' b)"
proof
  fix n
  have other: "buf_at dev s' i m \<longleftrightarrow> buf_at dev s i m" if "i \<noteq> b" for i m
    using that s' by (simp add: buf_at_def)
  show "block dev s' n = ((block dev s)(bn := blk_of s' b)) n"
  proof (cases "n = bn")
    case True
    then show ?thesis using block_cached [OF ok(2) b] by simp
  next
    case n: False
    then have nb: "\<not> buf_at dev s' b n" using b by (simp add: buf_at_def)
    show ?thesis
    proof (cases "\<exists>i. i \<noteq> b \<and> buf_at dev s i n")
      case True
      then obtain i where i: "i \<noteq> b" "buf_at dev s i n" by blast
      then have "block dev s' n = blk_of s' i" by (intro block_cached ok) (simp add: other)
      moreover have "blk_of s' i = blk_of s i" using i s' by (simp add: blk_of_def Let_def)
      ultimately show ?thesis using block_cached [OF ok(1) i(2)] n by simp
    next
      case False
      then have "\<not> buf_at dev s' i n" for i by (cases "i = b") (use nb other [of i n] in auto)
      then have new: "block dev s' n = \<lparr>k_data = disk s n, k_refs = 0, k_lock = initsleeplock\<rparr>"
        by (simp add: block_uncached s')
      have "block dev s n = \<lparr>k_data = disk s n, k_refs = 0, k_lock = initsleeplock\<rparr>"
      proof (cases "buf_at dev s b n")
        case True
        then have "b_refcnt (bufs s b) = 0" using old n by (auto simp: buf_at_def)
        moreover have "b < NBUF" "b_blockno (bufs s b) = n" using True by (auto simp: buf_at_def)
        ultimately show ?thesis
          using bio_okD(3) [OF ok(1), of b] by (simp add: block_cached [OF ok(1) True] blk_of_def buf_ok_def Let_def)
      next
        case nc: False
        have "\<not> buf_at dev s i n" for i using False nc by (cases "i = b") auto
        then show ?thesis by (rule block_uncached)
      qed
      then show ?thesis using new n by simp
    qed
  qed
qed

text \<open>What \<open>bget\<close> and then \<open>bread\<close> do to the buffer they return.\<close>

lemma find_lru:
  assumes "lru s xs"
  shows "find P xs = None \<longleftrightarrow> (\<forall>i<NBUF. \<not> P i)" and "find P xs = Some b \<Longrightarrow> b < NBUF \<and> P b"
    and "find P (rev xs) = None \<longleftrightarrow> (\<forall>i<NBUF. \<not> P i)" and "find P (rev xs) = Some b \<Longrightarrow> b < NBUF \<and> P b"
proof -
  have xs: "set xs = {0..<NBUF}" using assms by (simp add: lru_def)
  show "find P xs = None \<longleftrightarrow> (\<forall>i<NBUF. \<not> P i)" "find P (rev xs) = None \<longleftrightarrow> (\<forall>i<NBUF. \<not> P i)"
    using xs by (auto simp: find_None_iff)
  have "b \<in> set zs \<and> P b" if "find P zs = Some b" for zs
    using that by (auto simp: find_Some_iff)
  then show "find P xs = Some b \<Longrightarrow> b < NBUF \<and> P b" "find P (rev xs) = Some b \<Longrightarrow> b < NBUF \<and> P b"
    using xs by (metis atLeastLessThan_iff set_rev)+
qed

definition taken :: "u32 \<Rightarrow> u32 \<Rightarrow> 'a bio_state_scheme \<Rightarrow> buf \<Rightarrow> buf" where
  "taken dev bn s x = x\<lparr>b_dev := dev, b_blockno := bn, b_valid := True,
     b_refcnt := k_refs (block dev s bn) + 1, b_lock := \<lparr>sl_locked = True, sl_pid = p_pid (myproc s)\<rparr>,
     b_data := k_data (block dev s bn)\<rparr>"

lemma upd_buf_cong: "f (bufs s b) = g (bufs s b) \<Longrightarrow> upd_buf b f s = upd_buf b g s"
  by (simp add: upd_buf_def)

lemma bread_hit:
  assumes ok: "bio_ok dev s" and at: "buf_at dev s b bn" and free: "\<not> sl_locked (k_lock (block dev s bn))"
  shows "bread dev bn s = Ret b (upd_buf b (taken dev bn s) s)"
proof -
  obtain xs where xs: "lru s xs" using bio_okD(1) [OF ok] by blast
  have b: "b < NBUF" "b_dev (bufs s b) = dev" "b_blockno (bufs s b) = bn" using at by (auto simp: buf_at_def)
  have "find (\<lambda>i. b_dev (bufs s i) = dev \<and> b_blockno (bufs s i) = bn) xs = Some b"
  proof (cases "find (\<lambda>i. b_dev (bufs s i) = dev \<and> b_blockno (bufs s i) = bn) xs")
    case None
    then show ?thesis using b by (auto simp: find_lru(1) [OF xs])
  next
    case (Some i)
    then have "buf_at dev s i bn" using find_lru(2) [OF xs Some] by (simp add: buf_at_def)
    then show ?thesis using Some bio_okD(2) [OF ok _ at] by blast
  qed
  note scan = scan_next_lru [OF xs, of "\<lambda>b. b_dev b = dev \<and> b_blockno b = bn", unfolded this]
  note blk = block_cached [OF ok at]
  have "\<not> sl_locked (b_lock (bufs s b))" using free by (simp add: blk blk_of_def Let_def)
  then show ?thesis using scan b
    by (cases "bufs s b")
      (auto simp: bread_def bget_def acquiresleep_def buf_lock_def set_buf_lock_def disk_rw_def Let_def
        taken_def blk blk_of_def intro!: upd_buf_cong)
qed

lemma bread_miss:
  assumes ok: "bio_ok dev s" and miss: "\<And>i. \<not> buf_at dev s i bn"
    and free: "\<exists>b<NBUF. b_refcnt (bufs s b) = 0"
  obtains b where "b < NBUF" and "b_refcnt (bufs s b) = 0"
    and "bread dev bn s = Ret b (upd_buf b (taken dev bn s) s)"
proof -
  obtain xs where xs: "lru s xs" using bio_okD(1) [OF ok] by blast
  have "find (\<lambda>i. b_dev (bufs s i) = dev \<and> b_blockno (bufs s i) = bn) xs = None"
    using miss by (auto simp: find_lru(1) [OF xs] buf_at_def)
  note scan = scan_next_lru [OF xs, of "\<lambda>b. b_dev b = dev \<and> b_blockno b = bn", unfolded this]
  obtain b where f: "find (\<lambda>i. b_refcnt (bufs s i) = 0) (rev xs) = Some b"
    using find_lru(3) [OF xs, of "\<lambda>i. b_refcnt (bufs s i) = 0"] free by blast
  note scan' = scan_prev_lru [OF xs, of "\<lambda>b. b_refcnt b = 0", unfolded f]
  have b: "b < NBUF" "b_refcnt (bufs s b) = 0" using find_lru(4) [OF xs f] by auto
  then have "b_lock (bufs s b) = initsleeplock"
    using bio_okD(3) [OF ok b(1)] by (simp add: buf_ok_def)
  then have "bread dev bn s = Ret b (upd_buf b (taken dev bn s) s)" using scan scan'
    by (cases "bufs s b")
      (auto simp: bread_def bget_def acquiresleep_def buf_lock_def set_buf_lock_def disk_rw_def Let_def
        taken_def block_uncached [OF miss] initsleeplock_def intro!: upd_buf_cong)
  with b that show ?thesis by blast
qed

text \<open>
  The specification of \<open>bread\<close>: it returns a buffer for the block, and in the abstract view
  the block has one more reference and is locked by the caller; nothing else changes.
\<close>

definition held_by :: "'a bio_state_scheme \<Rightarrow> sleeplock" where
  "held_by s = \<lparr>sl_locked = True, sl_pid = p_pid (myproc s)\<rparr>"

lemma held_by_cong: "procs s' = procs s \<Longrightarrow> cur s' = cur s \<Longrightarrow> held_by s' = held_by s"
  by (simp add: held_by_def myproc_def)

lemma bread_spec:
  assumes ok: "bio_ok dev s" and free: "\<not> sl_locked (k_lock (block dev s bn))"
    and room: "k_refs (block dev s bn) \<noteq> 0 \<or> card {n. k_refs (block dev s n) \<noteq> 0} < NBUF"
    and nowrap: "k_refs (block dev s bn) + 1 \<noteq> 0"
  obtains b s' where "bread dev bn s = Ret b s'" and "bio_ok dev s'" and "buf_at dev s' b bn"
    and "b_valid (bufs s' b)" and "s' = s\<lparr>bufs := bufs s'\<rparr>"
    and "block dev s' = (block dev s)(bn := \<lparr>k_data = k_data (block dev s bn),
           k_refs = k_refs (block dev s bn) + 1, k_lock = held_by s\<rparr>)"
    and "\<And>i n. buf_at dev s i n \<Longrightarrow> k_refs (block dev s n) \<noteq> 0 \<Longrightarrow>
           buf_at dev s' i n \<and> (b_valid (bufs s i) \<longrightarrow> b_valid (bufs s' i))"
proof -
  obtain b where b: "b < NBUF" and r: "bread dev bn s = Ret b (upd_buf b (taken dev bn s) s)"
    and old: "buf_at dev s b bn \<or> b_refcnt (bufs s b) = 0"
    and uniq: "\<exists>i. buf_at dev s i bn \<Longrightarrow> buf_at dev s b bn"
  proof (cases "\<exists>b. buf_at dev s b bn")
    case True
    then obtain b where at: "buf_at dev s b bn" by blast
    have "bread dev bn s = Ret b (upd_buf b (taken dev bn s) s)" by (rule bread_hit [OF ok at free])
    then show ?thesis using that at by (auto simp: buf_at_def)
  next
    case False
    then have "k_refs (block dev s bn) = 0" by (simp add: block_uncached)
    then have "\<exists>b<NBUF. b_refcnt (bufs s b) = 0" using free_buffer_exists [OF ok] room by blast
    from bread_miss [OF ok _ this, of bn] False that show ?thesis by blast
  qed
  let ?s = "upd_buf b (taken dev bn s) s"
  have ok': "bio_ok dev ?s"
    by (rule bio_ok_upd [OF ok b])
      (use ok nowrap uniq in \<open>auto simp: taken_def buf_ok_def\<close>)
  have at': "buf_at dev ?s b bn" using b by (simp add: buf_at_def taken_def)
  have blk: "blk_of ?s b = \<lparr>k_data = k_data (block dev s bn),
           k_refs = k_refs (block dev s bn) + 1, k_lock = held_by s\<rparr>"
    by (simp add: blk_of_def taken_def Let_def held_by_def)
  show ?thesis
  proof (rule that [OF r ok' at'])
    show "b_valid (bufs ?s b)" by (simp add: taken_def)
    show "?s = s\<lparr>bufs := bufs ?s\<rparr>" by (simp add: upd_buf_def)
    show "block dev ?s = (block dev s)(bn := \<lparr>k_data = k_data (block dev s bn),
           k_refs = k_refs (block dev s bn) + 1, k_lock = held_by s\<rparr>)"
      using block_upd [OF ok ok' _ _ at' old] by (simp add: blk)
    show "buf_at dev ?s i n \<and> (b_valid (bufs s i) \<longrightarrow> b_valid (bufs ?s i))"
      if "buf_at dev s i n" "k_refs (block dev s n) \<noteq> 0" for i n
    proof (cases "i = b")
      case True
      then have "b_refcnt (bufs s b) \<noteq> 0"
        using that by (simp add: block_cached [OF ok that(1)] blk_of_def Let_def)
      then show ?thesis using old that True by (auto simp: buf_at_def taken_def)
    next
      case False
      then show ?thesis using that by (simp add: buf_at_def)
    qed
  qed
qed

text \<open>The view depends on the buffers and the disk only, and not on the order of the list.\<close>

lemma same_buffers:
  assumes "\<And>i. same_but_links (bufs s' i) (bufs s i)" and "disk s' = disk s"
  shows "buf_at dev s' i bn = buf_at dev s i bn" and "block dev s' bn = block dev s bn"
    and "bio_ok dev s \<Longrightarrow> \<exists>xs. lru s' xs \<Longrightarrow> bio_ok dev s'"
proof -
  note eqs = same_but_linksD [OF assms(1)]
  show at: "buf_at dev s' i bn = buf_at dev s i bn" for i bn by (simp add: buf_at_def eqs)
  have "blk_of s' b = blk_of s b" for b by (simp add: blk_of_def eqs assms(2) Let_def)
  then show "block dev s' bn = block dev s bn" by (simp add: block_def at assms(2) split: option.split)
  have "buf_ok dev (disk s') (bufs s' i) = buf_ok dev (disk s) (bufs s i)" for i
    by (simp add: buf_ok_def eqs assms(2))
  then show "bio_ok dev s \<Longrightarrow> \<exists>xs. lru s' xs \<Longrightarrow> bio_ok dev s'"
    by (simp add: bio_ok_def at assms(2))
qed

lemma same_but_links_refl [simp]: "same_but_links x x"
  by (simp add: same_but_links_def)

lemma bio_ok_same_bufs:
  assumes "bufs s' = bufs s" and "disk s' = disk s"
  shows "bio_ok dev s' = bio_ok dev s" and "block dev s' = block dev s" and "buf_at dev s' = buf_at dev s"
proof -
  have *: "same_but_links (bufs s' i) (bufs s i)" for i by (simp add: assms(1))
  have "lru s' = lru s" by (auto simp: lru_def assms(1) fun_eq_iff)
  moreover have at: "buf_at dev s' = buf_at dev s" by (simp add: buf_at_def assms(1) fun_eq_iff)
  ultimately show "bio_ok dev s' = bio_ok dev s" by (simp add: bio_ok_def assms)
  show "block dev s' = block dev s" using same_buffers(2) [OF * assms(2)] by (simp add: fun_eq_iff)
  show "buf_at dev s' = buf_at dev s" by (rule at)
qed

lemma bufs_wakeup [simp]: "bufs (wakeup c s) = bufs s" "disk (wakeup c s) = disk s" "wtrace (wakeup c s) = wtrace s"
  by (simp_all add: wakeup_def)

lemma holdingsleep_block:
  assumes "bio_ok dev s" and "buf_at dev s b bn"
  shows "holdingsleep (buf_lock b) s \<longleftrightarrow>
    sl_locked (k_lock (block dev s bn)) \<and> sl_pid (k_lock (block dev s bn)) = p_pid (myproc s)"
  by (simp add: block_cached [OF assms] holdingsleep_def buf_lock_def blk_of_def Let_def)

text \<open>A caller that holds the buffer may change its data.\<close>

lemma set_data_spec:
  assumes ok: "bio_ok dev s" and at: "buf_at dev s b bn" and v: "b_valid (bufs s b)"
    and refs: "k_refs (block dev s bn) \<noteq> 0" and d: "length d = BSIZE"
  defines "s' \<equiv> upd_buf b (\<lambda>x. x\<lparr>b_data := d\<rparr>) s"
  shows "bio_ok dev s'" and "block dev s' = (block dev s)(bn := (block dev s bn)\<lparr>k_data := d\<rparr>)"
    and "buf_at dev s' = buf_at dev s" and "b_valid (bufs s' i) = b_valid (bufs s i)"
proof -
  have b: "b < NBUF" "b_refcnt (bufs s b) \<noteq> 0"
    using at refs by (auto simp: buf_at_def block_cached [OF ok at] blk_of_def Let_def)
  show at': "buf_at dev s' = buf_at dev s" by (auto simp: s'_def buf_at_def fun_eq_iff)
  show ok': "bio_ok dev s'" unfolding s'_def
    by (rule bio_ok_upd [OF ok b(1)]) (use b d at bio_okD(3) [OF ok b(1)] in \<open>auto simp: buf_ok_def buf_at_def\<close>)
  have "block dev s' = (block dev s)(bn := blk_of s' b)"
    by (rule block_upd [OF ok ok', where y = "(bufs s b)\<lparr>b_data := d\<rparr>"]) (use at at' in \<open>auto simp: s'_def\<close>)
  moreover have "blk_of s' b = (block dev s bn)\<lparr>k_data := d\<rparr>"
    using v by (simp add: block_cached [OF ok at] blk_of_def s'_def Let_def)
  ultimately show "block dev s' = (block dev s)(bn := (block dev s bn)\<lparr>k_data := d\<rparr>)" by simp
  show "b_valid (bufs s' i) = b_valid (bufs s i)" by (simp add: s'_def)
qed

text \<open>\<open>bwrite\<close> makes the disk agree with the cached copy.\<close>

lemma bwrite_spec:
  assumes ok: "bio_ok dev s" and at: "buf_at dev s b bn" and v: "b_valid (bufs s b)"
    and held: "k_lock (block dev s bn) = held_by s"
  defines "d \<equiv> k_data (block dev s bn)"
  defines "s' \<equiv> s\<lparr>disk := (disk s)(bn := d), wtrace := wtrace s @ [(bn, d)]\<rparr>"
  shows "bwrite b s = Ret () s'" and "bio_ok dev s'" and "block dev s' = block dev s"
    and "buf_at dev s' = buf_at dev s"
proof -
  have b: "b < NBUF" "b_blockno (bufs s b) = bn" using at by (auto simp: buf_at_def)
  have d: "b_data (bufs s b) = d" using v by (simp add: d_def block_cached [OF ok at] blk_of_def Let_def)
  show "bwrite b s = Ret () s'"
    using held by (simp add: bwrite_def holdingsleep_block [OF ok at] held_by_def disk_rw_def s'_def b d Let_def)
  have at': "buf_at dev s' = buf_at dev s" by (simp add: buf_at_def s'_def fun_eq_iff)
  then show "buf_at dev s' = buf_at dev s" .
  have lru: "lru s' = lru s" by (simp add: lru_def s'_def fun_eq_iff)
  have bok: "buf_ok dev (disk s') (bufs s' i)" if "i < NBUF" for i
  proof (cases "b_valid (bufs s i) \<and> b_blockno (bufs s i) = bn")
    case True
    then have "buf_at dev s i bn"
      using bio_okD(3) [OF ok that] that by (simp add: buf_at_def buf_ok_def)
    then have "i = b" using bio_okD(2) [OF ok _ at] by blast
    then show ?thesis using bio_okD(3) [OF ok that] d True by (auto simp: buf_ok_def s'_def)
  next
    case False
    then show ?thesis using bio_okD(3) [OF ok that] by (auto simp: buf_ok_def s'_def)
  qed
  have "length d = BSIZE" using ok by (simp add: d_def)
  then have "length (disk s' n) = BSIZE" for n using bio_okD(4) [OF ok] by (simp add: s'_def)
  then show ok': "bio_ok dev s'"
    using ok bok unfolding bio_ok_def lru at' by blast
  show "block dev s' = block dev s"
  proof
    fix n
    show "block dev s' n = block dev s n"
    proof (cases "\<exists>i. buf_at dev s i n")
      case True
      then obtain i where i: "buf_at dev s i n" by blast
      then have "block dev s' n = blk_of s' i" using at' by (intro block_cached ok') simp
      moreover have "blk_of s' i = blk_of s i"
      proof (cases "i = b")
        case True
        then show ?thesis using v by (simp add: blk_of_def s'_def Let_def)
      next
        case False
        then have "n \<noteq> bn" using bio_okD(2) [OF ok i, of b] at by blast
        then show ?thesis using i by (simp add: blk_of_def s'_def Let_def buf_at_def)
      qed
      ultimately show ?thesis using block_cached [OF ok i] by simp
    next
      case False
      then have "n \<noteq> bn" using at by blast
      then show ?thesis using False at' by (simp add: block_uncached s'_def)
    qed
  qed
qed

text \<open>Changes of the reference count and the lock of a buffer.\<close>

lemma set_refs_spec:
  assumes ok: "bio_ok dev s" and at: "buf_at dev s b bn" and v: "b_valid (bufs s b)"
    and clean: "r = 0 \<Longrightarrow> l = initsleeplock \<and> k_data (block dev s bn) = disk s bn"
  defines "s' \<equiv> upd_buf b (\<lambda>x. x\<lparr>b_lock := l, b_refcnt := r\<rparr>) s"
  shows "bio_ok dev s'"
    and "block dev s' = (block dev s)(bn := (block dev s bn)\<lparr>k_refs := r, k_lock := l\<rparr>)"
    and "buf_at dev s' = buf_at dev s" and "b_valid (bufs s' i) = b_valid (bufs s i)"
proof -
  have b: "b < NBUF" using at by (simp add: buf_at_def)
  show at': "buf_at dev s' = buf_at dev s" by (auto simp: s'_def buf_at_def fun_eq_iff)
  have "k_data (block dev s bn) = b_data (bufs s b)"
    using v by (simp add: block_cached [OF ok at] blk_of_def Let_def)
  then show ok': "bio_ok dev s'" unfolding s'_def
    by (intro bio_ok_upd [OF ok b]) (use b v clean at bio_okD(3) [OF ok b] in \<open>auto simp: buf_ok_def buf_at_def\<close>)
  have "block dev s' = (block dev s)(bn := blk_of s' b)"
    by (rule block_upd [OF ok ok', where y = "(bufs s b)\<lparr>b_lock := l, b_refcnt := r\<rparr>"])
      (use at at' in \<open>auto simp: s'_def\<close>)
  moreover have "blk_of s' b = (block dev s bn)\<lparr>k_refs := r, k_lock := l\<rparr>"
    using v by (simp add: block_cached [OF ok at] blk_of_def s'_def Let_def)
  ultimately show "block dev s' = (block dev s)(bn := (block dev s bn)\<lparr>k_refs := r, k_lock := l\<rparr>)" by simp
  show "b_valid (bufs s' i) = b_valid (bufs s i)" by (simp add: s'_def)
qed

lemma refs_of_buf: "bio_ok dev s \<Longrightarrow> buf_at dev s b bn \<Longrightarrow>
    b_refcnt (bufs s b) = k_refs (block dev s bn) \<and> b_lock (bufs s b) = k_lock (block dev s bn)"
  by (simp add: block_cached blk_of_def Let_def)

lemma bpin_spec:
  assumes ok: "bio_ok dev s" and at: "buf_at dev s b bn" and v: "b_valid (bufs s b)"
    and nowrap: "k_refs (block dev s bn) + 1 \<noteq> 0"
  obtains s' where "bpin b s = Ret () s'" and "bio_ok dev s'" and "s' = s\<lparr>bufs := bufs s'\<rparr>"
    and "block dev s' = (block dev s)(bn := (block dev s bn)\<lparr>k_refs := k_refs (block dev s bn) + 1\<rparr>)"
    and "buf_at dev s' = buf_at dev s" and "\<And>i. b_valid (bufs s' i) = b_valid (bufs s i)"
proof -
  let ?s = "upd_buf b (\<lambda>x. x\<lparr>b_lock := k_lock (block dev s bn), b_refcnt := k_refs (block dev s bn) + 1\<rparr>) s"
  have "upd_buf b (\<lambda>x. x\<lparr>b_refcnt := b_refcnt x + 1\<rparr>) s = ?s"
    using refs_of_buf [OF ok at] by (intro upd_buf_cong) (metis buf.surjective buf.update_convs(5))
  then have "bpin b s = Ret () ?s" by (simp add: bpin_def)
  from that [OF this] set_refs_spec [OF ok at v, of "k_refs (block dev s bn) + 1" "k_lock (block dev s bn)"]
  show ?thesis using nowrap by (simp add: upd_buf_def)
qed

lemma bunpin_spec:
  assumes ok: "bio_ok dev s" and at: "buf_at dev s b bn" and v: "b_valid (bufs s b)"
    and more: "k_refs (block dev s bn) - 1 \<noteq> 0"
  obtains s' where "bunpin b s = Ret () s'" and "bio_ok dev s'" and "s' = s\<lparr>bufs := bufs s'\<rparr>"
    and "block dev s' = (block dev s)(bn := (block dev s bn)\<lparr>k_refs := k_refs (block dev s bn) - 1\<rparr>)"
    and "buf_at dev s' = buf_at dev s" and "\<And>i. b_valid (bufs s' i) = b_valid (bufs s i)"
proof -
  let ?s = "upd_buf b (\<lambda>x. x\<lparr>b_lock := k_lock (block dev s bn), b_refcnt := k_refs (block dev s bn) - 1\<rparr>) s"
  have "upd_buf b (\<lambda>x. x\<lparr>b_refcnt := b_refcnt x - 1\<rparr>) s = ?s"
    using refs_of_buf [OF ok at] by (intro upd_buf_cong) (metis buf.surjective buf.update_convs(5))
  then have "bunpin b s = Ret () ?s" by (simp add: bunpin_def)
  from that [OF this] set_refs_spec [OF ok at v, of "k_refs (block dev s bn) - 1" "k_lock (block dev s bn)"]
  show ?thesis using more by (simp add: upd_buf_def)
qed

text \<open>
  \<open>brelse\<close> gives up one reference and the lock. The buffer may only become free if it agrees
  with the disk.
\<close>

lemma disk_brelse_move [simp]: "disk (brelse_move b s) = disk s"
  by (simp add: brelse_move_def Let_def)

lemma brelse_spec:
  assumes ok: "bio_ok dev s" and at: "buf_at dev s b bn" and v: "b_valid (bufs s b)"
    and held: "k_lock (block dev s bn) = held_by s"
    and clean: "k_refs (block dev s bn) = 1 \<Longrightarrow> k_data (block dev s bn) = disk s bn"
  obtains s' where "brelse b s = Ret () s'" and "bio_ok dev s'"
    and "s' = s\<lparr>procs := procs (wakeup (Chan_buf_lock b) s), bufs := bufs s'\<rparr>"
    and "block dev s' = (block dev s)(bn := (block dev s bn)\<lparr>k_refs := k_refs (block dev s bn) - 1, k_lock := initsleeplock\<rparr>)"
    and "buf_at dev s' = buf_at dev s" and "\<And>i. b_valid (bufs s' i) = b_valid (bufs s i)"
proof -
  let ?c = "Chan_buf_lock b" and ?r = "k_refs (block dev s bn) - 1"
  define s1 where "s1 = upd_buf b (\<lambda>x. x\<lparr>b_lock := initsleeplock, b_refcnt := ?r\<rparr>) s"
  have 1: "bio_ok dev s1" "block dev s1 = (block dev s)(bn := (block dev s bn)\<lparr>k_refs := ?r, k_lock := initsleeplock\<rparr>)"
    "buf_at dev s1 = buf_at dev s" "b_valid (bufs s1 i) = b_valid (bufs s i)" for i
    using set_refs_spec [OF ok at v, of ?r initsleeplock] clean by (simp_all add: s1_def)
  define s2 where "s2 = s1\<lparr>procs := procs (wakeup ?c s)\<rparr>"
  have 2: "bufs s2 = bufs s1" "disk s2 = disk s1" by (simp_all add: s2_def)
  note 3 = bio_ok_same_bufs [OF 2]
  define s3 where "s3 = (if ?r = 0 then brelse_move b s2 else s2)"
  have rf: "b_refcnt (bufs s b) = k_refs (block dev s bn)" using refs_of_buf [OF ok at] by simp
  then have "upd_buf b (\<lambda>x. x\<lparr>b_refcnt := b_refcnt x - 1\<rparr>)
      (wakeup ?c (set_buf_lock b \<lparr>sl_locked = False, sl_pid = 0\<rparr> s)) = s2"
    by (simp add: s2_def s1_def set_buf_lock_def upd_buf_def wakeup_def initsleeplock_def)
  moreover have "b_refcnt (bufs (set_buf_lock b l s) b) = b_refcnt (bufs s b)" for l
    by (simp add: set_buf_lock_def)
  ultimately have r: "brelse b s = Ret () s3"
    using held by (simp add: brelse_def holdingsleep_block [OF ok at] held_by_def releasesleep_def s3_def
      Let_def rf)
  have links: "same_but_links (bufs s3 i) (bufs s2 i)" for i
    by (simp add: s3_def brelse_move_frame)
  have d: "disk s3 = disk s2" by (simp add: s3_def)
  have b: "b < NBUF" using at by (simp add: buf_at_def)
  have "\<exists>xs. lru s3 xs" using bio_okD(1) [of dev s2] 1(1) 3(1) lru_brelse_move [OF _ b] by (auto simp: s3_def)
  then have "bio_ok dev s3" using same_buffers(3) [OF links d] 1(1) 3(1) by blast
  moreover have "block dev s3 = block dev s1" "buf_at dev s3 = buf_at dev s1"
    using same_buffers(1,2) [OF links d] 3 by (simp_all add: fun_eq_iff)
  moreover have "b_valid (bufs s3 i) = b_valid (bufs s i)" for i
    using same_but_linksD(1) [OF links] 1(4) 2(1) by simp
  moreover have "s3 = s\<lparr>procs := procs (wakeup ?c s), bufs := bufs s3\<rparr>"
    using brelse_move_rest [of b s2] by (auto simp: s3_def s2_def s1_def upd_buf_def)
  ultimately show ?thesis using that [OF r] 1 by simp
qed

section \<open>Boot\<close>

lemma binit_step_frame:
  assumes "bhead \<noteq> b"
  shows "b_refcnt (bufs (binit_step b s) i) = b_refcnt (bufs s i)"
    and "b_valid (bufs (binit_step b s) i) = b_valid (bufs s i)"
    and "b_dev (bufs (binit_step b s) i) = b_dev (bufs s i)"
    and "b_lock (bufs (binit_step b s) i) = (if i = b then initsleeplock else b_lock (bufs s i))"
    and "disk (binit_step b s) = disk s"
  using assms by (auto simp: binit_step_def Let_def)

lemma binit_step_links:
  assumes "b < NBUF" and "b_next (bufs s bhead) \<noteq> b"
    and "links (\<lambda>i. b_next (bufs s i)) (\<lambda>i. b_prev (bufs s i)) bhead ys bhead"
    and "b \<notin> set ys" and "bhead \<notin> set ys" and "distinct ys"
  shows "links (\<lambda>i. b_next (bufs (binit_step b s) i)) (\<lambda>i. b_prev (bufs (binit_step b s) i))
    bhead (b # ys) bhead"
proof -
  let ?nx = "\<lambda>i. b_next (bufs s i)" and ?pv = "\<lambda>i. b_prev (bufs s i)"
  have "(\<lambda>i. b_next (bufs (binit_step b s) i)) = ?nx(b := ?nx bhead, bhead := b)"
    and "(\<lambda>i. b_prev (bufs (binit_step b s) i)) = ?pv(b := bhead, ?nx bhead := b)"
    using assms(1,2) by (auto simp: fun_eq_iff binit_step_def Let_def)
  then show ?thesis using links_push [of ?nx ?pv bhead ys b] assms by simp
qed

lemma binit_fold:
  assumes "n \<le> NBUF" and "links (\<lambda>i. b_next (bufs s i)) (\<lambda>i. b_prev (bufs s i)) bhead [] bhead"
  defines "t \<equiv> fold binit_step [0..<n] s"
  shows "links (\<lambda>i. b_next (bufs t i)) (\<lambda>i. b_prev (bufs t i)) bhead (rev [0..<n]) bhead"
    and "\<And>i. b_refcnt (bufs t i) = b_refcnt (bufs s i) \<and> b_valid (bufs t i) = b_valid (bufs s i)
      \<and> b_dev (bufs t i) = b_dev (bufs s i) \<and> (i < n \<longrightarrow> b_lock (bufs t i) = initsleeplock)"
    and "disk t = disk s"
  using assms(1) unfolding t_def
proof (induction n)
  case 0
  case 1 show ?case using assms(2) by simp
  case 2 show ?case by simp
  case 3 show ?case by simp
next
  case (Suc n)
  let ?t = "fold binit_step [0..<n] s"
  {
    case 1
    then have l: "links (\<lambda>i. b_next (bufs ?t i)) (\<lambda>i. b_prev (bufs ?t i)) bhead (rev [0..<n]) bhead"
      using Suc.IH(1) by simp
    have "b_next (bufs ?t bhead) \<noteq> n"
      using links_first [OF l] 1 by (cases n) auto
    from binit_step_links [OF _ this l] 1 show ?case by simp
  next
    case 2
    then show ?case using Suc.IH(2) binit_step_frame [of n ?t] by auto
  next
    case 3
    then show ?case using Suc.IH(3) binit_step_frame(5) [of n ?t] by simp
  }
qed

definition boot_bufs :: "'a bio_state_scheme \<Rightarrow> bool" where
  "boot_bufs s \<longleftrightarrow>
     (\<forall>i. \<not> b_valid (bufs s i) \<and> b_refcnt (bufs s i) = 0 \<and> b_dev (bufs s i) = 0) \<and>
     (\<forall>bn. length (disk s bn) = BSIZE)"

lemma binit_bufs:
  assumes "boot_bufs s"
  shows "lru (binit s) (rev [0..<NBUF])" and "disk (binit s) = disk s"
    and "b_refcnt (bufs (binit s) i) = 0" and "\<not> b_valid (bufs (binit s) i)"
    and "b_dev (bufs (binit s) i) = 0" and "i < NBUF \<Longrightarrow> b_lock (bufs (binit s) i) = initsleeplock"
proof -
  let ?s = "upd_buf bhead (\<lambda>x. x\<lparr>b_prev := bhead, b_next := bhead\<rparr>) s"
  have t: "binit s = fold binit_step [0..<NBUF] ?s"
    by (simp only: binit_def Let_def upd_buf_twice)
  note f = binit_fold [of NBUF ?s, folded t]
  show "lru (binit s) (rev [0..<NBUF])" using f(1) by (auto simp: lru_def)
  show "disk (binit s) = disk s" using f(3) by simp
  show "b_refcnt (bufs (binit s) i) = 0" "\<not> b_valid (bufs (binit s) i)" "b_dev (bufs (binit s) i) = 0"
    "i < NBUF \<Longrightarrow> b_lock (bufs (binit s) i) = initsleeplock"
    using f(2) [of i] assms by (auto simp: boot_bufs_def split: if_splits)
qed

lemma binit_bio_ok:
  assumes "boot_bufs s" and "dev \<noteq> 0"
  shows "bio_ok dev (binit s)" and "disk (binit s) = disk s" and "\<not> buf_at dev (binit s) i bn"
    and "block dev (binit s) bn = \<lparr>k_data = disk s bn, k_refs = 0, k_lock = initsleeplock\<rparr>"
proof -
  note fr = binit_bufs [OF assms(1)]
  show na: "\<not> buf_at dev (binit s) i n" for i n using fr assms(2) by (simp add: buf_at_def)
  show d: "disk (binit s) = disk s" by (rule fr(2))
  show "bio_ok dev (binit s)"
    using fr na assms(1) unfolding bio_ok_def buf_ok_def boot_bufs_def by auto
  show "block dev (binit s) bn = \<lparr>k_data = disk s bn, k_refs = 0, k_lock = initsleeplock\<rparr>"
    using na d by (simp add: block_uncached)
qed

section \<open>Properties\<close>

text \<open>
  C14: \<open>bread\<close> refines a read of the abstract block store. If the block is not locked and
  fewer than \<open>NBUF\<close> blocks are in use, it returns a locked buffer whose data is the current
  contents of the block; in the abstract view exactly this block changes, by one more reference
  and the lock, and the cache invariant (one buffer per block, LRU list of all buffers, free
  buffers agree with the disk) is kept.
\<close>

theorem bread_refines_block_read:
  assumes "bio_ok dev s" and "\<not> sl_locked (k_lock (block dev s bn))"
    and "card {n. k_refs (block dev s n) \<noteq> 0} < NBUF" and "k_refs (block dev s bn) + 1 \<noteq> 0"
  shows "\<exists>b s'. bread dev bn s = Ret b s' \<and> bio_ok dev s' \<and> b_blockno (bufs s' b) = bn \<and>
    b_data (bufs s' b) = k_data (block dev s bn) \<and> disk s' = disk s \<and>
    block dev s' = (block dev s)(bn := \<lparr>k_data = k_data (block dev s bn),
      k_refs = k_refs (block dev s bn) + 1, k_lock = held_by s\<rparr>)"
proof -
  obtain b s' where r: "bread dev bn s = Ret b s'" "bio_ok dev s'" "buf_at dev s' b bn"
    "b_valid (bufs s' b)" "s' = s\<lparr>bufs := bufs s'\<rparr>"
    "block dev s' = (block dev s)(bn := \<lparr>k_data = k_data (block dev s bn),
      k_refs = k_refs (block dev s bn) + 1, k_lock = held_by s\<rparr>)"
    using bread_spec [of dev s bn] assms by metis
  from block_cached [OF r(2,3)] r(4,6) have "b_data (bufs s' b) = k_data (block dev s bn)"
    by (simp add: blk_of_def Let_def)
  moreover have "disk s' = disk s" by (subst r(5)) simp
  ultimately show ?thesis using r by (auto simp: buf_at_def)
qed

text \<open>The state at boot with a zeroed disk, as an example.\<close>

definition zero_buf :: buf where
  "zero_buf = \<lparr>b_valid = False, b_disk = False, b_dev = 0, b_blockno = 0, b_lock = initsleeplock,
     b_refcnt = 0, b_prev = 0, b_next = 0, b_data = replicate BSIZE 0\<rparr>"

definition zero_proc :: proc where
  "zero_proc = \<lparr>p_state = UNUSED, p_chan = Chan_none, p_killed = 0, p_xstate = 0, p_pid = 0,
     p_parent = None, p_kstack = 0, p_sz = 0, p_pagetable = 0, p_trapframe = 0,
     p_context = \<lparr>c_ra = 0, c_sp = 0, c_s = (\<lambda>_. 0)\<rparr>, p_ofile = (\<lambda>_. None), p_cwd = None, p_name = replicate 16 0\<rparr>"

definition zero_bio :: bio_state where
  "zero_bio = \<lparr>mem = (\<lambda>_. 0), freelist = 0, kend = 0x80022000, etext = 0x80008000, trampoline = 0x80007000,
     kernel_pagetable = 0, satp = 0, procs = (\<lambda>_. zero_proc), cur = 0,
     nextpid = 1, initproc = 0, ticks = 0, bufs = (\<lambda>_. zero_buf), disk = (\<lambda>_. replicate BSIZE 0), wtrace = []\<rparr>"

lemma boot_bufs_zero_bio: "boot_bufs zero_bio"
  by (simp add: boot_bufs_def zero_bio_def zero_buf_def)

theorem bread_refines_block_read_witness:
  "bio_ok ROOTDEV (binit zero_bio) \<and>
   (\<exists>b s'. bread ROOTDEV 7 (binit zero_bio) = Ret b s' \<and> bio_ok ROOTDEV s' \<and> b_blockno (bufs s' b) = 7 \<and>
     b_data (bufs s' b) = k_data (block ROOTDEV (binit zero_bio) 7) \<and> disk s' = disk (binit zero_bio) \<and>
     block ROOTDEV s' = (block ROOTDEV (binit zero_bio))(7 := \<lparr>k_data = k_data (block ROOTDEV (binit zero_bio) 7),
       k_refs = k_refs (block ROOTDEV (binit zero_bio) 7) + 1, k_lock = held_by (binit zero_bio)\<rparr>))"
proof
  note boot = binit_bio_ok [OF boot_bufs_zero_bio, of ROOTDEV]
  show ok: "bio_ok ROOTDEV (binit zero_bio)" using boot(1) by simp
  show "\<exists>b s'. bread ROOTDEV 7 (binit zero_bio) = Ret b s' \<and> bio_ok ROOTDEV s' \<and> b_blockno (bufs s' b) = 7 \<and>
     b_data (bufs s' b) = k_data (block ROOTDEV (binit zero_bio) 7) \<and> disk s' = disk (binit zero_bio) \<and>
     block ROOTDEV s' = (block ROOTDEV (binit zero_bio))(7 := \<lparr>k_data = k_data (block ROOTDEV (binit zero_bio) 7),
       k_refs = k_refs (block ROOTDEV (binit zero_bio) 7) + 1, k_lock = held_by (binit zero_bio)\<rparr>)"
    by (rule bread_refines_block_read [OF ok]) (simp_all add: boot(4) initsleeplock_def)
qed

end
