(* ===== verification/Bio_View.thy ===== *)
theory Bio_View
  imports Bio
begin

text \<open>
  The buffer cache as its clients use it: each operation of \<^verbatim>\<open>kernel/bio.c\<close> as a step on the
  abstract view of the blocks, with everything it leaves alone stated once as a frame.
\<close>

section \<open>Frames\<close>

text \<open>\<open>bio_frame s s'\<close>: only the cache, the disk and the scheduling states of processes differ.\<close>

definition bio_frame :: "'a bio_state_scheme \<Rightarrow> 'a bio_state_scheme \<Rightarrow> bool" where
  "bio_frame s s' \<longleftrightarrow>
     (\<exists>ps bs d w. s' = s\<lparr>procs := ps, bufs := bs, disk := d, wtrace := w\<rparr> \<and>
        (\<forall>i. ps i = (procs s i)\<lparr>p_state := p_state (ps i)\<rparr>) \<and> ps (cur s) = procs s (cur s))"

lemma bio_frameI:
  "s' = s\<lparr>procs := ps, bufs := bs, disk := d, wtrace := w\<rparr> \<Longrightarrow>
   (\<And>i. ps i = (procs s i)\<lparr>p_state := p_state (ps i)\<rparr>) \<Longrightarrow> ps (cur s) = procs s (cur s) \<Longrightarrow> bio_frame s s'"
  unfolding bio_frame_def by blast

lemma bio_frame_refl [simp]: "bio_frame s s"
  by (rule bio_frameI [where ps = "procs s" and bs = "bufs s" and d = "disk s" and w = "wtrace s"]) simp_all

lemma bio_frame_trans:
  assumes "bio_frame s t" and "bio_frame t u"
  shows "bio_frame s u"
proof -
  obtain ps bs d w where t: "t = s\<lparr>procs := ps, bufs := bs, disk := d, wtrace := w\<rparr>"
    "\<And>i. ps i = (procs s i)\<lparr>p_state := p_state (ps i)\<rparr>" "ps (cur s) = procs s (cur s)" using assms(1) by (auto simp: bio_frame_def)
  obtain ps' bs' d' w' where u: "u = t\<lparr>procs := ps', bufs := bs', disk := d', wtrace := w'\<rparr>"
    "\<And>i. ps' i = (procs t i)\<lparr>p_state := p_state (ps' i)\<rparr>" "ps' (cur t) = procs t (cur t)" using assms(2) by (auto simp: bio_frame_def)
  show ?thesis
  proof (rule bio_frameI)
    show "u = s\<lparr>procs := ps', bufs := bs', disk := d', wtrace := w'\<rparr>" using t(1) u(1) by simp
    show "ps' i = (procs s i)\<lparr>p_state := p_state (ps' i)\<rparr>" for i
    proof -
      have "ps' i = (ps i)\<lparr>p_state := p_state (ps' i)\<rparr>" using u(2) [of i] t(1) by simp
      moreover have "ps i = (procs s i)\<lparr>p_state := p_state (ps i)\<rparr>" by (rule t(2))
      ultimately show ?thesis by (metis proc.update_convs(1) proc.surjective)
    qed
    show "ps' (cur s) = procs s (cur s)" using u(3) t(1,3) by simp
  qed
qed

lemma bio_frameD:
  assumes "bio_frame s s'"
  shows "cur s' = cur s" and "myproc s' = myproc s" and "held_by s' = held_by s" and "mem s' = mem s"
  using assms by (auto simp: bio_frame_def myproc_def held_by_def)

lemma bio_frame_bufs: "s' = s\<lparr>bufs := bs\<rparr> \<Longrightarrow> bio_frame s s'"
  by (rule bio_frameI [where ps = "procs s" and bs = bs and d = "disk s" and w = "wtrace s"]) simp_all

lemma bio_frame_disk: "s' = s\<lparr>disk := d, wtrace := w\<rparr> \<Longrightarrow> bio_frame s s'"
  by (rule bio_frameI [where ps = "procs s" and bs = "bufs s" and d = d and w = w]) simp_all

lemma bio_frame_wakeup: "s' = s\<lparr>procs := procs (wakeup c s), bufs := bs\<rparr> \<Longrightarrow> bio_frame s s'"
  by (rule bio_frameI [where ps = "procs (wakeup c s)" and bs = bs and d = "disk s" and w = "wtrace s"])
    (simp_all add: wakeup_def Let_def)

text \<open>
  The operations of the cache again, over the abstract view: \<open>bst dev s K d w\<close> says that the
  view is \<open>K\<close>, the disk \<open>d\<close> and the trace of writes \<open>w\<close>; \<open>bufv dev s b bn\<close> that \<open>b\<close> is a valid
  buffer for block \<open>bn\<close>.
\<close>

definition bst :: "u32 \<Rightarrow> 'a bio_state_scheme \<Rightarrow> (u32 \<Rightarrow> blk) \<Rightarrow> (u32 \<Rightarrow> u8 list) \<Rightarrow> (u32 \<times> u8 list) list \<Rightarrow> bool" where
  "bst dev s K d w \<longleftrightarrow> bio_ok dev s \<and> block dev s = K \<and> disk s = d \<and> wtrace s = w"

definition bufv :: "u32 \<Rightarrow> 'a bio_state_scheme \<Rightarrow> nat \<Rightarrow> u32 \<Rightarrow> bool" where
  "bufv dev s b bn \<longleftrightarrow> buf_at dev s b bn \<and> b_valid (bufs s b)"

definition in_use :: "(u32 \<Rightarrow> blk) \<Rightarrow> u32 set" where
  "in_use K = {n. k_refs (K n) \<noteq> 0}"

lemma bst_length: "bst dev s K d w \<Longrightarrow> length (k_data (K bn)) = BSIZE"
  by (auto simp: bst_def)

lemma bst_clean: "bst dev s K d w \<Longrightarrow> k_refs (K bn) = 0 \<Longrightarrow> k_data (K bn) = d bn"
proof -
  assume a: "bst dev s K d w" "k_refs (K bn) = 0"
  then have ok: "bio_ok dev s" by (simp add: bst_def)
  show ?thesis
  proof (cases "\<exists>b. buf_at dev s b bn")
    case True
    then obtain b where b: "buf_at dev s b bn" by blast
    then have "buf_ok dev (disk s) (bufs s b)" by (intro bio_okD(3) [OF ok]) (simp add: buf_at_def)
    with a b show ?thesis using block_cached [OF ok b] refs_of_buf [OF ok b]
      by (auto simp: bst_def buf_ok_def blk_of_def Let_def buf_at_def)
  next
    case False
    then have "block dev s bn = \<lparr>k_data = disk s bn, k_refs = 0, k_lock = initsleeplock\<rparr>"
      by (intro block_uncached) blast
    with a show ?thesis by (auto simp: bst_def)
  qed
qed

lemma bufv_data: "bst dev s K d w \<Longrightarrow> bufv dev s b bn \<Longrightarrow> b_data (bufs s b) = k_data (K bn)"
  by (auto simp: bst_def bufv_def block_cached blk_of_def Let_def)

lemma bread_bst:
  assumes "bst dev s K d w" and "K bn = \<lparr>k_data = x, k_refs = r, k_lock = l\<rparr>" and "\<not> sl_locked l"
    and "r \<noteq> 0 \<or> card (in_use K) < NBUF" and "r + 1 \<noteq> 0"
  obtains b s' where "bread dev bn s = Ret b s'" and "bufv dev s' b bn" and "bio_frame s s'"
    and "bst dev s' (K(bn := \<lparr>k_data = x, k_refs = r + 1, k_lock = held_by s\<rparr>)) d w"
    and "\<And>i n. bufv dev s i n \<Longrightarrow> k_refs (K n) \<noteq> 0 \<Longrightarrow> bufv dev s' i n"
proof -
  from assms have ok: "bio_ok dev s" and K: "block dev s = K" by (auto simp: bst_def)
  from assms have "\<not> sl_locked (k_lock (block dev s bn))"
    "k_refs (block dev s bn) \<noteq> 0 \<or> card {n. k_refs (block dev s n) \<noteq> 0} < NBUF"
    "k_refs (block dev s bn) + 1 \<noteq> 0" unfolding K in_use_def by simp_all
  from bread_spec [OF ok this] obtain b s' where r: "bread dev bn s = Ret b s'" "bio_ok dev s'"
    "buf_at dev s' b bn" "b_valid (bufs s' b)" and s': "s' = s\<lparr>bufs := bufs s'\<rparr>"
    and blk: "block dev s' = (block dev s)(bn := \<lparr>k_data = k_data (block dev s bn),
           k_refs = k_refs (block dev s bn) + 1, k_lock = held_by s\<rparr>)"
    and keep: "\<And>i n. buf_at dev s i n \<Longrightarrow> k_refs (block dev s n) \<noteq> 0 \<Longrightarrow>
           buf_at dev s' i n \<and> (b_valid (bufs s i) \<longrightarrow> b_valid (bufs s' i))" by metis
  have "disk s' = disk s" "wtrace s' = wtrace s" by (subst s', simp)+
  then have "bst dev s' (K(bn := \<lparr>k_data = x, k_refs = r + 1, k_lock = held_by s\<rparr>)) d w"
    using assms(1,2) r(2) blk by (auto simp: bst_def)
  then show ?thesis using that [OF r(1)] r keep K s' by (auto simp: bufv_def intro: bio_frame_bufs)
qed

lemma set_data_bst:
  assumes "bst dev s K d w" and "bufv dev s b bn" and "K bn = \<lparr>k_data = y, k_refs = r, k_lock = l\<rparr>"
    and "r \<noteq> 0" and "length x = BSIZE"
  defines "s' \<equiv> upd_buf b (\<lambda>z. z\<lparr>b_data := x\<rparr>) s"
  shows "bst dev s' (K(bn := \<lparr>k_data = x, k_refs = r, k_lock = l\<rparr>)) d w"
    and "bufv dev s' = bufv dev s" and "bio_frame s s'"
proof -
  have ok: "bio_ok dev s" and at: "buf_at dev s b bn" "b_valid (bufs s b)" and K: "block dev s = K"
    using assms by (auto simp: bst_def bufv_def)
  have refs: "k_refs (block dev s bn) \<noteq> 0" using assms K by simp
  note sp = set_data_spec [OF ok at refs assms(5), folded s'_def]
  show "bst dev s' (K(bn := \<lparr>k_data = x, k_refs = r, k_lock = l\<rparr>)) d w"
    using assms(1,3) sp(1,2) K by (auto simp: bst_def s'_def)
  show "bufv dev s' = bufv dev s" using sp(3,4) by (simp add: bufv_def fun_eq_iff)
  show "bio_frame s s'" by (rule bio_frame_bufs) (simp add: s'_def upd_buf_def)
qed

lemma bwrite_bst:
  assumes "bst dev s K d w" and "bufv dev s b bn" and "k_lock (K bn) = held_by s"
  obtains s' where "bwrite b s = Ret () s'" and "bst dev s' K (d(bn := k_data (K bn))) (w @ [(bn, k_data (K bn))])"
    and "bufv dev s' = bufv dev s" and "bio_frame s s'"
proof -
  have ok: "bio_ok dev s" and at: "buf_at dev s b bn" "b_valid (bufs s b)" and K: "block dev s = K"
    using assms by (auto simp: bst_def bufv_def)
  have "k_lock (block dev s bn) = held_by s" using assms K by simp
  note sp = bwrite_spec [OF ok at this]
  show ?thesis
  proof (rule that [OF sp(1)])
    show "bio_frame s (s\<lparr>disk := (disk s)(bn := k_data (block dev s bn)), wtrace := wtrace s @ [(bn, k_data (block dev s bn))]\<rparr>)"
      by (rule bio_frame_disk) simp
  qed (use sp(2-4) assms(1) in \<open>auto simp: bst_def bufv_def fun_eq_iff\<close>)
qed

lemma brelse_bst:
  assumes "bst dev s K d w" and "bufv dev s b bn" and "K bn = \<lparr>k_data = x, k_refs = r, k_lock = held_by s\<rparr>"
    and "r = 1 \<Longrightarrow> x = d bn"
  obtains s' where "brelse b s = Ret () s'"
    and "bst dev s' (K(bn := \<lparr>k_data = x, k_refs = r - 1, k_lock = initsleeplock\<rparr>)) d w"
    and "bufv dev s' = bufv dev s" and "bio_frame s s'"
proof -
  have ok: "bio_ok dev s" and at: "buf_at dev s b bn" "b_valid (bufs s b)" and K: "block dev s = K"
    using assms by (auto simp: bst_def bufv_def)
  have "k_lock (block dev s bn) = held_by s" "k_refs (block dev s bn) = 1 \<Longrightarrow> k_data (block dev s bn) = disk s bn"
    using assms K by (auto simp: bst_def)
  from brelse_spec [OF ok at this] obtain s' where r: "brelse b s = Ret () s'" "bio_ok dev s'"
    and s': "s' = s\<lparr>procs := procs (wakeup (Chan_buf_lock b) s), bufs := bufs s'\<rparr>"
    and blk: "block dev s' = (block dev s)(bn := (block dev s bn)\<lparr>k_refs := k_refs (block dev s bn) - 1, k_lock := initsleeplock\<rparr>)"
    and at': "buf_at dev s' = buf_at dev s" "\<And>i. b_valid (bufs s' i) = b_valid (bufs s i)" by metis
  have "disk s' = disk s" "wtrace s' = wtrace s" by (subst s', simp)+
  then have "bst dev s' (K(bn := \<lparr>k_data = x, k_refs = r - 1, k_lock = initsleeplock\<rparr>)) d w"
    using assms(1,3) r(2) blk by (auto simp: bst_def)
  then show ?thesis using that [OF r(1)] at' s' by (auto simp: bufv_def fun_eq_iff intro: bio_frame_wakeup)
qed

lemma bunpin_bst:
  assumes "bst dev s K d w" and "bufv dev s b bn" and "K bn = \<lparr>k_data = x, k_refs = r, k_lock = l\<rparr>"
    and "r - 1 \<noteq> 0"
  obtains s' where "bunpin b s = Ret () s'"
    and "bst dev s' (K(bn := \<lparr>k_data = x, k_refs = r - 1, k_lock = l\<rparr>)) d w"
    and "bufv dev s' = bufv dev s" and "bio_frame s s'"
proof -
  have ok: "bio_ok dev s" and at: "buf_at dev s b bn" "b_valid (bufs s b)" and K: "block dev s = K"
    using assms by (auto simp: bst_def bufv_def)
  have "k_refs (block dev s bn) - 1 \<noteq> 0" using assms K by simp
  from bunpin_spec [OF ok at this] obtain s' where r: "bunpin b s = Ret () s'" "bio_ok dev s'"
    and s': "s' = s\<lparr>bufs := bufs s'\<rparr>"
    and blk: "block dev s' = (block dev s)(bn := (block dev s bn)\<lparr>k_refs := k_refs (block dev s bn) - 1\<rparr>)"
    and at': "buf_at dev s' = buf_at dev s" "\<And>i. b_valid (bufs s' i) = b_valid (bufs s i)" by metis
  have "disk s' = disk s" "wtrace s' = wtrace s" by (subst s', simp)+
  then have "bst dev s' (K(bn := \<lparr>k_data = x, k_refs = r - 1, k_lock = l\<rparr>)) d w"
    using assms(1,3) r(2) blk by (auto simp: bst_def)
  then show ?thesis using that [OF r(1)] at' s' by (auto simp: bufv_def fun_eq_iff intro: bio_frame_bufs)
qed

end
