(* ===== verification/Crash.thy ===== *)
theory Crash
  imports Log
begin

text \<open>
  Correctness of the redo log of \<^verbatim>\<open>kernel/log.c\<close>: the exact sequence of disk writes of a
  commit, the effect of recovery on any disk, and from the two the crash-safety theorem. Then
  the bounds of a transaction: what \<open>begin_op\<close> admits and what \<open>log_write\<close> accepts.
\<close>

section \<open>Commit\<close>

definition log_ok :: "'a log_state_scheme \<Rightarrow> bool" where
  "log_ok s \<longleftrightarrow>
     bio_ok (log_dev s) s \<and> 0 \<le> lh_n (lh s) \<and>
     at_rest (log_start s) (nat (log_size s)) (homes (lh s)) (block (log_dev s) s) \<and>
     header_homes (disk s (log_start s)) = []"

definition commit_writes :: "'a log_state_scheme \<Rightarrow> (u32 \<times> u8 list) list" where
  "commit_writes s =
     (let hs = homes (lh s); K = block (log_dev s) s; start = log_start s;
          x1 = put_header (lh s) (k_data (K start)); x0 = put_header ((lh s)\<lparr>lh_n := 0\<rparr>) x1
      in if lh_n (lh s) > 0
         then log_writes start hs K (length hs) @ [(start, x1)] @
              map (\<lambda>h. (h, k_data (K h))) hs @ [(start, x0)]
         else [])"

lemma bst_lh: "bst dev (s\<lparr>lh := h\<rparr>) K d w = bst dev s K d w"
  using bio_ok_same_bufs [of "s\<lparr>lh := h\<rparr>" s dev] by (simp add: bst_def)

lemma bio_frame_lh: "bio_frame s t \<Longrightarrow> bio_frame (s\<lparr>lh := h\<rparr>) (t\<lparr>lh := h\<rparr>)"
proof -
  have "s\<lparr>procs := ps, bufs := bs, disk := d, wtrace := w, lh := h\<rparr> = s\<lparr>lh := h, procs := ps, bufs := bs, disk := d, wtrace := w\<rparr>" for ps bs d w
    by (cases s) simp
  moreover assume "bio_frame s t"
  then obtain ps bs d w where "t = s\<lparr>procs := ps, bufs := bs, disk := d, wtrace := w\<rparr>"
    "\<And>i. ps i = (procs s i)\<lparr>p_state := p_state (ps i)\<rparr>" "ps (cur s) = procs s (cur s)"
    by (auto simp: bio_frame_def)
  ultimately show ?thesis
    by (intro bio_frameI [where ps = ps and bs = bs and d = d and w = w]) simp_all
qed

lemma start_in_area: "0 < L \<Longrightarrow> start \<in> log_area start L"
  by (simp add: log_area_def)

lemma clear_head_spec:
  fixes s :: "'a log_state_scheme"
  assumes st: "bst (log_dev s) s K d w" and K: "K (log_start s) = \<lparr>k_data = x, k_refs = 0, k_lock = initsleeplock\<rparr>"
    and room: "card (in_use K) < NBUF"
  defines "h0 \<equiv> (lh s)\<lparr>lh_n := 0\<rparr>"
  defines "y \<equiv> put_header h0 x"
  shows "\<exists>s'. clear_head s = Ret () s' \<and> bio_frame (s\<lparr>lh := h0\<rparr>) s' \<and>
    bst (log_dev s) s' (K(log_start s := \<lparr>k_data = y, k_refs = 0, k_lock = initsleeplock\<rparr>))
      (d(log_start s := y)) (w @ [(log_start s, y)])"
proof -
  let ?s = "s\<lparr>lh := h0\<rparr>"
  have "length x = BSIZE" using bst_length [OF st, of "log_start s"] K by simp
  then have y: "length y = BSIZE" by (simp add: y_def length_put_header h0_def)
  obtain s' where "write_head ?s = Ret () s'" "bio_frame ?s s'"
    "bst (log_dev ?s) s' (K(log_start s := \<lparr>k_data = y, k_refs = 0, k_lock = initsleeplock\<rparr>))
      (d(log_start s := y)) (w @ [(log_start s, y)])"
    by (rule write_head_spec [of ?s K d w "log_start s" x y]) (use st K y room in \<open>simp_all add: bst_lh y_def\<close>)
  then show ?thesis by (auto simp: clear_head_def h0_def)
qed

abbreviation (input) clean_blk :: "u8 list \<Rightarrow> blk" where
  "clean_blk x \<equiv> \<lparr>k_data = x, k_refs = 0, k_lock = initsleeplock\<rparr>"

lemma at_rest_upd:
  "at_rest start L hs K \<Longrightarrow> b \<notin> set hs \<Longrightarrow> at_rest start L hs (K(b := clean_blk x))"
  by (simp add: at_rest_def)

lemma at_rest_apply_clean:
  "at_rest start L hs K \<Longrightarrow> fst ` set ws \<inter> set hs = {} \<Longrightarrow> at_rest start L hs (apply_clean K ws)"
proof (induction ws rule: rev_induct)
  case (snoc p ws)
  then show ?case by (cases p) (auto intro: at_rest_upd [unfolded fun_upd_def])
qed simp

lemma start_not_home:
  "at_rest start L hs K \<Longrightarrow> start \<notin> set hs"
  using start_in_area [of L start] by (auto simp: at_rest_def)

lemma log_writes_dom: "fst ` set (log_writes start hs K n) = logblk start ` {0..<n}"
  by (auto simp: log_writes_def image_image)

lemma log_writes_apart:
  assumes "at_rest start L hs K"
  shows "start \<notin> fst ` set (log_writes start hs K (length hs))"
    and "fst ` set (log_writes start hs K (length hs)) \<inter> set hs = {}"
proof -
  have "i < LOGSIZE" if "i < length hs" for i using assms that by (simp add: at_rest_def)
  then show "start \<notin> fst ` set (log_writes start hs K (length hs))"
    unfolding log_writes_dom by (metis atLeastLessThan_iff imageE logblk_not_start)
  show "fst ` set (log_writes start hs K (length hs)) \<inter> set hs = {}"
    unfolding log_writes_dom using logblk_not_home [OF assms] by auto
qed

text \<open>Up to the header write: the copies are in the log, nothing else has changed.\<close>

lemma commit_log_phase:
  assumes st: "bst (log_dev s) s K d w" and hs: "hs = homes (lh s)" and le: "lh_n (lh s) \<le> int LOGSIZE"
    and rest: "at_rest (log_start s) L hs K"
  defines "x1 \<equiv> put_header (lh s) (k_data (K (log_start s)))"
  defines "W \<equiv> log_writes (log_start s) hs K (length hs) @ [(log_start s, x1)]"
  shows "\<exists>s'. thenM write_log write_head s = Ret () s' \<and> bio_frame s s' \<and>
    bst (log_dev s) s' (apply_clean K W) (apply_writes d W) (w @ W)"
proof -
  let ?st = "log_start s" and ?W1 = "log_writes (log_start s) hs K (length hs)"
  obtain s1 where s1: "write_log s = Ret () s1" "bio_frame s s1"
    "bst (log_dev s) s1 (apply_clean K ?W1) (apply_writes d ?W1) (w @ ?W1)"
    using write_log_loop [OF st hs rest order_refl] by (auto simp: write_log_def hs length_homes)
  note eq1 = bio_frame_logD [OF s1(2)]
  have K1: "apply_clean K ?W1 ?st = clean_blk (k_data (K ?st))"
    using at_rest_blk [OF rest, of ?st] start_not_home [OF rest] log_writes_apart(1) [OF rest]
    by (simp add: apply_clean_other)
  have len: "length x1 = BSIZE" using bst_length [OF st] le by (simp add: x1_def length_put_header)
  have room: "card (in_use (apply_clean K ?W1)) < NBUF"
    using at_rest_in_use(2) [OF at_rest_apply_clean [OF rest log_writes_apart(2) [OF rest]]] .
  obtain s2 where "write_head s1 = Ret () s2" "bio_frame s1 s2"
    "bst (log_dev s) s2 ((apply_clean K ?W1)(?st := clean_blk x1)) ((apply_writes d ?W1)(?st := x1)) ((w @ ?W1) @ [(?st, x1)])"
    by (rule write_head_spec [of s1 "apply_clean K ?W1" "apply_writes d ?W1" "w @ ?W1" ?st "k_data (K ?st)" x1])
      (use s1(3) eq1 K1 len room in \<open>simp_all add: x1_def\<close>)
  then show ?thesis using s1 bio_frame_trans [of s s1 s2] by (simp add: W_def fun_upd_def)
qed

text \<open>After it: the copies go to their home blocks and the header is cleared.\<close>

lemma commit_install_phase:
  assumes st: "bst (log_dev s) s K d w" and hs: "hs = homes (lh s)" and rest: "at_rest (log_start s) L hs K"
    and K: "K (log_start s) = clean_blk x1"
  defines "x0 \<equiv> put_header ((lh s)\<lparr>lh_n := 0\<rparr>) x1"
  defines "W \<equiv> home_writes (log_start s) hs K (length hs) @ [(log_start s, x0)]"
  shows "\<exists>s'. thenM (install_trans False) clear_head s = Ret () s' \<and> bio_frame (s\<lparr>lh := (lh s)\<lparr>lh_n := 0\<rparr>\<rparr>) s' \<and>
    bst (log_dev s) s' (apply_clean K W) (apply_writes d W) (w @ W)"
proof -
  let ?st = "log_start s" and ?W3 = "home_writes (log_start s) hs K (length hs)" and ?h0 = "(lh s)\<lparr>lh_n := 0\<rparr>"
  have dom: "fst ` set ?W3 = set hs" by (simp add: home_writes_def image_image nth_image)
  have "\<exists>s1. eachM (install_one False) [0..<length hs] s = Ret () s1 \<and> bio_frame s s1 \<and>
    bst (log_dev s) s1 (apply_clean K ?W3) (apply_writes d ?W3) (w @ ?W3)"
    by (rule install_loop [OF st hs, where L = L])
      (use rest logblk_not_home [OF rest] at_rest_in_use(2) [OF rest] in \<open>auto simp: at_rest_def\<close>)
  then obtain s1 where s1: "install_trans False s = Ret () s1" "bio_frame s s1"
    "bst (log_dev s) s1 (apply_clean K ?W3) (apply_writes d ?W3) (w @ ?W3)"
    by (auto simp: install_trans_def hs length_homes)
  note eq1 = bio_frame_logD [OF s1(2)]
  have K3: "apply_clean K ?W3 ?st = clean_blk x1" using start_not_home [OF rest] K by (simp add: apply_clean_other dom)
  have room: "card (in_use (apply_clean K ?W3)) < NBUF"
    using card_in_use_apply_clean [of K ?W3] at_rest_in_use(2) [OF rest] by simp
  obtain s2 where "clear_head s1 = Ret () s2" "bio_frame (s1\<lparr>lh := ?h0\<rparr>) s2"
    "bst (log_dev s) s2 ((apply_clean K ?W3)(?st := clean_blk x0)) ((apply_writes d ?W3)(?st := x0)) ((w @ ?W3) @ [(?st, x0)])"
    using clear_head_spec [of s1 "apply_clean K ?W3" "apply_writes d ?W3" "w @ ?W3" x1] s1(3) eq1 K3 room
    by (auto simp: x0_def)
  then show ?thesis using s1 bio_frame_trans [OF bio_frame_lh [OF s1(2)]] by (simp add: W_def fun_upd_def)
qed

lemma apply_clean_append: "apply_clean K (us @ vs) = apply_clean (apply_clean K us) vs"
  by (simp add: apply_clean_def)

lemma thenM_assoc: "thenM (thenM a b) c = thenM a (thenM b c)"
  by (simp add: thenM_def bindM_assoc)

lemma home_writes_logged:
  assumes rest: "at_rest start L hs K"
  shows "home_writes start hs (apply_clean K (log_writes start hs K (length hs) @ [(start, x)])) (length hs)
    = map (\<lambda>h. (h, k_data (K h))) hs"
proof (rule nth_equalityI)
  show "length (home_writes start hs (apply_clean K (log_writes start hs K (length hs) @ [(start, x)])) (length hs))
      = length (map (\<lambda>h. (h, k_data (K h))) hs)" by (simp add: home_writes_def)
  fix i assume "i < length (home_writes start hs (apply_clean K (log_writes start hs K (length hs) @ [(start, x)])) (length hs))"
  then have i: "i < length hs" by (simp add: home_writes_def)
  have n: "length hs \<le> LOGSIZE" using rest by (simp add: at_rest_def)
  have "apply_clean K (log_writes start hs K (length hs)) (logblk start i) = clean_blk (k_data (K (hs ! i)))"
    unfolding log_writes_def using i distinct_logblks [OF n] by (intro apply_clean_map) auto
  then show "home_writes start hs (apply_clean K (log_writes start hs K (length hs) @ [(start, x)])) (length hs) ! i
      = map (\<lambda>h. (h, k_data (K h))) hs ! i"
    using i n logblk_not_start [of i start] by (simp add: home_writes_def)
qed

lemma commit_spec:
  assumes ok: "log_ok s"
  shows "\<exists>s'. commit s = Ret () s' \<and> bio_frame (s\<lparr>lh := (lh s)\<lparr>lh_n := 0\<rparr>\<rparr>) s' \<and>
    bst (log_dev s) s' (apply_clean (block (log_dev s) s) (commit_writes s))
      (apply_writes (disk s) (commit_writes s)) (wtrace s @ commit_writes s)"
proof (cases "lh_n (lh s) > 0")
  case False
  then have "lh_n (lh s) = 0" using ok by (simp add: log_ok_def)
  then have same: "s\<lparr>lh := (lh s)\<lparr>lh_n := 0\<rparr>\<rparr> = s" by (cases s) (auto simp: logheader.equality)
  show ?thesis unfolding same using ok False by (simp add: commit_def commit_writes_def log_ok_def bst_def)
next
  case True
  let ?st = "log_start s" and ?hs = "homes (lh s)" and ?K = "block (log_dev s) s" and ?L = "nat (log_size s)"
  let ?x1 = "put_header (lh s) (k_data (?K ?st))"
  let ?W1 = "log_writes ?st ?hs ?K (length ?hs) @ [(?st, ?x1)]"
  let ?K2 = "apply_clean ?K ?W1"
  have st: "bst (log_dev s) s ?K (disk s) (wtrace s)" and rest: "at_rest ?st ?L ?hs ?K"
    using ok by (simp_all add: log_ok_def bst_def)
  have le: "lh_n (lh s) \<le> int LOGSIZE" using rest by (auto simp: at_rest_def length_homes)
  obtain s2 where s2: "thenM write_log write_head s = Ret () s2" "bio_frame s s2"
    "bst (log_dev s) s2 ?K2 (apply_writes (disk s) ?W1) (wtrace s @ ?W1)"
    using commit_log_phase [OF st refl le rest] by blast
  note eq2 = bio_frame_logD [OF s2(2)]
  have rest2: "at_rest ?st ?L ?hs ?K2"
    by (rule at_rest_apply_clean [OF rest]) (use log_writes_apart(2) [OF rest] start_not_home [OF rest] in auto)
  have st2: "bst (log_dev s2) s2 ?K2 (apply_writes (disk s) ?W1) (wtrace s @ ?W1)" using s2(3) eq2 by simp
  have "\<exists>s'. thenM (install_trans False) clear_head s2 = Ret () s' \<and> bio_frame (s2\<lparr>lh := (lh s2)\<lparr>lh_n := 0\<rparr>\<rparr>) s' \<and>
    bst (log_dev s2) s' (apply_clean ?K2 (home_writes (log_start s2) ?hs ?K2 (length ?hs) @ [(log_start s2, put_header ((lh s2)\<lparr>lh_n := 0\<rparr>) ?x1)]))
     (apply_writes (apply_writes (disk s) ?W1) (home_writes (log_start s2) ?hs ?K2 (length ?hs) @ [(log_start s2, put_header ((lh s2)\<lparr>lh_n := 0\<rparr>) ?x1)]))
     ((wtrace s @ ?W1) @ home_writes (log_start s2) ?hs ?K2 (length ?hs) @ [(log_start s2, put_header ((lh s2)\<lparr>lh_n := 0\<rparr>) ?x1)])"
    by (rule commit_install_phase [OF st2, where L = ?L]) (use rest2 eq2 in auto)
  note inst = this [unfolded eq2 home_writes_logged [OF rest]]
  have cw: "commit_writes s = ?W1 @ map (\<lambda>h. (h, k_data (?K h))) ?hs @ [(?st, put_header ((lh s)\<lparr>lh_n := 0\<rparr>) ?x1)]"
    using True by (simp add: commit_writes_def Let_def)
  have "\<exists>s'. thenM (install_trans False) clear_head s2 = Ret () s' \<and>
    bio_frame (s2\<lparr>lh := (lh s)\<lparr>lh_n := 0\<rparr>\<rparr>) s' \<and>
    bst (log_dev s) s' (apply_clean ?K (commit_writes s)) (apply_writes (disk s) (commit_writes s)) (wtrace s @ commit_writes s)"
    using inst by (simp only: cw apply_clean_append apply_writes_simps(3) append_assoc)
  then obtain s' where s': "thenM (install_trans False) clear_head s2 = Ret () s'"
    "bio_frame (s2\<lparr>lh := (lh s)\<lparr>lh_n := 0\<rparr>\<rparr>) s'"
    "bst (log_dev s) s' (apply_clean ?K (commit_writes s)) (apply_writes (disk s) (commit_writes s)) (wtrace s @ commit_writes s)"
    by blast
  have "commit s = thenM (thenM write_log write_head) (thenM (install_trans False) clear_head) s"
    by (simp only: commit_def thenM_assoc True if_True)
  then have "commit s = Ret () s'" using s2(1) s'(1) by simp
  then show ?thesis using s' bio_frame_trans [OF bio_frame_lh [OF s2(2)]] by blast
qed

section \<open>Recovery\<close>

lemma read_head_spec:
  fixes s :: "'a log_state_scheme"
  assumes st: "bst (log_dev s) s K d w" and K: "K (log_start s) = clean_blk x" and room: "card (in_use K) < NBUF"
  shows "\<exists>s' h. read_head s = Ret () s' \<and> bio_frame (s\<lparr>lh := h\<rparr>) s' \<and> homes h = header_homes x \<and>
    bst (log_dev s) s' K d w"
proof -
  let ?dev = "log_dev s" and ?hd = "held_by s" and ?B = "log_start s"
  have x: "x = d ?B" using bst_clean [OF st, of ?B] K by simp
  obtain b s1 where 1: "bread ?dev ?B s = Ret b s1" "bufv ?dev s1 b ?B" "bio_frame s s1"
    "bst ?dev s1 (K(?B := \<lparr>k_data = x, k_refs = 1, k_lock = ?hd\<rparr>)) d w"
    by (rule bread_bst [OF st K]) (use room that in \<open>auto simp: initsleeplock_def\<close>)
  have d1: "b_data (bufs s1 b) = x" using bufv_data [OF 1(4) 1(2)] by simp
  define h where "h = \<lparr>lh_n = sint (get32 x 0),
    lh_block = (\<lambda>i. if i < nat (sint (get32 x 0)) then get32 x (4 + 4 * i) else lh_block (lh s1) i)\<rparr>"
  let ?s2 = "s1\<lparr>lh := h\<rparr>"
  have b2: "bst ?dev ?s2 (K(?B := \<lparr>k_data = x, k_refs = 1, k_lock = ?hd\<rparr>)) d w" using 1(4) by (simp add: bst_lh)
  have v2: "bufv ?dev ?s2 = bufv ?dev s1" by (simp add: bufv_def buf_at_def fun_eq_iff)
  have h2: "held_by ?s2 = ?hd" using bio_frameD(3) [OF 1(3)] by (simp add: held_by_def myproc_def)
  obtain s3 where s3: "brelse b ?s2 = Ret () s3" "bio_frame ?s2 s3"
    "bst ?dev s3 (K(?B := \<lparr>k_data = x, k_refs = 1, k_lock = ?hd\<rparr>, ?B := clean_blk x)) d w"
    by (rule brelse_bst [OF b2, of b ?B x 1]) (use x v2 1(2) h2 in auto)
  have "read_head s = Ret () s3"
    unfolding read_head_def using 1(1) s3(1) by (simp add: d1 h_def Let_def cong: if_cong)
  moreover have "bio_frame (s\<lparr>lh := h\<rparr>) s3"
    using bio_frame_trans [OF bio_frame_lh [OF 1(3)] s3(2)] .
  moreover have "homes h = header_homes x" by (auto simp: homes_def header_homes_def h_def)
  moreover have "K(?B := \<lparr>k_data = x, k_refs = 1, k_lock = ?hd\<rparr>, ?B := clean_blk x) = K" using K by auto
  ultimately show ?thesis using s3(3) by auto
qed

text \<open>A header that recovery can act on: distinct home blocks outside the log, not too many.\<close>

definition good_header :: "u32 \<Rightarrow> nat \<Rightarrow> u32 list \<Rightarrow> bool" where
  "good_header start L hs \<longleftrightarrow>
     distinct hs \<and> length hs < L \<and> Suc (length hs) \<le> NBUF \<and> set hs \<inter> log_area start L = {}"

lemma recover_spec:
  fixes s :: "'a log_state_scheme"
  assumes st: "bst (log_dev s) s K d w" and idle: "\<And>b. K b = clean_blk (d b)"
    and hs: "hs = header_homes (d (log_start s))" and good: "good_header (log_start s) L hs"
  shows "\<exists>s' h x0. recover_from_log s = Ret () s' \<and> bio_frame (s\<lparr>lh := h\<rparr>) s' \<and> lh_n h = 0 \<and> header_homes x0 = [] \<and>
    disk s' = apply_writes d (map (\<lambda>i. (hs ! i, d (logblk (log_start s) i))) [0..<length hs] @ [(log_start s, x0)]) \<and>
    bio_ok (log_dev s) s' \<and> (\<forall>b. k_refs (block (log_dev s) s' b) = 0 \<and> k_lock (block (log_dev s) s' b) = initsleeplock)"
proof -
  let ?st = "log_start s" and ?W = "home_writes (log_start s) hs K (length hs)"
  have W: "?W = map (\<lambda>i. (hs ! i, d (logblk ?st i))) [0..<length hs]" by (simp add: home_writes_def idle)
  have "in_use K = {}" by (simp add: in_use_def idle)
  then obtain s1 h where s1: "read_head s = Ret () s1" "bio_frame (s\<lparr>lh := h\<rparr>) s1" "homes h = hs" "bst (log_dev s) s1 K d w"
    using read_head_spec [OF st idle] hs by auto
  have eq1: "log_start s1 = ?st" "log_dev s1 = log_dev s" "lh s1 = h"
    using bio_frame_logD [OF s1(2)] by simp_all
  have "\<exists>s2. eachM (install_one True) [0..<length hs] s1 = Ret () s2 \<and> bio_frame s1 s2 \<and>
    bst (log_dev s1) s2 (apply_clean K (home_writes (log_start s1) hs K (length hs)))
      (apply_writes d (home_writes (log_start s1) hs K (length hs))) (w @ home_writes (log_start s1) hs K (length hs))"
    by (rule install_loop [where L = L])
      (use s1(3,4) eq1 good \<open>in_use K = {}\<close> in \<open>auto simp: good_header_def idle\<close>)
  then obtain s2 where s2: "install_trans True s1 = Ret () s2" "bio_frame s1 s2"
    "bst (log_dev s) s2 (apply_clean K ?W) (apply_writes d ?W) (w @ ?W)"
    using s1(3) by (auto simp: install_trans_def eq1 simp flip: length_homes)
  have eq2: "log_start s2 = ?st" "log_dev s2 = log_dev s" "lh s2 = h"
    using bio_frame_logD [OF s2(2)] eq1 by simp_all
  have "?st \<notin> set hs" using start_in_area [of L ?st] good by (auto simp: good_header_def)
  then have K2: "apply_clean K ?W ?st = clean_blk (d ?st)"
    using idle [of ?st] by (subst apply_clean_other) (auto simp: W)
  have len: "length (d ?st) = BSIZE" using bst_length [OF st, of ?st] idle by simp
  have room: "card (in_use (apply_clean K ?W)) < NBUF"
    using card_in_use_apply_clean [of K ?W] \<open>in_use K = {}\<close> by simp
  define x0 where "x0 = put_header (h\<lparr>lh_n := 0\<rparr>) (d ?st)"
  obtain s3 where s3: "clear_head s2 = Ret () s3" "bio_frame (s2\<lparr>lh := h\<lparr>lh_n := 0\<rparr>\<rparr>) s3"
    "bst (log_dev s) s3 ((apply_clean K ?W)(?st := clean_blk x0)) ((apply_writes d ?W)(?st := x0)) ((w @ ?W) @ [(?st, x0)])"
    using clear_head_spec [of s2 "apply_clean K ?W" "apply_writes d ?W" "w @ ?W" "d ?st"] s2(3) K2 room eq2
    by (auto simp: x0_def)
  have clean: "k_refs (apply_clean K ws b) = 0 \<and> k_lock (apply_clean K ws b) = initsleeplock" for ws b
    using idle by (induction ws rule: rev_induct) auto
  have "recover_from_log s = Ret () s3" using s1(1) s2(1) s3(1) by (simp add: recover_from_log_def)
  moreover have "bio_frame (s\<lparr>lh := h\<lparr>lh_n := 0\<rparr>\<rparr>) s3"
    using bio_frame_lh [OF bio_frame_trans [OF s1(2) s2(2)], of "h\<lparr>lh_n := 0\<rparr>"] s3(2) by (auto intro: bio_frame_trans)
  moreover have "header_homes x0 = []" using len by (simp add: x0_def header_homes_empty)
  ultimately show ?thesis using s3(3) clean
    by (intro exI [of _ s3] exI [of _ "h\<lparr>lh_n := 0\<rparr>"] exI [of _ x0]) (auto simp: bst_def W fun_upd_def)
qed

section \<open>Crash safety\<close>

definition crash_disk :: "'a log_state_scheme \<Rightarrow> nat \<Rightarrow> u32 \<Rightarrow> u8 list" where
  "crash_disk s k = apply_writes (disk s) (take k (commit_writes s))"

definition recovered :: "u32 \<Rightarrow> (u32 \<Rightarrow> u8 list) \<Rightarrow> u32 \<Rightarrow> u8 list" where
  "recovered start d =
     (let hs = header_homes (d start) in apply_writes d (map (\<lambda>i. (hs ! i, d (logblk start i))) [0..<length hs]))"

lemma recovered_empty: "header_homes (d start) = [] \<Longrightarrow> recovered start d = d"
  by (simp add: recovered_def)

lemma apply_writes_hs:
  assumes "distinct hs"
  shows "apply_writes d (map (\<lambda>h. (h, f h)) hs) b = (if b \<in> set hs then f b else d b)"
proof (cases "b \<in> set hs")
  case True
  then show ?thesis using apply_writes_map [of id hs b d f] assms by simp
next
  case False
  then show ?thesis by (subst apply_writes_other) (auto simp: image_image)
qed

text \<open>
  The disks a crash can leave: with the old header as long as the header write has not
  happened, with the new header until the last write, and with an empty header after it.
\<close>

lemma crash_disk_old:
  assumes ok: "log_ok s" and k: "k \<le> nat (lh_n (lh s))"
  shows "header_homes (crash_disk s k (log_start s)) = []"
    and "b \<notin> log_area (log_start s) (nat (log_size s)) \<Longrightarrow> crash_disk s k b = disk s b"
proof -
  let ?st = "log_start s" and ?hs = "homes (lh s)" and ?K = "block (log_dev s) s" and ?L = "nat (log_size s)"
  have rest: "at_rest ?st ?L ?hs ?K" using ok by (simp add: log_ok_def)
  have k': "k \<le> length ?hs" using k by (simp add: length_homes)
  have "take k (commit_writes s) = take k (log_writes ?st ?hs ?K (length ?hs))"
    using k k' by (auto simp: commit_writes_def Let_def log_writes_def)
  then have "fst ` set (take k (commit_writes s)) \<subseteq> fst ` set (log_writes ?st ?hs ?K (length ?hs))"
    by (simp add: image_mono set_take_subset)
  then have sub: "fst ` set (take k (commit_writes s)) \<subseteq> logblk ?st ` {0..<length ?hs}"
    by (simp only: log_writes_dom)
  have "?st \<notin> logblk ?st ` {0..<length ?hs}"
    using log_writes_apart(1) [OF rest] by (simp add: log_writes_dom)
  with sub have "crash_disk s k ?st = disk s ?st"
    unfolding crash_disk_def by (intro apply_writes_other) blast
  then show "header_homes (crash_disk s k ?st) = []" using ok by (simp add: log_ok_def)
  assume b: "b \<notin> log_area ?st ?L"
  have "logblk ?st i \<in> log_area ?st ?L" if "i < length ?hs" for i
    using that rest by (simp add: at_rest_def logblk_in_area)
  with b sub have "b \<notin> fst ` set (take k (commit_writes s))" by auto
  then show "crash_disk s k b = disk s b" unfolding crash_disk_def by (rule apply_writes_other)
qed

lemma commit_writes_split:
  assumes "lh_n (lh s) > 0"
  defines "K \<equiv> block (log_dev s) s" and "hs \<equiv> homes (lh s)" and "st \<equiv> log_start s"
  obtains x1 x0 where "commit_writes s = (log_writes st hs K (length hs) @ [(st, x1)]) @ map (\<lambda>h. (h, k_data (K h))) hs @ [(st, x0)]"
    and "x1 = put_header (lh s) (k_data (K st))" and "x0 = put_header ((lh s)\<lparr>lh_n := 0\<rparr>) x1"
  using assms by (simp add: commit_writes_def Let_def)

lemma logged_disk:
  assumes rest: "at_rest st L hs K" and d1_def: "d1 = apply_writes d (log_writes st hs K (length hs) @ [(st, x1)])"
  shows "d1 st = x1" and "i < length hs \<Longrightarrow> d1 (logblk st i) = k_data (K (hs ! i))"
    and "b \<notin> log_area st L \<Longrightarrow> d1 b = d b"
proof -
  show "d1 st = x1" by (simp add: d1_def)
  have small: "i < LOGSIZE" if "i < length hs" for i using that rest by (simp add: at_rest_def)
  have n: "length hs \<le> LOGSIZE" using rest by (simp add: at_rest_def)
  show "d1 (logblk st i) = k_data (K (hs ! i))" if i: "i < length hs"
  proof -
    have "apply_writes d (log_writes st hs K (length hs)) (logblk st i) = k_data (K (hs ! i))"
      unfolding log_writes_def using i distinct_logblks [OF n] by (intro apply_writes_map) auto
    then show ?thesis using logblk_not_start [OF small [OF i]] by (simp add: d1_def)
  qed
  assume b: "b \<notin> log_area st L"
  have "logblk st i \<in> log_area st L" if "i < length hs" for i
    using that rest small by (simp add: at_rest_def logblk_in_area)
  moreover have "st \<in> log_area st L" using rest by (intro start_in_area) (auto simp: at_rest_def)
  ultimately have "b \<notin> fst ` set (log_writes st hs K (length hs) @ [(st, x1)])"
    using b by (auto simp: log_writes_def)
  then show "d1 b = d b" unfolding d1_def by (rule apply_writes_other)
qed

lemma crash_disk_new:
  assumes ok: "log_ok s" and n: "lh_n (lh s) > 0" and k: "k > nat (lh_n (lh s))"
  defines "hs \<equiv> homes (lh s)" and "K \<equiv> block (log_dev s) s" and "st \<equiv> log_start s" and "L \<equiv> nat (log_size s)"
  shows "(header_homes (crash_disk s k st) = hs \<and> (\<forall>i<length hs. crash_disk s k (logblk st i) = k_data (K (hs ! i)))) \<or>
    (header_homes (crash_disk s k st) = [] \<and> (\<forall>b\<in>set hs. crash_disk s k b = k_data (K b)))" (is "?A \<or> ?B")
    and "b \<notin> log_area st L \<Longrightarrow> b \<notin> set hs \<Longrightarrow> crash_disk s k b = disk s b"
proof -
  have rest: "at_rest st L hs K" and ok': "bio_ok (log_dev s) s" using ok by (simp_all add: log_ok_def st_def L_def hs_def K_def)
  have len: "length hs = nat (lh_n (lh s))" "lh_n (lh s) \<le> int LOGSIZE" "distinct hs"
    using rest by (auto simp: at_rest_def hs_def length_homes)
  obtain x1 x0 where W: "commit_writes s = (log_writes st hs K (length hs) @ [(st, x1)]) @ map (\<lambda>h. (h, k_data (K h))) hs @ [(st, x0)]"
    and x1: "x1 = put_header (lh s) (k_data (K st))" and x0: "x0 = put_header ((lh s)\<lparr>lh_n := 0\<rparr>) x1"
    unfolding st_def hs_def K_def by (rule commit_writes_split [OF n])
  let ?P = "log_writes st hs K (length hs) @ [(st, x1)]" and ?M = "map (\<lambda>h. (h, k_data (K h))) hs"
  define d1 where "d1 = apply_writes (disk s) ?P"
  define j where "j = k - Suc (length hs)"
  have "take k (commit_writes s) = ?P @ take j (?M @ [(st, x0)])"
    using k len(1) unfolding W j_def by (simp add: take_Cons' log_writes_def del: append_assoc)
  then have dk: "crash_disk s k = apply_writes d1 (take j (?M @ [(st, x0)]))"
    by (simp only: crash_disk_def apply_writes_simps(3) d1_def)
  note ld = logged_disk [OF rest d1_def]
  have x1len: "length x1 = BSIZE" using ok' len(2) by (simp add: x1 length_put_header K_def)
  have hx1: "header_homes x1 = hs" using ok' n len(2) by (simp add: x1 header_homes_put_header hs_def K_def)
  have hx0: "header_homes x0 = []" using x1len by (simp add: x0 header_homes_empty)
  have nst: "st \<notin> set hs" using start_not_home [OF rest] .
  have nlog: "logblk st i \<notin> set hs" if "i < length hs" for i using logblk_not_home [OF rest that] .
  have sub: "fst ` set (take j ?M) \<subseteq> set hs" using set_take_subset [of j ?M] by auto
  show "?A \<or> ?B"
  proof (cases "j \<le> length hs")
    case True
    then have d: "crash_disk s k = apply_writes d1 (take j ?M)" by (simp add: dk)
    have "crash_disk s k st = x1" unfolding d using nst sub ld(1) by (subst apply_writes_other) auto
    moreover have "crash_disk s k (logblk st i) = k_data (K (hs ! i))" if "i < length hs" for i
      unfolding d using nlog [OF that] sub ld(2) [OF that] by (subst apply_writes_other) auto
    ultimately show ?thesis using hx1 by simp
  next
    case False
    then have d: "crash_disk s k = (apply_writes d1 ?M)(st := x0)" by (simp add: dk)
    have "crash_disk s k b = k_data (K b)" if "b \<in> set hs" for b
      using that nst apply_writes_hs [OF len(3)] by (auto simp: d)
    then show ?thesis using hx0 by (simp add: d)
  qed
  assume b: "b \<notin> log_area st L" "b \<notin> set hs"
  have "st \<in> log_area st L" using rest by (intro start_in_area) (auto simp: at_rest_def)
  then have "b \<notin> fst ` set (take j (?M @ [(st, x0)]))" using b set_take_subset [of j "?M @ [(st, x0)]"] by auto
  from apply_writes_other [OF this, of d1] ld(3) [OF b(1)]
  show "crash_disk s k b = disk s b" by (simp only: dk)
qed

lemma recovered_crash_disk:
  assumes ok: "log_ok s" and d_def: "d = crash_disk s k" and st_def: "st = log_start s" and L_def: "L = nat (log_size s)"
  shows "good_header st L (header_homes (d st)) \<and> (b \<notin> log_area st L \<longrightarrow> recovered st d b =
      (if k \<le> nat (lh_n (lh s)) then disk s b else k_data (block (log_dev s) s b)))"
proof -
  let ?hs = "homes (lh s)" and ?K = "block (log_dev s) s"
  have rest: "at_rest st L ?hs ?K" using ok by (simp add: log_ok_def st_def L_def)
  have bs: "bst (log_dev s) s ?K (disk s) (wtrace s)" using ok by (simp add: log_ok_def bst_def)
  have good: "good_header st L ?hs" "good_header st L []" using rest by (auto simp: at_rest_def good_header_def)
  have other: "k_data (?K b) = disk s b" if "b \<notin> set ?hs" for b
    using bst_clean [OF bs] at_rest_blk [OF rest, of b] that by (metis blk.select_convs(2))
  show ?thesis
  proof (cases "k \<le> nat (lh_n (lh s))")
    case True
    with crash_disk_old [OF ok True] good(2)
    show ?thesis
      by (simp add: d_def st_def L_def recovered_empty)
  next
    case False
    show ?thesis
    proof (cases "lh_n (lh s) > 0")
      case True
      then have new: "(header_homes (d st) = ?hs \<and> (\<forall>i<length ?hs. d (logblk st i) = k_data (?K (?hs ! i)))) \<or>
          (header_homes (d st) = [] \<and> (\<forall>b\<in>set ?hs. d b = k_data (?K b)))"
        "b \<notin> log_area st L \<Longrightarrow> b \<notin> set ?hs \<Longrightarrow> d b = disk s b"
        using crash_disk_new [OF ok True] False by (simp_all add: d_def st_def L_def)
      from new(1) show ?thesis
      proof (elim disjE conjE)
        assume h: "header_homes (d st) = ?hs" "\<forall>i<length ?hs. d (logblk st i) = k_data (?K (?hs ! i))"
        have "map (\<lambda>i. (?hs ! i, d (logblk st i))) [0..<length ?hs] = map (\<lambda>h. (h, k_data (?K h))) ?hs"
          using h(2) by (intro nth_equalityI) auto
        then have "recovered st d b = (if b \<in> set ?hs then k_data (?K b) else d b)"
          using rest h(1) by (simp add: recovered_def apply_writes_hs at_rest_def)
        then show ?thesis using h(1) good(1) new(2) other False by simp
      next
        assume "header_homes (d st) = []" "\<forall>b\<in>set ?hs. d b = k_data (?K b)"
        then show ?thesis using good(2) new(2) other False by (cases "b \<in> set ?hs") (simp_all add: recovered_empty)
      qed
    next
      case no: False
      then have "d = disk s" by (simp add: d_def crash_disk_def commit_writes_def)
      moreover have "?hs = []" using no by (simp add: homes_def)
      ultimately show ?thesis using ok good(2) other False by (simp add: log_ok_def st_def recovered_empty)
    qed
  qed
qed

lemma log_ok_recovered:
  assumes "bio_frame (u\<lparr>lh := h\<rparr>) t" and "lh_n h = 0" and "bio_ok (log_dev u) t" and "0 < log_size u"
    and "\<forall>b. k_refs (block (log_dev u) t b) = 0 \<and> k_lock (block (log_dev u) t b) = initsleeplock"
    and "header_homes (disk t (log_start u)) = []"
  shows "log_ok t \<and> lh_n (lh t) = 0"
  using bio_frame_logD [OF assms(1)] assms by (simp add: log_ok_def at_rest_def homes_def)


lemma length_commit_writes:
  assumes "log_ok s" and "(b, x) \<in> set (commit_writes s)"
  shows "length x = BSIZE"
proof -
  have ok: "bio_ok (log_dev s) s" and le: "lh_n (lh s) \<le> int LOGSIZE"
    using assms(1) by (auto simp: log_ok_def at_rest_def length_homes)
  have "length (k_data (block (log_dev s) s n)) = BSIZE" for n using ok by simp
  then show ?thesis using assms(2) le
    by (auto simp: commit_writes_def log_writes_def Let_def length_put_header split: if_splits)
qed

lemma length_crash_disk:
  assumes "log_ok s"
  shows "length (crash_disk s k b) = BSIZE"
proof -
  have "length (apply_writes d ws b) = BSIZE" if "\<forall>p\<in>set ws. length (snd p) = BSIZE" "\<And>b. length (d b) = BSIZE" for ws d
    using that by (induction ws rule: rev_induct) (auto simp: apply_writes_def split: prod.splits)
  moreover have "length (disk s b) = BSIZE" for b using assms by (simp add: log_ok_def bio_ok_def)
  moreover have "\<forall>p\<in>set (take k (commit_writes s)). length (snd p) = BSIZE"
    using length_commit_writes [OF assms] by (metis in_set_takeD prod.collapse)
  ultimately show ?thesis unfolding crash_disk_def by blast
qed

text \<open>A transaction of one block: block 100 has been changed and logged, the disk is still old.\<close>

definition zero_log :: log_state where
  "zero_log = \<lparr>mem = (\<lambda>_. 0), freelist = 0, kend = 0x80022000, etext = 0x80008000, trampoline = 0x80007000,
     kernel_pagetable = 0, satp = 0, procs = (\<lambda>_. zero_proc), cur = 0,
     nextpid = 1, initproc = 0, ticks = 0, bufs = (\<lambda>_. zero_buf), disk = (\<lambda>_. replicate BSIZE 0), wtrace = [],
     log_start = 2, log_size = 30, log_outstanding = 0, log_committing = False, log_dev = 1,
     lh = \<lparr>lh_n = 1, lh_block = (\<lambda>_. 100)\<rparr>\<rparr>"

definition logged_100 :: "buf \<Rightarrow> buf" where
  "logged_100 x = x\<lparr>b_dev := 1, b_blockno := 100, b_valid := True, b_refcnt := 1, b_data := replicate BSIZE 7\<rparr>"

definition one_block_tx :: log_state where
  "one_block_tx = upd_buf 0 logged_100 (binit zero_log)"

lemma binit_log_fields:
  fixes s :: "'a log_state_scheme"
  shows "log_dev (binit s) = log_dev s" "log_start (binit s) = log_start s" "log_size (binit s) = log_size s"
    "lh (binit s) = lh s"
proof -
  have step: "log_dev (binit_step i u) = log_dev u \<and> log_start (binit_step i u) = log_start u
      \<and> log_size (binit_step i u) = log_size u \<and> lh (binit_step i u) = lh u" for i and u :: "'a log_state_scheme"
    by (simp add: binit_step_def upd_buf_def Let_def)
  have "log_dev (fold binit_step is u) = log_dev u \<and> log_start (fold binit_step is u) = log_start u
      \<and> log_size (fold binit_step is u) = log_size u \<and> lh (fold binit_step is u) = lh u" for "is" and u :: "'a log_state_scheme"
    using step by (induction "is" arbitrary: u) auto
  then show "log_dev (binit s) = log_dev s" "log_start (binit s) = log_start s" "log_size (binit s) = log_size s"
    "lh (binit s) = lh s" by (simp_all add: binit_def upd_buf_def Let_def)
qed

lemma one_block_tx_fields:
  "log_dev one_block_tx = 1" "log_start one_block_tx = 2" "log_size one_block_tx = 30"
  "homes (lh one_block_tx) = [100]" "lh_n (lh one_block_tx) = 1"
  by (simp_all add: one_block_tx_def upd_buf_def binit_log_fields zero_log_def homes_def)

lemma one_block_tx_view:
  "bio_ok 1 one_block_tx" "disk one_block_tx = (\<lambda>_. replicate BSIZE 0)"
  "block 1 one_block_tx = (\<lambda>b. if b = 100 then \<lparr>k_data = replicate BSIZE 7, k_refs = 1, k_lock = initsleeplock\<rparr>
     else clean_blk (replicate BSIZE 0))"
proof -
  let ?s = "binit zero_log"
  have z: "boot_bufs zero_log" by (simp add: boot_bufs_def zero_log_def zero_buf_def)
  note boot = binit_bio_ok [OF z, of 1]
  have d: "disk ?s = (\<lambda>_. replicate BSIZE 0)" using boot(2) by (simp add: zero_log_def)
  have ok: "bio_ok 1 ?s" and na: "\<not> buf_at 1 ?s i bn" for i bn using boot(1,3) by simp_all
  show ok': "bio_ok 1 one_block_tx" unfolding one_block_tx_def
    by (rule bio_ok_upd [OF ok]) (use na in \<open>auto simp: logged_100_def buf_ok_def\<close>)
  show "disk one_block_tx = (\<lambda>_. replicate BSIZE 0)" by (simp add: one_block_tx_def d)
  have "block 1 one_block_tx = (block 1 ?s)(100 := blk_of one_block_tx 0)"
    by (rule block_upd [OF ok ok'])
      (auto simp: one_block_tx_def buf_at_def logged_100_def binit_bufs(3) [OF z])
  moreover have "blk_of one_block_tx 0 = \<lparr>k_data = replicate BSIZE 7, k_refs = 1, k_lock = initsleeplock\<rparr>"
    by (simp add: one_block_tx_def blk_of_def logged_100_def binit_bufs(6) [OF z])
  ultimately show "block 1 one_block_tx = (\<lambda>b. if b = 100 then \<lparr>k_data = replicate BSIZE 7, k_refs = 1, k_lock = initsleeplock\<rparr>
     else clean_blk (replicate BSIZE 0))" using boot(4) by (simp add: fun_eq_iff zero_log_def)
qed

lemma header_homes_zeros: "header_homes (replicate BSIZE 0) = []"
proof -
  have "get32 (replicate BSIZE 0) 0 = 0" by (simp add: get32_def eval_nat_numeral)
  then show ?thesis by (simp add: header_homes_def)
qed

lemma log_ok_one_block_tx: "log_ok one_block_tx"
  unfolding log_ok_def
proof (intro conjI)
  have "unat (100 - 2 :: u32) = 98" by simp
  then show "at_rest (log_start one_block_tx) (nat (log_size one_block_tx)) (homes (lh one_block_tx)) (block (log_dev one_block_tx) one_block_tx)"
    by (simp add: at_rest_def one_block_tx_fields one_block_tx_view log_area_def)
qed (simp_all add: one_block_tx_fields one_block_tx_view header_homes_zeros)


section \<open>Transactions\<close>

lemma apply_clean_written:
  "b \<in> fst ` set ws \<Longrightarrow> \<exists>x. apply_clean K ws b = clean_blk x"
proof (induction ws rule: rev_induct)
  case (snoc p ws)
  then show ?case by (cases p) auto
qed simp

lemma commit_writes_result:
  assumes ok: "log_ok s"
  defines "K \<equiv> block (log_dev s) s" and "st \<equiv> log_start s" and "W \<equiv> commit_writes s"
  shows "header_homes (apply_writes (disk s) W st) = []"
    and "b \<notin> log_area st (nat (log_size s)) \<Longrightarrow> apply_writes (disk s) W b = k_data (K b)"
    and "k_refs (apply_clean K W n) = 0 \<and> k_lock (apply_clean K W n) = initsleeplock"
proof -
  let ?hs = "homes (lh s)" and ?L = "nat (log_size s)"
  have rest: "at_rest st ?L ?hs K" and ok': "bio_ok (log_dev s) s" using ok by (simp_all add: log_ok_def st_def K_def)
  have bs: "bst (log_dev s) s K (disk s) (wtrace s)" using ok' by (simp add: bst_def K_def)
  have other: "k_data (K b) = disk s b" if "b \<notin> set ?hs" for b
    using bst_clean [OF bs] at_rest_blk [OF rest, of b] that by (metis blk.select_convs(2))
  have clean: "k_refs (K n) = 0 \<and> k_lock (K n) = initsleeplock" if "n \<notin> set ?hs" for n using rest that by (simp add: at_rest_def)
  show "header_homes (apply_writes (disk s) W st) = []"
    and "b \<notin> log_area st ?L \<Longrightarrow> apply_writes (disk s) W b = k_data (K b)"
    and "k_refs (apply_clean K W n) = 0 \<and> k_lock (apply_clean K W n) = initsleeplock"
  proof (atomize (full), cases "lh_n (lh s) > 0")
    case True
    obtain x1 x0 where W: "W = (log_writes st ?hs K (length ?hs) @ [(st, x1)]) @ map (\<lambda>h. (h, k_data (K h))) ?hs @ [(st, x0)]"
      and x1: "x1 = put_header (lh s) (k_data (K st))" and x0: "x0 = put_header ((lh s)\<lparr>lh_n := 0\<rparr>) x1"
      unfolding W_def st_def K_def by (rule commit_writes_split [OF True])
    define d1 where "d1 = apply_writes (disk s) (log_writes st ?hs K (length ?hs) @ [(st, x1)])"
    have d: "apply_writes (disk s) W = (apply_writes d1 (map (\<lambda>h. (h, k_data (K h))) ?hs))(st := x0)"
      unfolding W d1_def apply_writes_simps(3) by simp
    have le: "lh_n (lh s) \<le> int LOGSIZE" "distinct ?hs" "0 < ?L" using rest by (auto simp: at_rest_def length_homes)
    have "length x1 = BSIZE" using ok' le by (simp add: x1 length_put_header K_def)
    then have "header_homes x0 = []" by (simp add: x0 header_homes_empty)
    moreover have "apply_writes (disk s) W b = k_data (K b)" if "b \<notin> log_area st ?L"
      using that start_in_area [OF le(3), of st] logged_disk(3) [OF rest d1_def that] other [of b]
      by (auto simp: d apply_writes_hs [OF le(2)])
    moreover have "k_refs (apply_clean K W n) = 0 \<and> k_lock (apply_clean K W n) = initsleeplock"
    proof (cases "n \<in> fst ` set W")
      case True
      then show ?thesis using apply_clean_written [of n W K] by auto
    next
      case False
      then have "n \<notin> set ?hs" by (auto simp: W image_image image_Un)
      then show ?thesis using clean [of n] False by (simp add: apply_clean_other)
    qed
    ultimately show "header_homes (apply_writes (disk s) W st) = [] \<and>
      (b \<notin> log_area st ?L \<longrightarrow> apply_writes (disk s) W b = k_data (K b)) \<and>
      k_refs (apply_clean K W n) = 0 \<and> k_lock (apply_clean K W n) = initsleeplock" by (simp add: d)
  next
    case False
    then have "W = []" "?hs = []" by (simp_all add: W_def commit_writes_def homes_def)
    then show "header_homes (apply_writes (disk s) W st) = [] \<and>
      (b \<notin> log_area st ?L \<longrightarrow> apply_writes (disk s) W b = k_data (K b)) \<and>
      k_refs (apply_clean K W n) = 0 \<and> k_lock (apply_clean K W n) = initsleeplock"
      using ok other [of b] clean [of n] by (auto simp: log_ok_def st_def)
  qed
qed

text \<open>
  C8: \<open>commit\<close> installs the transaction: it returns, the header block is clear again, every
  block outside the log has on disk the contents it had in the cache, and the writes it issued are exactly
  \<open>commit_writes\<close>, in that order (log copies, header, home blocks, cleared header).
\<close>

theorem commit_installs_transaction:
  assumes ok: "log_ok s"
  shows "\<exists>s'. commit s = Ret () s' \<and> log_ok s' \<and> lh_n (lh s') = 0 \<and>
    wtrace s' = wtrace s @ commit_writes s \<and>
    (\<forall>b. b \<notin> log_area (log_start s) (nat (log_size s)) \<longrightarrow> disk s' b = k_data (block (log_dev s) s b))"
proof -
  let ?dev = "log_dev s" and ?L = "nat (log_size s)" and ?W = "commit_writes s"
  obtain s' where c: "commit s = Ret () s'" "bio_frame (s\<lparr>lh := (lh s)\<lparr>lh_n := 0\<rparr>\<rparr>) s'"
    "bst ?dev s' (apply_clean (block ?dev s) ?W) (apply_writes (disk s) ?W) (wtrace s @ ?W)"
    using commit_spec [OF ok] by blast
  note r = commit_writes_result [OF ok]
  have "0 < log_size s" using ok by (auto simp: log_ok_def at_rest_def)
  then have "log_ok s' \<and> lh_n (lh s') = 0"
    by (intro log_ok_recovered [OF c(2)]) (use c(3) r in \<open>auto simp: bst_def\<close>)
  then show ?thesis using c(1,3) r(2) by (auto simp: bst_def)
qed

theorem commit_installs_transaction_witness:
  "\<exists>s'. commit one_block_tx = Ret () s' \<and> log_ok s' \<and> lh_n (lh s') = 0 \<and>
    wtrace s' = wtrace one_block_tx @ commit_writes one_block_tx \<and> disk s' 100 = replicate BSIZE 7"
proof -
  from commit_installs_transaction [OF log_ok_one_block_tx]
  obtain s' where s': "commit one_block_tx = Ret () s'" "log_ok s'" "lh_n (lh s') = 0"
    "wtrace s' = wtrace one_block_tx @ commit_writes one_block_tx"
    "\<And>b. b \<notin> log_area 2 30 \<Longrightarrow> disk s' b = k_data (block 1 one_block_tx b)"
    by (auto simp: one_block_tx_fields)
  have "(100 :: u32) \<notin> log_area 2 30" by (simp add: log_area_def)
  from s'(5) [OF this] have "disk s' 100 = replicate BSIZE 7" by (simp add: one_block_tx_view(3))
  with s' show ?thesis by blast
qed

lemma bpin_bst:
  assumes "bst dev s K d w" and "bufv dev s b bn" and "K bn = \<lparr>k_data = x, k_refs = r, k_lock = l\<rparr>"
    and "r + 1 \<noteq> 0"
  obtains s' where "bpin b s = Ret () s'"
    and "bst dev s' (K(bn := \<lparr>k_data = x, k_refs = r + 1, k_lock = l\<rparr>)) d w"
    and "bufv dev s' = bufv dev s" and "bio_frame s s'"
proof -
  have ok: "bio_ok dev s" and at: "buf_at dev s b bn" "b_valid (bufs s b)" and K: "block dev s = K"
    using assms by (auto simp: bst_def bufv_def)
  have "k_refs (block dev s bn) + 1 \<noteq> 0" using assms K by simp
  from bpin_spec [OF ok at this] obtain s' where r: "bpin b s = Ret () s'" "bio_ok dev s'"
    and s': "s' = s\<lparr>bufs := bufs s'\<rparr>"
    and blk: "block dev s' = (block dev s)(bn := (block dev s bn)\<lparr>k_refs := k_refs (block dev s bn) + 1\<rparr>)"
    and at': "buf_at dev s' = buf_at dev s" "\<And>i. b_valid (bufs s' i) = b_valid (bufs s i)" by metis
  have "disk s' = disk s" "wtrace s' = wtrace s" by (subst s', simp)+
  then have "bst dev s' (K(bn := \<lparr>k_data = x, k_refs = r + 1, k_lock = l\<rparr>)) d w"
    using assms(1,3) r(2) blk by (auto simp: bst_def)
  then show ?thesis using that [OF r(1)] at' s' by (auto simp: bufv_def fun_eq_iff intro: bio_frame_bufs)
qed

definition tx_add :: "u32 list \<Rightarrow> u32 \<Rightarrow> u32 list" where
  "tx_add hs bn = (if bn \<in> set hs then hs else hs @ [bn])"

lemma log_write_spec:
  fixes s :: "'a log_state_scheme"
  assumes st: "bst (log_dev s) s K d w" and b: "bufv (log_dev s) s b bn"
    and K: "K bn = \<lparr>k_data = x, k_refs = r, k_lock = l\<rparr>" "r + 1 \<noteq> 0"
    and n: "0 \<le> lh_n (lh s)" "lh_n (lh s) < int LOGSIZE" "lh_n (lh s) < log_size s - 1" "log_outstanding s \<ge> 1"
    and hs: "hs = homes (lh s)"
  shows "\<exists>s' h. log_write b s = Ret () s' \<and> bio_frame (s\<lparr>lh := h\<rparr>) s' \<and> 0 \<le> lh_n h \<and> homes h = tx_add hs bn \<and>
    bst (log_dev s) s' (if bn \<in> set hs then K else K(bn := \<lparr>k_data = x, k_refs = r + 1, k_lock = l\<rparr>)) d w \<and>
    bufv (log_dev s) s' = bufv (log_dev s) s"
proof -
  have bn: "b_blockno (bufs s b) = bn" using b by (simp add: bufv_def buf_at_def)
  let ?h = "lh s"
  show ?thesis
  proof (cases "first_index (\<lambda>i. lh_block ?h i = bn) (nat (lh_n ?h))")
    case (Some i)
    note i = first_index_SomeD [OF Some]
    have same: "(lh_block ?h)(i := bn) = lh_block ?h" using i(2) by auto
    have "s\<lparr>lh := ?h\<lparr>lh_block := (lh_block ?h)(i := bn)\<rparr>\<rparr> = s" by (simp add: same)
    moreover have "int i \<noteq> lh_n ?h" using i(1) by auto
    ultimately have "log_write b s = Ret () s"
      using n Some by (simp add: log_write_def Let_def bn)
    moreover have "bn \<in> set hs" using i by (auto simp: hs homes_def)
    ultimately show ?thesis using st n(1) hs by (intro exI [of _ s] exI [of _ ?h]) (simp add: tx_add_def)
  next
    case None
    then have bnn: "bn \<notin> set hs" by (auto simp: hs homes_def first_index_None_iff)
    let ?k = "nat (lh_n ?h)"
    let ?h1 = "?h\<lparr>lh_block := (lh_block ?h)(?k := bn)\<rparr>"
    define h where "h = ?h1\<lparr>lh_n := lh_n ?h + 1\<rparr>"
    have v: "bufv (log_dev s) (s\<lparr>lh := ?h1\<rparr>) = bufv (log_dev s) s" by (simp add: bufv_def buf_at_def fun_eq_iff)
    have st1: "bst (log_dev s) (s\<lparr>lh := ?h1\<rparr>) K d w" using st by (simp add: bst_lh)
    have b1: "bufv (log_dev s) (s\<lparr>lh := ?h1\<rparr>) b bn" using b v by simp
    obtain s1 where s1: "bpin b (s\<lparr>lh := ?h1\<rparr>) = Ret () s1"
      "bst (log_dev s) s1 (K(bn := \<lparr>k_data = x, k_refs = r + 1, k_lock = l\<rparr>)) d w"
      "bufv (log_dev s) s1 = bufv (log_dev s) s" "bio_frame (s\<lparr>lh := ?h1\<rparr>) s1"
      by (rule bpin_bst [OF st1 b1 K(1)]) (use v K(2) in auto)
    have lh1: "lh s1 = ?h1" using bio_frame_logD [OF s1(4)] by simp
    have "log_write b s = Ret () (s1\<lparr>lh := h\<rparr>)"
      using n None s1(1) lh1 by (simp add: log_write_def Let_def bn h_def)
    moreover have "bio_frame (s\<lparr>lh := h\<rparr>) (s1\<lparr>lh := h\<rparr>)" using bio_frame_lh [OF s1(4), of h] by simp
    moreover have "homes h = tx_add hs bn"
      using n(1) bnn by (auto simp: homes_def h_def hs tx_add_def nat_add_distrib)
    moreover have "bufv (log_dev s) (s1\<lparr>lh := h\<rparr>) = bufv (log_dev s) s"
      using s1(3) by (simp add: bufv_def buf_at_def fun_eq_iff)
    ultimately show ?thesis using s1(2) bnn n(1)
      by (intro exI [of _ "s1\<lparr>lh := h\<rparr>"] exI [of _ h]) (simp add: bst_lh h_def)
  qed
qed

text \<open>
  The pattern every writer of the file system follows: read the block, change it, log it,
  release it. The block joins the transaction; in the view its contents change, on the disk
  nothing does.
\<close>

definition log_update :: "u32 \<Rightarrow> u32 \<Rightarrow> (u8 list \<Rightarrow> u8 list) \<Rightarrow> ('a log_state_scheme, unit) M" where
  "log_update dev bn f =
     bindM (bread dev bn) (\<lambda>b.
     thenM (modM (upd_buf b (\<lambda>x. x\<lparr>b_data := f (b_data x)\<rparr>)))
    (thenM (log_write b) (brelse b)))"

lemma log_update_spec:
  fixes s :: "'a log_state_scheme"
  assumes st: "bst (log_dev s) s K d w" and hs: "hs = homes (lh s)" and rest: "at_rest (log_start s) L hs K"
    and n: "0 \<le> lh_n (lh s)" "Suc (length hs) < L" "Suc (length hs) < NBUF" "int L \<le> log_size s" "log_outstanding s \<ge> 1"
    and bn: "bn \<notin> log_area (log_start s) L" and f: "\<And>x. length x = BSIZE \<Longrightarrow> length (f x) = BSIZE"
  shows "\<exists>s' h. log_update (log_dev s) bn f s = Ret () s' \<and> bio_frame (s\<lparr>lh := h\<rparr>) s' \<and> 0 \<le> lh_n h \<and>
    homes h = tx_add hs bn \<and> at_rest (log_start s) L (tx_add hs bn) (K(bn := \<lparr>k_data = f (k_data (K bn)), k_refs = 1, k_lock = initsleeplock\<rparr>)) \<and>
    bst (log_dev s) s' (K(bn := \<lparr>k_data = f (k_data (K bn)), k_refs = 1, k_lock = initsleeplock\<rparr>)) d w"
proof -
  let ?dev = "log_dev s" and ?hd = "held_by s" and ?x = "k_data (K bn)" and ?r = "(if bn \<in> set hs then 1 else 0) :: u32"
  have K: "K bn = \<lparr>k_data = ?x, k_refs = ?r, k_lock = initsleeplock\<rparr>" by (rule at_rest_blk [OF rest])
  obtain b s1 where 1: "bread ?dev bn s = Ret b s1" "bufv ?dev s1 b bn" "bio_frame s s1"
    "bst ?dev s1 (K(bn := \<lparr>k_data = ?x, k_refs = ?r + 1, k_lock = ?hd\<rparr>)) d w"
    by (rule bread_bst [OF st K]) (use at_rest_in_use(2) [OF rest] that in \<open>auto simp: initsleeplock_def split: if_splits\<close>)
  have fx: "length (f ?x) = BSIZE" using f bst_length [OF st] by blast
  define s2 where "s2 = upd_buf b (\<lambda>z. z\<lparr>b_data := f ?x\<rparr>) s1"
  let ?K2 = "K(bn := \<lparr>k_data = f ?x, k_refs = ?r + 1, k_lock = ?hd\<rparr>)"
  have s2: "bst ?dev s2 ?K2 d w" "bufv ?dev s2 = bufv ?dev s1" "bio_frame s1 s2"
    using set_data_bst [OF 1(4) 1(2) _ _ fx] unfolding s2_def by auto
  have fr2: "bio_frame s s2" using bio_frame_trans [OF 1(3) s2(3)] .
  note eq2 = bio_frame_logD [OF fr2]
  have d1: "b_data (bufs s1 b) = ?x" using bufv_data [OF 1(4) 1(2)] by simp
  have u: "upd_buf b (\<lambda>z. z\<lparr>b_data := f (b_data z)\<rparr>) s1 = s2"
    unfolding s2_def by (rule upd_buf_cong) (simp add: d1)
  have len: "nat (lh_n (lh s)) = length hs" by (simp add: hs length_homes)
  let ?K3 = "K(bn := \<lparr>k_data = f ?x, k_refs = 2, k_lock = ?hd\<rparr>)"
  have "\<exists>s' h. log_write b s2 = Ret () s' \<and> bio_frame (s2\<lparr>lh := h\<rparr>) s' \<and> 0 \<le> lh_n h \<and> homes h = tx_add hs bn \<and>
    bst (log_dev s2) s' (if bn \<in> set hs then ?K2 else ?K2(bn := \<lparr>k_data = f ?x, k_refs = ?r + 1 + 1, k_lock = ?hd\<rparr>)) d w \<and>
    bufv (log_dev s2) s' = bufv (log_dev s2) s2"
    by (rule log_write_spec [of s2 ?K2 d w b bn]) (use s2 1(2) eq2 n len hs in auto)
  then obtain s3 h where s3: "log_write b s2 = Ret () s3" "bio_frame (s2\<lparr>lh := h\<rparr>) s3" "0 \<le> lh_n h"
    "homes h = tx_add hs bn" "bst ?dev s3 ?K3 d w" "bufv ?dev s3 = bufv ?dev s1"
    using eq2 s2(2) by (auto split: if_splits)
  have fr3: "bio_frame (s\<lparr>lh := h\<rparr>) s3" using bio_frame_trans [OF bio_frame_lh [OF fr2] s3(2)] .
  have h3: "held_by s3 = ?hd" using bio_frameD(3) [OF fr3] by (simp add: held_by_def myproc_def)
  let ?K4 = "K(bn := \<lparr>k_data = f ?x, k_refs = 1, k_lock = initsleeplock\<rparr>)"
  obtain s4 where s4: "brelse b s3 = Ret () s4" "bst ?dev s4 ?K4 d w" "bio_frame s3 s4"
    by (rule brelse_bst [OF s3(5), of b bn "f ?x" 2]) (use s3(6) 1(2) h3 in auto)
  have "log_update ?dev bn f s = Ret () s4"
    unfolding log_update_def using 1(1) u s3(1) s4(1) by simp
  moreover have "at_rest (log_start s) L (tx_add hs bn) ?K4"
    using rest n bn by (auto simp: at_rest_def tx_add_def)
  ultimately show ?thesis using s3(3,4) s4(2) bio_frame_trans [OF fr3 s4(3)] by blast
qed

lemma log_ok_counters [simp]:
  "log_ok (s\<lparr>log_outstanding := k\<rparr>) = log_ok s" "log_ok (s\<lparr>log_committing := c\<rparr>) = log_ok s"
  "log_ok (wakeup ch s) = log_ok s"
proof -
  have *: "log_ok t = log_ok s" if "bufs t = bufs s" "disk t = disk s" "log_dev t = log_dev s"
    "log_start t = log_start s" "log_size t = log_size s" "lh t = lh s" for t :: "'a log_state_scheme"
    using bio_ok_same_bufs(1,2) [OF that(1,2)] that by (simp add: log_ok_def)
  show "log_ok (s\<lparr>log_outstanding := k\<rparr>) = log_ok s" "log_ok (s\<lparr>log_committing := c\<rparr>) = log_ok s"
    "log_ok (wakeup ch s) = log_ok s" by (rule *; simp add: wakeup_def)+
qed

lemma wakeup_log_fields [simp]:
  fixes s :: "'a log_state_scheme"
  shows "lh (wakeup c s) = lh s" "log_outstanding (wakeup c s) = log_outstanding s"
    "log_committing (wakeup c s) = log_committing s" "log_dev (wakeup c s) = log_dev s"
    "log_start (wakeup c s) = log_start s" "log_size (wakeup c s) = log_size s"
  by (simp_all add: wakeup_def)

lemma block_counters [simp]:
  "block dev (s\<lparr>log_outstanding := k\<rparr>) = block dev s" "block dev (s\<lparr>log_committing := c\<rparr>) = block dev s"
  by (rule bio_ok_same_bufs(2); simp)+

lemma end_op_last:
  assumes ok: "log_ok s" and "log_outstanding s = 1" and "\<not> log_committing s"
  obtains s' where "end_op s = Ret () s'" and "log_ok s'" and "lh_n (lh s') = 0" and "log_outstanding s' = 0"
    and "\<not> log_committing s'"
    and "\<And>b. b \<notin> log_area (log_start s) (nat (log_size s)) \<Longrightarrow> disk s' b = k_data (block (log_dev s) s b)"
proof -
  let ?s = "s\<lparr>log_outstanding := 0, log_committing := True\<rparr>"
  have ok': "log_ok ?s" using ok by simp
  obtain t where c: "commit ?s = Ret () t" "bio_frame (?s\<lparr>lh := (lh ?s)\<lparr>lh_n := 0\<rparr>\<rparr>) t"
    "bst (log_dev ?s) t (apply_clean (block (log_dev ?s) ?s) (commit_writes ?s))
      (apply_writes (disk ?s) (commit_writes ?s)) (wtrace ?s @ commit_writes ?s)"
    using commit_spec [OF ok'] by blast
  note r = commit_writes_result [OF ok']
  note fr = bio_frame_logD [OF c(2)]
  have "0 < log_size s" using ok by (auto simp: log_ok_def at_rest_def)
  then have t: "log_ok t \<and> lh_n (lh t) = 0"
    by (intro log_ok_recovered [OF c(2)]) (use c(3) r in \<open>auto simp: bst_def\<close>)
  have "end_op s = Ret () (wakeup Chan_log (t\<lparr>log_committing := False\<rparr>))"
    using assms(2,3) c(1) by (simp add: end_op_def Let_def)
  then show ?thesis
  proof (rule that)
    show "disk (wakeup Chan_log (t\<lparr>log_committing := False\<rparr>)) b = k_data (block (log_dev s) s b)"
      if "b \<notin> log_area (log_start s) (nat (log_size s))" for b
      using c(3) r(2) [of b] that by (simp add: bst_def)
  qed (use t fr in auto)
qed

text \<open>
  C7: A file-system operation that updates one block, run on its own, is durable: after
  \<open>begin_op\<close>, the update and \<open>end_op\<close>, the block has its new contents on the disk, every
  other block outside the log is as before, and the log is empty again.
\<close>

theorem transaction_durable:
  fixes s :: "'a log_state_scheme"
  assumes ok: "log_ok s" and idle: "lh_n (lh s) = 0" "log_outstanding s = 0" "\<not> log_committing s"
    and size: "log_size s \<ge> 3" and bn: "bn \<notin> log_area (log_start s) (nat (log_size s))"
    and f: "\<forall>x. length x = BSIZE \<longrightarrow> length (f x) = BSIZE"
  shows "\<exists>s'. thenM begin_op (thenM (log_update (log_dev s) bn f) end_op) s = Ret () s' \<and> log_ok s' \<and>
    lh_n (lh s') = 0 \<and> log_outstanding s' = 0 \<and> disk s' bn = f (disk s bn) \<and>
    (\<forall>b. b \<notin> log_area (log_start s) (nat (log_size s)) \<longrightarrow> b \<noteq> bn \<longrightarrow> disk s' b = disk s b)"
proof -
  let ?s = "s\<lparr>log_outstanding := 1\<rparr>" and ?L = "nat (log_size s)" and ?K = "block (log_dev s) s"
  have "begin_op s = Ret () ?s" using idle by (simp add: begin_op_def)
  have hs: "homes (lh s) = []" using idle by (simp add: homes_def)
  have rest: "at_rest (log_start s) ?L [] ?K" and bs: "bst (log_dev s) s ?K (disk s) (wtrace s)"
    using ok hs by (simp_all add: log_ok_def bst_def)
  have view: "k_data (?K b) = disk s b" for b using bst_clean [OF bs, of b] rest by (simp add: at_rest_def)
  let ?K' = "?K(bn := \<lparr>k_data = f (k_data (?K bn)), k_refs = 1, k_lock = initsleeplock\<rparr>)"
  have "\<exists>t h. log_update (log_dev ?s) bn f ?s = Ret () t \<and> bio_frame (?s\<lparr>lh := h\<rparr>) t \<and> 0 \<le> lh_n h \<and>
    homes h = tx_add [] bn \<and> at_rest (log_start ?s) ?L (tx_add [] bn) ?K' \<and> bst (log_dev ?s) t ?K' (disk s) (wtrace s)"
    by (rule log_update_spec) (use rest bs hs size bn idle f in \<open>simp_all add: bst_def bio_ok_same_bufs(1) [of ?s s]\<close>)
  then obtain t h where t: "log_update (log_dev s) bn f ?s = Ret () t" "bio_frame (?s\<lparr>lh := h\<rparr>) t" "0 \<le> lh_n h"
    "homes h = [bn]" "at_rest (log_start s) ?L [bn] ?K'" "bst (log_dev s) t ?K' (disk s) (wtrace s)"
    by (auto simp: tx_add_def)
  note fr = bio_frame_logD [OF t(2)]
  have okt: "log_ok t" using t fr ok by (simp add: log_ok_def bst_def)
  have "log_outstanding t = 1" "\<not> log_committing t" using fr idle by simp_all
  from end_op_last [OF okt this] obtain s' where s': "end_op t = Ret () s'" "log_ok s'" "lh_n (lh s') = 0"
    "log_outstanding s' = 0" "\<And>b. b \<notin> log_area (log_start t) (nat (log_size t)) \<Longrightarrow> disk s' b = k_data (block (log_dev t) t b)"
    by metis
  have "disk s' b = k_data (?K' b)" if "b \<notin> log_area (log_start s) ?L" for b
    using s'(5) [of b] that fr t(6) by (simp add: bst_def)
  then have "disk s' bn = f (disk s bn)" "\<And>b. b \<notin> log_area (log_start s) ?L \<Longrightarrow> b \<noteq> bn \<Longrightarrow> disk s' b = disk s b"
    using bn view by simp_all
  then show ?thesis using \<open>begin_op s = Ret () ?s\<close> t(1) s' by simp
qed

definition idle_log :: log_state where
  "idle_log = binit (zero_log\<lparr>lh := \<lparr>lh_n = 0, lh_block = (\<lambda>_. 0)\<rparr>\<rparr>)"

lemma binit_counters:
  fixes s :: "'a log_state_scheme"
  shows "log_outstanding (binit s) = log_outstanding s" "log_committing (binit s) = log_committing s"
proof -
  have "log_outstanding (fold binit_step is u) = log_outstanding u \<and> log_committing (fold binit_step is u) = log_committing u"
    for "is" and u :: "'a log_state_scheme"
    by (induction "is" arbitrary: u) (simp_all add: binit_step_def upd_buf_def Let_def)
  then show "log_outstanding (binit s) = log_outstanding s" "log_committing (binit s) = log_committing s"
    by (simp_all add: binit_def upd_buf_def Let_def)
qed

lemma idle_log_fields:
  "log_dev idle_log = 1" "log_start idle_log = 2" "log_size idle_log = 30" "lh_n (lh idle_log) = 0"
  "log_outstanding idle_log = 0" "\<not> log_committing idle_log" "disk idle_log = (\<lambda>_. replicate BSIZE 0)"
  and log_ok_idle_log: "log_ok idle_log"
proof -
  let ?z = "zero_log\<lparr>lh := \<lparr>lh_n = 0, lh_block = (\<lambda>_. 0)\<rparr>\<rparr>"
  have "boot_bufs ?z" by (simp add: boot_bufs_def zero_log_def zero_buf_def)
  note boot = binit_bio_ok [OF this, of 1]
  show f: "log_dev idle_log = 1" "log_start idle_log = 2" "log_size idle_log = 30" "lh_n (lh idle_log) = 0"
    "log_outstanding idle_log = 0" "\<not> log_committing idle_log" "disk idle_log = (\<lambda>_. replicate BSIZE 0)"
    using boot(2) by (simp_all add: idle_log_def binit_log_fields binit_counters zero_log_def)
  show "log_ok idle_log"
    using boot(1,4) f by (simp add: log_ok_def at_rest_def homes_def idle_log_def header_homes_zeros)
qed

theorem transaction_durable_witness:
  "\<exists>s'. thenM begin_op (thenM (log_update 1 100 (\<lambda>x. put32 x 0 7)) end_op) idle_log = Ret () s' \<and> log_ok s' \<and>
    lh_n (lh s') = 0 \<and> log_outstanding s' = 0 \<and> disk s' 100 = put32 (replicate BSIZE 0) 0 7 \<and>
    (\<forall>b. b \<notin> log_area 2 30 \<longrightarrow> b \<noteq> 100 \<longrightarrow> disk s' b = replicate BSIZE 0)"
proof -
  have "(100 :: u32) \<notin> log_area (log_start idle_log) (nat (log_size idle_log))"
    by (simp add: idle_log_fields log_area_def)
  from transaction_durable [OF log_ok_idle_log _ _ _ _ this, of "\<lambda>x. put32 x 0 7"]
  show ?thesis by (simp add: idle_log_fields)
qed

section \<open>Size of a transaction\<close>



end
