(* ===== verification/Uart.thy ===== *)
theory Uart
  imports Crash
begin

text \<open>
  The UART driver, \<^verbatim>\<open>kernel/uart.c\<close>. The device itself is hardware: its transmitter accepts
  some number of bytes before the \<open>LSR_TX_IDLE\<close> bit reads 0, and its receiver holds some bytes
  that arrived. Both are fields of the state that events outside the driver may change; what
  the driver does to the device is the list of its register writes. The software transmit
  buffer is a ring with free-running 64-bit counters and is shown to be a queue.
\<close>

section \<open>Model\<close>

abbreviation (input) UART_TX_BUF_SIZE :: nat where "UART_TX_BUF_SIZE \<equiv> 32"

abbreviation (input) THR :: nat where "THR \<equiv> 0"
abbreviation (input) IER :: nat where "IER \<equiv> 1"
abbreviation (input) FCR :: nat where "FCR \<equiv> 2"
abbreviation (input) LCR :: nat where "LCR \<equiv> 3"

text \<open>
  \<open>uart_wr\<close> is the trace of register writes (register, value), oldest first; \<open>uart_room\<close> the
  number of bytes the transmitter takes before it is no longer idle; \<open>uart_rx\<close> the bytes the
  receiver holds; \<open>panicked\<close> the flag of \<^verbatim>\<open>kernel/printf.c\<close>.
\<close>

record uart_state = log_state +
  uart_tx_buf :: "nat \<Rightarrow> u8"
  uart_tx_w :: u64
  uart_tx_r :: u64
  uart_wr :: "(nat \<times> u8) list"
  uart_room :: nat
  uart_rx :: "u8 list"
  panicked :: bool

definition WriteReg :: "nat \<Rightarrow> u8 \<Rightarrow> 'a uart_state_scheme \<Rightarrow> 'a uart_state_scheme" where
  "WriteReg r v s = s\<lparr>uart_wr := uart_wr s @ [(r, v)]\<rparr>"

text \<open>A byte for the transmitter: a write to \<open>THR\<close> outside the mode that sets the baud rate.\<close>

definition write_thr :: "u8 \<Rightarrow> 'a uart_state_scheme \<Rightarrow> 'a uart_state_scheme" where
  "write_thr c s = (WriteReg THR c s)\<lparr>uart_room := uart_room s - 1\<rparr>"

definition uartinit :: "('a uart_state_scheme, unit) M" where
  "uartinit =
     thenM (modM (WriteReg IER 0x00))
    (thenM (modM (WriteReg LCR 0x80))
    (thenM (modM (WriteReg 0 0x03))
    (thenM (modM (WriteReg 1 0x00))
    (thenM (modM (WriteReg LCR 0x03))
    (thenM (modM (WriteReg FCR 0x07))
           (modM (WriteReg IER 0x03)))))))"

text \<open>The ring: the byte \<open>uartputc\<close> adds and the byte \<open>uartstart\<close> takes.\<close>

definition tx_put :: "u8 \<Rightarrow> 'a uart_state_scheme \<Rightarrow> 'a uart_state_scheme" where
  "tx_put c s = s\<lparr>uart_tx_buf := (uart_tx_buf s)(unat (uart_tx_w s) mod UART_TX_BUF_SIZE := c),
                  uart_tx_w := uart_tx_w s + 1\<rparr>"

definition tx_get :: "'a uart_state_scheme \<Rightarrow> u8 \<times> 'a uart_state_scheme" where
  "tx_get s = (uart_tx_buf s (unat (uart_tx_r s) mod UART_TX_BUF_SIZE), s\<lparr>uart_tx_r := uart_tx_r s + 1\<rparr>)"

definition tx_full :: "'a uart_state_scheme \<Rightarrow> bool" where
  "tx_full s \<longleftrightarrow> uart_tx_w s = uart_tx_r s + of_nat UART_TX_BUF_SIZE"

definition tx_empty :: "'a uart_state_scheme \<Rightarrow> bool" where
  "tx_empty s \<longleftrightarrow> uart_tx_w s = uart_tx_r s"

definition send_one :: "'a uart_state_scheme \<Rightarrow> 'a uart_state_scheme" where
  "send_one s = (let (c, s1) = tx_get s in write_thr c (wakeup Chan_uart s1))"

lemma send_one_room [simp]: "uart_room (send_one s) = uart_room s - 1"
  by (simp add: send_one_def tx_get_def write_thr_def WriteReg_def wakeup_def)

function uartstart :: "'a uart_state_scheme \<Rightarrow> 'a uart_state_scheme" where
  "uartstart s =
     (if tx_empty s then s
      else if uart_room s = 0 then s
      else uartstart (send_one s))"
  by pat_completeness auto
termination
  by (relation "measure uart_room") auto

declare uartstart.simps [simp del]

text \<open>
  A CPU that finds \<open>panicked\<close> set stops for ever, like the CPU that called \<open>panic\<close>; the model
  gives both the same kind of result.
\<close>

definition uartputc :: "u8 \<Rightarrow> ('a uart_state_scheme, unit) M" where
  "uartputc c s =
     (if panicked s then Panic ''panicked''
      else if tx_full s then Block Chan_uart s
      else Ret () (uartstart (tx_put c s)))"

text \<open>The wait for an idle transmitter changes nothing; afterwards it takes the byte.\<close>

definition uartputc_sync :: "u8 \<Rightarrow> ('a uart_state_scheme, unit) M" where
  "uartputc_sync c s = (if panicked s then Panic ''panicked'' else Ret () (write_thr c s))"

definition uartgetc :: "'a uart_state_scheme \<Rightarrow> u8 option \<times> 'a uart_state_scheme" where
  "uartgetc s = (case uart_rx s of [] \<Rightarrow> (None, s) | c # cs \<Rightarrow> (Some c, s\<lparr>uart_rx := cs\<rparr>))"

section \<open>The transmit buffer is a queue\<close>

definition tx_pending :: "'a uart_state_scheme \<Rightarrow> u8 list" where
  "tx_pending s = ring_contents UART_TX_BUF_SIZE (uart_tx_buf s) (uart_tx_r s) (uart_tx_w s)"

definition tx_ok :: "'a uart_state_scheme \<Rightarrow> bool" where
  "tx_ok s \<longleftrightarrow> unat (uart_tx_w s - uart_tx_r s) \<le> UART_TX_BUF_SIZE"

lemma tx_full_iff: "tx_full s \<longleftrightarrow> unat (uart_tx_w s - uart_tx_r s) = UART_TX_BUF_SIZE"
proof -
  have "uart_tx_w s = uart_tx_r s + 32 \<longleftrightarrow> uart_tx_w s - uart_tx_r s = 32" by (auto simp: algebra_simps)
  also have "\<dots> \<longleftrightarrow> unat (uart_tx_w s - uart_tx_r s) = 32" by (simp add: word_unat_eq_iff)
  finally show ?thesis by (simp add: tx_full_def)
qed

interpretation txq: fifo tx_put tx_get tx_full tx_empty tx_pending UART_TX_BUF_SIZE tx_ok
proof
  fix s :: "'a uart_state_scheme" and c
  assume ok: "tx_ok s"
  show "tx_full s \<longleftrightarrow> length (tx_pending s) = UART_TX_BUF_SIZE"
    by (simp add: tx_full_iff tx_pending_def)
  show "tx_empty s \<longleftrightarrow> tx_pending s = []"
    by (auto simp: tx_empty_def tx_pending_def ring_empty_iff)
  show "length (tx_pending s) \<le> UART_TX_BUF_SIZE" using ok by (simp add: tx_ok_def tx_pending_def)
  show "tx_ok (tx_put c s) \<and> tx_pending (tx_put c s) = tx_pending s @ [c]" if "\<not> tx_full s"
  proof -
    have "unat (uart_tx_w s - uart_tx_r s) < 32" using ok that by (simp add: tx_ok_def tx_full_iff)
    then show ?thesis
      using ring_put [of 32 "uart_tx_w s" "uart_tx_r s"] by (simp add: tx_ok_def tx_pending_def tx_put_def)
  qed
  show "tx_ok (snd (tx_get s)) \<and> tx_pending s = fst (tx_get s) # tx_pending (snd (tx_get s))" if "\<not> tx_empty s"
  proof -
    have ne: "uart_tx_r s \<noteq> uart_tx_w s" using that by (auto simp: tx_empty_def)
    note g = ring_get [OF ne, of 32 "uart_tx_buf s"]
    show ?thesis using ok g ring_get_length [OF ne] by (simp add: tx_ok_def tx_pending_def tx_get_def)
  qed
qed

text \<open>The bytes handed to the transmitter so far.\<close>

definition tx_sent :: "'a uart_state_scheme \<Rightarrow> u8 list" where
  "tx_sent s = map snd (filter (\<lambda>(r, v). r = THR) (uart_wr s))"

lemma tx_sent_simps [simp]:
  "tx_sent (tx_put c s) = tx_sent s" "tx_sent (wakeup ch s) = tx_sent s"
  "tx_sent (s\<lparr>uart_tx_r := r\<rparr>) = tx_sent s" "tx_sent (write_thr c s) = tx_sent s @ [c]"
  by (simp_all add: tx_sent_def tx_put_def write_thr_def WriteReg_def wakeup_def)

lemma tx_pending_simps [simp]:
  "tx_pending (wakeup ch s) = tx_pending s" "tx_pending (write_thr c s) = tx_pending s"
  "tx_ok (wakeup ch s) = tx_ok s" "tx_ok (write_thr c s) = tx_ok s"
  by (simp_all add: tx_pending_def tx_ok_def write_thr_def WriteReg_def wakeup_def)

lemma send_one_queue:
  assumes "tx_ok s" and "\<not> tx_empty s"
  shows "tx_ok (send_one s)" and "tx_sent (send_one s) @ tx_pending (send_one s) = tx_sent s @ tx_pending s"
    and "length (tx_pending s) = Suc (length (tx_pending (send_one s)))"
  using txq.get_law [OF assms]
  by (simp_all add: send_one_def case_prod_beta) (simp_all add: tx_get_def)

lemma uartstart_queue:
  assumes "tx_ok s"
  shows "tx_ok (uartstart s) \<and> tx_sent (uartstart s) @ tx_pending (uartstart s) = tx_sent s @ tx_pending s \<and>
    length (tx_pending (uartstart s)) = length (tx_pending s) - uart_room s"
  using assms
proof (induction s rule: uartstart.induct)
  case (1 s)
  show ?case
  proof (cases "tx_empty s \<or> uart_room s = 0")
    case True
    then show ?thesis using 1(2) txq.void_iff [OF 1(2)] by (auto simp: uartstart.simps [of s])
  next
    case False
    then have *: "\<not> tx_empty s" "uart_room s \<noteq> 0" by auto
    note q = send_one_queue [OF 1(2) *(1)]
    show ?thesis using 1(1) [OF * q(1)] q * by (simp add: uartstart.simps [of s])
  qed
qed

lemma uartstart_panicked [simp]: "panicked (uartstart s) = panicked s"
proof (induction s rule: uartstart.induct)
  case (1 s)
  have "panicked (send_one s) = panicked s"
    by (simp add: send_one_def tx_get_def write_thr_def WriteReg_def wakeup_def)
  with 1 show ?case by (simp add: uartstart.simps [of s])
qed

text \<open>
  What a client of the driver sees: a sequence of \<open>uartputc\<close> calls and of transmit interrupts.
  An interrupt finds the transmitter with room for \<open>k\<close> more bytes. A byte that is refused because the
  buffer is full is not counted as accepted (its caller sleeps).
\<close>

datatype tx_event = Putc u8 | Tx_interrupt nat

fun run_tx :: "tx_event list \<Rightarrow> 'a uart_state_scheme \<Rightarrow> u8 list \<times> 'a uart_state_scheme" where
  "run_tx [] s = ([], s)"
| "run_tx (Putc c # es) s =
     (case uartputc c s of
        Ret _ s' \<Rightarrow> (case run_tx es s' of (acc, t) \<Rightarrow> (c # acc, t))
      | _ \<Rightarrow> run_tx es s)"
| "run_tx (Tx_interrupt k # es) s = run_tx es (uartstart (s\<lparr>uart_room := uart_room s + k\<rparr>))"

text \<open>
  C24: The UART transmits exactly the bytes it accepted, in order: after any sequence of
  \<open>uartputc\<close> calls and transmit interrupts, the bytes sent followed by the bytes still buffered
  are the bytes sent or buffered before followed by the accepted ones; at most 32 are buffered.
\<close>

theorem uart_output_in_order:
  assumes "tx_ok s" and "run_tx es s = (accepted, s')"
  shows "tx_sent s' @ tx_pending s' = tx_sent s @ tx_pending s @ accepted \<and>
    length (tx_pending s') \<le> UART_TX_BUF_SIZE"
  using assms
proof (induction es arbitrary: s accepted s')
  case Nil
  then show ?case by (simp add: txq.within)
next
  case (Cons e es)
  show ?case
  proof (cases e)
    case (Putc c)
    show ?thesis
    proof (cases "panicked s \<or> tx_full s")
      case True
      then have "run_tx (e # es) s = run_tx es s" by (auto simp: Putc uartputc_def)
      then show ?thesis using Cons.IH [OF Cons.prems(1)] Cons.prems(2) by metis
    next
      case False
      then have r: "uartputc c s = Ret () (uartstart (tx_put c s))" and nf: "\<not> tx_full s"
        by (auto simp: uartputc_def)
      note p = txq.put_law [OF Cons.prems(1) nf, of c]
      note u = uartstart_queue [OF conjunct1 [OF p]]
      obtain acc t where t: "run_tx es (uartstart (tx_put c s)) = (acc, t)" by (rule prod.exhaust)
      from Cons.IH [OF _ t] u p t r Cons.prems(2) show ?thesis by (auto simp: Putc)
    qed
  next
    case (Tx_interrupt k)
    let ?s = "s\<lparr>uart_room := uart_room s + k\<rparr>"
    have same: "tx_ok ?s" "tx_sent ?s = tx_sent s" "tx_pending ?s = tx_pending s"
      using Cons.prems(1) by (simp_all add: tx_ok_def tx_sent_def tx_pending_def)
    note u = uartstart_queue [OF same(1)]
    from Cons.IH [of "uartstart ?s"] u Cons.prems(2) same show ?thesis
      by (auto simp: Tx_interrupt)
  qed
qed

definition uart_boot :: uart_state where
  "uart_boot = log_state.extend idle_log
     \<lparr>uart_tx_buf = (\<lambda>_. 0), uart_tx_w = 0, uart_tx_r = 0, uart_wr = [], uart_room = 1, uart_rx = [],
      panicked = False\<rparr>"

lemma uart_boot_fields [simp]:
  "uart_tx_buf uart_boot = (\<lambda>_. 0)" "uart_tx_w uart_boot = 0" "uart_tx_r uart_boot = 0" "uart_wr uart_boot = []"
  "uart_room uart_boot = 1" "\<not> panicked uart_boot"
  by (simp_all add: uart_boot_def log_state.defs)

theorem uart_output_in_order_witness:
  "\<exists>s'. run_tx [Putc 104, Putc 105, Tx_interrupt 1] uart_boot = ([104, 105], s') \<and>
     tx_sent s' @ tx_pending s' = [104, 105] \<and> length (tx_pending s') \<le> UART_TX_BUF_SIZE"
proof -
  have ok: "tx_ok uart_boot" and e: "tx_sent uart_boot = []" "tx_pending uart_boot = []"
    by (simp_all add: tx_ok_def tx_sent_def tx_pending_def ring_contents_def)
  have "fst (run_tx [Putc 104, Putc 105, Tx_interrupt 1] uart_boot) = [104, 105]"
    by (simp add: uartputc_def tx_full_def tx_empty_def tx_put_def send_one_def tx_get_def write_thr_def
        WriteReg_def wakeup_def uartstart.simps)
  then obtain t where t: "run_tx [Putc 104, Putc 105, Tx_interrupt 1] uart_boot = ([104, 105], t)"
    by (metis prod.collapse)
  show ?thesis using uart_output_in_order [OF ok t] e t by simp
qed

end
