(* ===== verification/Printf.thy ===== *)
theory Printf
  imports Uart
begin

text \<open>
  Formatted output of the kernel, \<^verbatim>\<open>kernel/printf.c\<close>, and \<open>consputc\<close> of
  \<^verbatim>\<open>kernel/console.c\<close> through which it prints. The text a call produces is computed first and
  then sent byte by byte. The variable arguments are 64-bit slots or strings.
\<close>

section \<open>Model\<close>

abbreviation (input) BACKSPACE :: int where "BACKSPACE \<equiv> 0x100"

definition consputc :: "int \<Rightarrow> ('a uart_state_scheme, unit) M" where
  "consputc c =
     (if c = BACKSPACE then thenM (uartputc_sync 8) (thenM (uartputc_sync 32) (uartputc_sync 8))
      else uartputc_sync (of_int c))"

definition str :: "string \<Rightarrow> u8 list" where
  "str cs = map of_char cs"

definition digits :: "nat \<Rightarrow> u8" where
  "digits k = str ''0123456789abcdef'' ! k"

text \<open>
  The loop that fills \<open>buf\<close>, least significant digit first. The base is 10 or 16; the first
  clause only excludes the bases for which the C loop would not end.
\<close>

function printint_digits :: "u64 \<Rightarrow> u64 \<Rightarrow> u8 list" where
  "printint_digits x base =
     (if base < 2 then []
      else digits (unat (x mod base)) # (if x div base = 0 then [] else printint_digits (x div base) base))"
  by pat_completeness auto
termination
proof (relation "measure (\<lambda>(x, base). unat x)", simp)
  fix x base :: u64
  assume b: "\<not> base < 2" and nz: "x div base \<noteq> 0"
  from nz have "0 < unat (x div base)" using unat_gt_0 by blast
  then have "0 < unat x div unat base" by (simp add: unat_div)
  then have "0 < unat x" by (cases "unat x = 0") auto
  moreover have "2 \<le> unat base" using b by (simp add: word_less_nat_alt)
  ultimately show "((x div base, base), x, base) \<in> measure (\<lambda>(x, base). unat x)"
    by (simp add: unat_div)
qed

declare printint_digits.simps [simp del]

text \<open>
  \<open>printint\<close> returns the bytes it prints, or \<open>None\<close> if it writes past the end of its local
  array \<open>buf[16]\<close>.
\<close>

definition printint :: "u64 \<Rightarrow> u64 \<Rightarrow> bool \<Rightarrow> u8 list option" where
  "printint xx base sign =
     (let neg = (sign \<and> sint xx < 0);
          x = (if neg then - xx else xx);
          buf = printint_digits x base @ (if neg then str ''-'' else [])
      in if length buf > 16 then None else Some (rev buf))"

definition printptr :: "u64 \<Rightarrow> u8 list" where
  "printptr x = str ''0x'' @ map (\<lambda>i. digits (unat (drop_bit 60 (push_bit (4 * i) x)))) [0..<16]"

datatype parg = Num u64 | Str "u8 list" | Null

definition at0 :: "u8 list \<Rightarrow> nat \<Rightarrow> u8" where
  "at0 xs i = (if i < length xs then xs ! i else 0)"

text \<open>\<open>va_arg(ap, int)\<close> is the low half of the slot, sign-extended when passed to \<open>printint\<close>.\<close>

definition int_slot :: "u64 \<Rightarrow> u64" where
  "int_slot w = scast (ucast w :: u32)"

fun num_conv :: "parg list \<Rightarrow> (u64 \<Rightarrow> u8 list option) \<Rightarrow> nat \<Rightarrow> (u8 list \<times> nat \<times> parg list) option" where
  "num_conv (Num w # args) pr k = (case pr w of Some out \<Rightarrow> Some (out, k, args) | None \<Rightarrow> None)"
| "num_conv args pr k = None"

fun str_conv :: "parg list \<Rightarrow> (u8 list \<times> nat \<times> parg list) option" where
  "str_conv (Str s # args) = Some (s, 1, args)"
| "str_conv (Null # args) = Some (str ''(null)'', 1, args)"
| "str_conv args = None"

text \<open>
  One conversion: \<open>r\<close> is the format after the percent sign. The result is the output, the
  number of characters of \<open>r\<close> it used, and the remaining arguments; \<open>None\<close> if the arguments
  do not match the conversion, which C leaves undefined, or if \<open>printint\<close> overflows.
\<close>

definition conversion :: "u8 list \<Rightarrow> parg list \<Rightarrow> (u8 list \<times> nat \<times> parg list) option" where
  "conversion r args =
     (let c0 = at0 r 0; c1 = (if c0 \<noteq> 0 then at0 r 1 else 0); c2 = (if c1 \<noteq> 0 then at0 r 2 else 0);
          d = 100; l = 108; u = 117; x = 120 in
      if c0 = d then num_conv args (\<lambda>w. printint (int_slot w) 10 True) 1
      else if c0 = l \<and> c1 = d then num_conv args (\<lambda>w. printint w 10 True) 2
      else if c0 = l \<and> c1 = l \<and> c2 = d then num_conv args (\<lambda>w. printint w 10 True) 3
      else if c0 = u then num_conv args (\<lambda>w. printint (int_slot w) 10 False) 1
      else if c0 = l \<and> c1 = u then num_conv args (\<lambda>w. printint w 10 False) 2
      else if c0 = l \<and> c1 = l \<and> c2 = u then num_conv args (\<lambda>w. printint w 10 False) 3
      else if c0 = x then num_conv args (\<lambda>w. printint (int_slot w) 16 False) 1
      else if c0 = l \<and> c1 = x then num_conv args (\<lambda>w. printint w 16 False) 2
      else if c0 = l \<and> c1 = l \<and> c2 = x then num_conv args (\<lambda>w. printint w 16 False) 3
      else if c0 = 112 then num_conv args (\<lambda>w. Some (printptr w)) 1
      else if c0 = 115 then str_conv args
      else if c0 = 37 then Some ([37], 1, args)
      else if c0 = 0 then Some ([], length r, args)
      else Some ([37, c0], 1, args))"

function format :: "u8 list \<Rightarrow> parg list \<Rightarrow> u8 list option" where
  "format fmt args =
     (case fmt of
        [] \<Rightarrow> Some []
      | cx # r \<Rightarrow>
          if cx \<noteq> 37 then (case format r args of Some out \<Rightarrow> Some (cx # out) | None \<Rightarrow> None)
          else (case conversion r args of
                  None \<Rightarrow> None
                | Some (out, k, args') \<Rightarrow>
                    (case format (drop k r) args' of Some out' \<Rightarrow> Some (out @ out') | None \<Rightarrow> None)))"
  by pat_completeness auto
termination
  by (relation "measure (\<lambda>(fmt, args). length fmt)") auto

declare format.simps [simp del]

definition printf :: "string \<Rightarrow> parg list \<Rightarrow> ('a uart_state_scheme, unit) M" where
  "printf fmt args =
     (case format (str fmt) args of
        Some out \<Rightarrow> eachM (\<lambda>c. consputc (uint c)) out
      | None \<Rightarrow> panicM ''stack corrupted'')"

text \<open>
  \<open>panic\<close> prints the message, sets \<open>panicked\<close> and stops; \<open>panic_state\<close> is the state that
  the other CPUs then see.
\<close>

definition panic_state :: "string \<Rightarrow> ('a uart_state_scheme, unit) M" where
  "panic_state m =
     thenM (printf ''panic: '' []) (thenM (printf ''%s\<newline>'' [Str (str m)]) (modM (\<lambda>s. s\<lparr>panicked := True\<rparr>)))"

section \<open>Numbers are printed in positional notation\<close>

text \<open>The specification: the digits of \<open>n\<close> in base \<open>b\<close>, most significant first.\<close>

fun positional :: "nat \<Rightarrow> nat \<Rightarrow> u8 list" where
  "positional b n = (if b < 2 \<or> n < b then [digits n] else positional b (n div b) @ [digits (n mod b)])"

declare positional.simps [simp del]

lemma printint_digits_positional:
  assumes "2 \<le> unat base"
  shows "rev (printint_digits x base) = positional (unat base) (unat x)"
  using assms
proof (induction x base rule: printint_digits.induct)
  case (1 x base)
  have b: "\<not> base < 2" using 1(2) by (simp add: word_less_nat_alt)
  have z: "x div base = 0 \<longleftrightarrow> unat x < unat base"
    using 1(2) by (auto simp: word_unat_eq_iff unat_div div_eq_0_iff)
  show ?case
  proof (cases "unat x < unat base")
    case True
    then show ?thesis using b z by (simp add: printint_digits.simps [of x] positional.simps [of _ "unat x"] unat_mod)
  next
    case False
    then have "rev (printint_digits (x div base) base) = positional (unat base) (unat x div unat base)"
      using 1 b z by (simp add: unat_div)
    then show ?thesis using False b z 1(2)
      by (simp add: printint_digits.simps [of x] positional.simps [of _ "unat x"] unat_mod)
  qed
qed

lemma length_positional:
  assumes "2 \<le> b" and "n < b ^ k" and "0 < k"
  shows "length (positional b n) \<le> k"
  using assms
proof (induction k arbitrary: n)
  case (Suc k)
  show ?case
  proof (cases "n < b")
    case False
    then have k: "0 < k" using Suc.prems by (cases k) auto
    have "n div b < b ^ k" using Suc.prems by (simp add: less_mult_imp_div_less mult.commute)
    then show ?thesis using Suc.IH [of "n div b"] k False Suc.prems(1) by (simp add: positional.simps [of b n])
  qed (simp add: positional.simps [of b n])
qed simp

lemma length_positional_ge:
  assumes "2 \<le> b" and "b ^ k \<le> n"
  shows "k < length (positional b n)"
  using assms
proof (induction k arbitrary: n)
  case 0
  then show ?case by (simp add: positional.simps [of b n])
next
  case (Suc k)
  have "b * 1 \<le> b * b ^ k" using Suc.prems(1) by (intro mult_le_mono2) simp
  then have "b \<le> n" using Suc.prems(2) unfolding power_Suc mult_1_right by (rule le_trans)
  moreover have "b ^ k \<le> n div b" using Suc.prems by (simp add: less_eq_div_iff_mult_less_eq mult.commute)
  ultimately show ?case using Suc.IH [of "n div b"] Suc.prems(1) by (simp add: positional.simps [of b n])
qed

lemma sint_int_slot: "sint (int_slot w) = sint (ucast w :: u32)"
proof -
  let ?v = "ucast w :: u32"
  have r: "- (2 ^ 31) \<le> sint ?v" "sint ?v < 2 ^ 31" using sint_range_size [of ?v] by (simp_all add: word_size)
  have "int_slot w = of_int (sint ?v)" by (simp add: int_slot_def)
  then have "sint (int_slot w) = signed_take_bit 63 (sint ?v)" by (simp only: signed_of_int) simp
  also have "\<dots> = sint ?v" by (rule signed_take_bit_int_eq_self) (use r in auto)
  finally show ?thesis .
qed

lemma printint_int: "printint (int_slot w) 10 True \<noteq> None"
proof -
  let ?xx = "int_slot w"
  have r: "- (2 ^ 31) \<le> sint ?xx" "sint ?xx < 2 ^ 31"
    unfolding sint_int_slot using sint_range_size [of "ucast w :: u32"] by (simp_all add: word_size)
  define x where "x = (if sint ?xx < 0 then - ?xx else ?xx)"
  have "x = of_int \<bar>sint ?xx\<bar>" by (simp add: x_def)
  then have "uint x = take_bit 64 \<bar>sint ?xx\<bar>" by (simp only: unsigned_of_int) simp
  then have "uint x = \<bar>sint ?xx\<bar>" using r by (simp add: take_bit_int_eq_self)
  then have "unat x < 10 ^ 15" using r by (simp add: unat_eq_nat_uint nat_less_iff)
  then have "length (positional 10 (unat x)) \<le> 15" by (intro length_positional) auto
  moreover have "rev (printint_digits x 10) = positional 10 (unat x)"
    using printint_digits_positional [of 10 x] by simp
  ultimately have "length (printint_digits x 10) \<le> 15" by (metis length_rev)
  then show ?thesis unfolding printint_def by (simp add: Let_def x_def str_def split: if_splits)
qed
text \<open>
  C25: \<open>printint\<close> prints an unsigned number in positional notation when it has at most
  sixteen digits, and otherwise writes beyond the end of its buffer. Sixteen digits are enough
  for every 64-bit number in base 16 but not in base 10.
\<close>

theorem printint_unsigned:
  assumes "2 \<le> unat base"
  shows "printint x base False =
    (if unat x < unat base ^ 16 then Some (positional (unat base) (unat x)) else None)"
proof -
  have rev: "rev (printint_digits x base) = positional (unat base) (unat x)"
    by (rule printint_digits_positional [OF assms])
  then have len: "length (printint_digits x base) = length (positional (unat base) (unat x))"
    by (metis length_rev)
  show ?thesis
  proof (cases "unat x < unat base ^ 16")
    case True
    then have "length (printint_digits x base) \<le> 16"
      using length_positional [OF assms, of "unat x" 16] len by simp
    then show ?thesis using True rev by (simp add: printint_def Let_def)
  next
    case False
    then have "16 < length (printint_digits x base)"
      using length_positional_ge [OF assms, of 16 "unat x"] len by simp
    then show ?thesis using False by (simp add: printint_def Let_def)
  qed
qed

theorem printint_unsigned_witness:
  "printint 255 16 False = Some (positional 16 255) \<and> printint 0xFFFFFFFFFFFFFFFF 10 False = None"
  using printint_unsigned [where base = 16 and x = 255] printint_unsigned [where base = 10 and x = "0xFFFFFFFFFFFFFFFF"] by simp

text \<open>
  C26: Printing an \<open>unsigned int\<close> with \<open>%u\<close> corrupts the kernel stack as soon as its top bit is
  set: the argument is fetched as an \<open>int\<close> and sign-extended to 64 bits, which gives twenty
  decimal digits for a buffer of sixteen.
\<close>

theorem printf_u_overflows:
  assumes "bit w 31"
  shows "format (str ''%u'') [Num w] = None"
proof -
  have msb: "bit (int_slot w) n" if "31 \<le> n" "n < 64" for n
    using that assms by (simp add: int_slot_def bit_simps not_less min_def)
  have "drop_bit 31 (int_slot w) = mask 33"
    by (rule bit_word_eqI) (use msb in \<open>auto simp: bit_drop_bit_eq bit_mask_iff dest: bit_imp_le_length\<close>)
  then have "unat (drop_bit 31 (int_slot w)) = unat (mask 33 :: u64)" by (rule arg_cong)
  then have "unat (int_slot w) div 2 ^ 31 = 2 ^ 33 - 1"
    by (simp add: drop_bit_eq_div mask_eq_exp_minus_1 unat_div)
  moreover have "unat (int_slot w) div 2 ^ 31 * 2 ^ 31 \<le> unat (int_slot w)" by (rule div_times_less_eq_dividend)
  ultimately have big: "(10 :: nat) ^ 16 \<le> unat (int_slot w)" by simp
  have "rev (printint_digits (int_slot w) 10) = positional 10 (unat (int_slot w))"
    using printint_digits_positional [of 10 "int_slot w"] by simp
  then have "16 < length (rev (printint_digits (int_slot w) 10))"
    using length_positional_ge [of 10 16 "unat (int_slot w)"] big by simp
  then have "printint (int_slot w) 10 False = None" by (simp add: printint_def Let_def)
  then show ?thesis by (simp add: format.simps str_def conversion_def at0_def)
qed

theorem printf_u_overflows_witness:
  "format (str ''%u'') [Num 0xFFFFFFFF] = None"
  by (rule printf_u_overflows) (simp add: bit_iff_odd)

end
