(* ===== verification/Fs.thy ===== *)
theory Fs
  imports Printf
begin

text \<open>
  The file system, \<^verbatim>\<open>kernel/fs.c\<close>: block bitmap, on-disk and in-memory inodes, file contents,
  directories and path names. On-disk structures are byte ranges of blocks, accessed through
  the buffer cache and the log exactly as in the source. A \<open>struct inode *\<close> is an index of
  the inode table and the null pointer is \<open>None\<close>.
\<close>

section \<open>Copies to and from user or kernel memory\<close>

text \<open>
  \<open>readi\<close> and \<open>writei\<close> move bytes to or from a user virtual address, a kernel address, or a
  local variable of the caller. The bytes that end up in a local variable are returned with the
  result; a local source is given by its bytes.
\<close>

datatype dst = User_dst u64 | Kernel_dst u64 | Local_dst

datatype src = User_src u64 | Kernel_src u64 | Local_src "u8 list"

primrec dst_plus :: "dst \<Rightarrow> nat \<Rightarrow> dst" where
  "dst_plus (User_dst a) m = User_dst (a + of_nat m)"
| "dst_plus (Kernel_dst a) m = Kernel_dst (a + of_nat m)"
| "dst_plus Local_dst m = Local_dst"

primrec src_plus :: "src \<Rightarrow> nat \<Rightarrow> src" where
  "src_plus (User_src a) m = User_src (a + of_nat m)"
| "src_plus (Kernel_src a) m = Kernel_src (a + of_nat m)"
| "src_plus (Local_src bs) m = Local_src (drop m bs)"

primrec either_copyout :: "dst \<Rightarrow> u8 list \<Rightarrow> ('a proc_state_scheme, int \<times> u8 list) M" where
  "either_copyout (User_dst a) bs =
     (\<lambda>s. bindM (copyout (p_pagetable (myproc s)) a bs) (\<lambda>r. retM (r, [])) s)"
| "either_copyout (Kernel_dst a) bs = thenM (modM (\<lambda>s. s\<lparr>mem := store_bytes (mem s) a bs\<rparr>)) (retM (0, []))"
| "either_copyout Local_dst bs = retM (0, bs)"

primrec either_copyin :: "src \<Rightarrow> nat \<Rightarrow> ('a proc_state_scheme, int \<times> u8 list) M" where
  "either_copyin (User_src a) n = (\<lambda>s. copyin (p_pagetable (myproc s)) a n s)"
| "either_copyin (Kernel_src a) n = (\<lambda>s. Ret (0, load_bytes (mem s) a n) s)"
| "either_copyin (Local_src bs) n = retM (0, take n bs)"

section \<open>Superblock and block bitmap\<close>

abbreviation (input) FSMAGIC :: u32 where "FSMAGIC \<equiv> 0x10203040"
abbreviation (input) ROOTINO :: u32 where "ROOTINO \<equiv> 1"
abbreviation (input) NDIRECT :: nat where "NDIRECT \<equiv> 12"
abbreviation (input) NINDIRECT :: nat where "NINDIRECT \<equiv> 256"
abbreviation (input) MAXFILE :: nat where "MAXFILE \<equiv> 268"
abbreviation (input) BPB :: nat where "BPB \<equiv> 8192"
abbreviation (input) DIRSIZ :: nat where "DIRSIZ \<equiv> 14"

abbreviation (input) T_DIR :: u16 where "T_DIR \<equiv> 1"
abbreviation (input) T_FILE :: u16 where "T_FILE \<equiv> 2"
abbreviation (input) T_DEVICE :: u16 where "T_DEVICE \<equiv> 3"

record dinode =
  di_type :: u16
  di_major :: u16
  di_minor :: u16
  di_nlink :: u16
  di_size :: u32
  di_addrs :: "nat \<Rightarrow> u32"       \<comment> \<open>\<open>addrs[NDIRECT+1]\<close>\<close>

record inode =
  ip_dev :: u32
  ip_inum :: u32
  ip_ref :: int
  ip_lock :: sleeplock
  ip_valid :: bool
  ip_type :: u16
  ip_major :: u16
  ip_minor :: u16
  ip_nlink :: u16
  ip_size :: u32
  ip_addrs :: "nat \<Rightarrow> u32"

record fs_state = uart_state +
  sb :: superblock
  itable :: "nat \<Rightarrow> inode"

definition upd_inode :: "nat \<Rightarrow> (inode \<Rightarrow> inode) \<Rightarrow> 'a fs_state_scheme \<Rightarrow> 'a fs_state_scheme" where
  "upd_inode i f s = s\<lparr>itable := (itable s)(i := f (itable s i))\<rparr>"

definition IBLOCK :: "u32 \<Rightarrow> superblock \<Rightarrow> u32" where
  "IBLOCK i x = i div 16 + sb_inodestart x"

definition BBLOCK :: "u32 \<Rightarrow> superblock \<Rightarrow> u32" where
  "BBLOCK b x = b div 8192 + sb_bmapstart x"

definition get_superblock :: "u8 list \<Rightarrow> superblock" where
  "get_superblock d =
     \<lparr>sb_magic = get32 d 0, sb_size = get32 d 4, sb_nblocks = get32 d 8, sb_ninodes = get32 d 12,
      sb_nlog = get32 d 16, sb_logstart = get32 d 20, sb_inodestart = get32 d 24, sb_bmapstart = get32 d 28\<rparr>"

definition readsb :: "u32 \<Rightarrow> ('a fs_state_scheme, unit) M" where
  "readsb dev =
     bindM (bread dev 1) (\<lambda>bp.
     thenM (modM (\<lambda>s. s\<lparr>sb := get_superblock (b_data (bufs s bp))\<rparr>)) (brelse bp))"

definition fsinit :: "u32 \<Rightarrow> ('a fs_state_scheme, unit) M" where
  "fsinit dev =
     thenM (readsb dev) (\<lambda>s.
       if sb_magic (sb s) \<noteq> FSMAGIC then Panic ''invalid file system'' else initlog dev (sb s) s)"

definition bzero :: "u32 \<Rightarrow> u32 \<Rightarrow> ('a fs_state_scheme, unit) M" where
  "bzero dev bno =
     bindM (bread dev bno) (\<lambda>bp.
     thenM (modM (upd_buf bp (\<lambda>x. x\<lparr>b_data := replicate BSIZE 0\<rparr>)))
    (thenM (log_write bp) (brelse bp)))"

text \<open>Bit \<open>bi\<close> of a bitmap block.\<close>

definition bmp_mask :: "nat \<Rightarrow> u8" where
  "bmp_mask bi = push_bit (bi mod 8) 1"

definition bmp_free :: "u8 list \<Rightarrow> nat \<Rightarrow> bool" where
  "bmp_free d bi \<longleftrightarrow> (d ! (bi div 8)) AND bmp_mask bi = 0"

definition bmp_set :: "nat \<Rightarrow> u8 list \<Rightarrow> u8 list" where
  "bmp_set bi d = d[bi div 8 := (d ! (bi div 8)) OR bmp_mask bi]"

definition bmp_clear :: "nat \<Rightarrow> u8 list \<Rightarrow> u8 list" where
  "bmp_clear bi d = d[bi div 8 := (d ! (bi div 8)) AND NOT (bmp_mask bi)]"

text \<open>The list is the values \<open>0, BPB, 2 * BPB, ...\<close> of \<open>b\<close> below \<open>sb.size\<close>.\<close>

fun balloc_loop :: "u32 \<Rightarrow> nat list \<Rightarrow> ('a fs_state_scheme, u32) M" where
  "balloc_loop dev [] s = thenM (printf ''balloc: out of blocks\<newline>'' []) (retM 0) s"
| "balloc_loop dev (b # bs) s =
     bindM (bread dev (BBLOCK (of_nat b) (sb s))) (\<lambda>bp s.
       case first_index (\<lambda>bi. b + bi < unat (sb_size (sb s)) \<and> bmp_free (b_data (bufs s bp)) bi) BPB of
         Some bi \<Rightarrow>
           thenM (modM (upd_buf bp (\<lambda>x. x\<lparr>b_data := bmp_set bi (b_data x)\<rparr>)))
          (thenM (log_write bp)
          (thenM (brelse bp)
          (thenM (bzero dev (of_nat (b + bi))) (retM (of_nat (b + bi)))))) s
       | None \<Rightarrow> thenM (brelse bp) (balloc_loop dev bs) s) s"

definition balloc :: "u32 \<Rightarrow> ('a fs_state_scheme, u32) M" where
  "balloc dev s = balloc_loop dev (map ((*) BPB) [0..<(unat (sb_size (sb s)) + (BPB - 1)) div BPB]) s"

definition bfree :: "u32 \<Rightarrow> u32 \<Rightarrow> ('a fs_state_scheme, unit) M" where
  "bfree dev b s =
     bindM (bread dev (BBLOCK b (sb s))) (\<lambda>bp s.
       let bi = unat b mod BPB in
       if bmp_free (b_data (bufs s bp)) bi then Panic ''freeing free block''
       else thenM (modM (upd_buf bp (\<lambda>x. x\<lparr>b_data := bmp_clear bi (b_data x)\<rparr>)))
           (thenM (log_write bp) (brelse bp)) s) s"

section \<open>Inodes\<close>

definition dinode_off :: "u32 \<Rightarrow> nat" where
  "dinode_off inum = 64 * (unat inum mod 16)"

definition get_dinode :: "u8 list \<Rightarrow> nat \<Rightarrow> dinode" where
  "get_dinode d o' =
     \<lparr>di_type = get16 d o', di_major = get16 d (o' + 2), di_minor = get16 d (o' + 4),
      di_nlink = get16 d (o' + 6), di_size = get32 d (o' + 8),
      di_addrs = (\<lambda>i. if i \<le> NDIRECT then get32 d (o' + 12 + 4 * i) else 0)\<rparr>"

definition put_dinode :: "dinode \<Rightarrow> nat \<Rightarrow> u8 list \<Rightarrow> u8 list" where
  "put_dinode di o' d =
     (let d1 = put16 d o' (di_type di);
          d2 = put16 d1 (o' + 2) (di_major di);
          d3 = put16 d2 (o' + 4) (di_minor di);
          d4 = put16 d3 (o' + 6) (di_nlink di);
          d5 = put32 d4 (o' + 8) (di_size di)
      in fold (\<lambda>i d. put32 d (o' + 12 + 4 * i) (di_addrs di i)) [0..<NDIRECT + 1] d5)"

definition inode_lock :: "nat \<Rightarrow> 'a fs_state_scheme \<Rightarrow> sleeplock" where
  "inode_lock i s = ip_lock (itable s i)"

definition set_inode_lock :: "nat \<Rightarrow> sleeplock \<Rightarrow> 'a fs_state_scheme \<Rightarrow> 'a fs_state_scheme" where
  "set_inode_lock i l = upd_inode i (\<lambda>x. x\<lparr>ip_lock := l\<rparr>)"

definition iinit :: "('a fs_state_scheme, unit) M" where
  "iinit = eachM (\<lambda>i. modM (set_inode_lock i initsleeplock)) [0..<NINODE]"

definition iget :: "u32 \<Rightarrow> u32 \<Rightarrow> ('a fs_state_scheme, nat) M" where
  "iget dev inum s =
     (case first_index (\<lambda>i. let ip = itable s i in ip_ref ip > 0 \<and> ip_dev ip = dev \<and> ip_inum ip = inum) NINODE of
        Some i \<Rightarrow> Ret i (upd_inode i (\<lambda>x. x\<lparr>ip_ref := ip_ref x + 1\<rparr>) s)
      | None \<Rightarrow>
         (case first_index (\<lambda>i. ip_ref (itable s i) = 0) NINODE of
            None \<Rightarrow> Panic ''iget: no inodes''
          | Some i \<Rightarrow>
              Ret i (upd_inode i (\<lambda>x. x\<lparr>ip_dev := dev, ip_inum := inum, ip_ref := 1, ip_valid := False\<rparr>) s)))"

fun ialloc_loop :: "u32 \<Rightarrow> u16 \<Rightarrow> nat list \<Rightarrow> ('a fs_state_scheme, nat option) M" where
  "ialloc_loop dev type [] s = thenM (printf ''ialloc: no inodes\<newline>'' []) (retM None) s"
| "ialloc_loop dev type (inum # inums) s =
     bindM (bread dev (IBLOCK (of_nat inum) (sb s))) (\<lambda>bp s.
       let o' = dinode_off (of_nat inum) in
       if di_type (get_dinode (b_data (bufs s bp)) o') = 0
       then thenM (modM (upd_buf bp (\<lambda>x. x\<lparr>b_data :=
                put_dinode \<lparr>di_type = type, di_major = 0, di_minor = 0, di_nlink = 0, di_size = 0,
                            di_addrs = (\<lambda>_. 0)\<rparr> o' (b_data x)\<rparr>)))
           (thenM (log_write bp)
           (thenM (brelse bp)
           (bindM (iget dev (of_nat inum)) (\<lambda>i. retM (Some i))))) s
       else thenM (brelse bp) (ialloc_loop dev type inums) s) s"

definition ialloc :: "u32 \<Rightarrow> u16 \<Rightarrow> ('a fs_state_scheme, nat option) M" where
  "ialloc dev type s = ialloc_loop dev type [1..<unat (sb_ninodes (sb s))] s"

definition dinode_of :: "inode \<Rightarrow> dinode" where
  "dinode_of ip =
     \<lparr>di_type = ip_type ip, di_major = ip_major ip, di_minor = ip_minor ip, di_nlink = ip_nlink ip,
      di_size = ip_size ip, di_addrs = ip_addrs ip\<rparr>"

definition iupdate :: "nat \<Rightarrow> ('a fs_state_scheme, unit) M" where
  "iupdate i s =
     (let ip = itable s i in
      bindM (bread (ip_dev ip) (IBLOCK (ip_inum ip) (sb s))) (\<lambda>bp.
      thenM (modM (upd_buf bp (\<lambda>x. x\<lparr>b_data := put_dinode (dinode_of ip) (dinode_off (ip_inum ip)) (b_data x)\<rparr>)))
     (thenM (log_write bp) (brelse bp))) s)"

definition idup :: "nat \<Rightarrow> ('a fs_state_scheme, nat) M" where
  "idup i = thenM (modM (upd_inode i (\<lambda>x. x\<lparr>ip_ref := ip_ref x + 1\<rparr>))) (retM i)"

definition ilock :: "nat \<Rightarrow> ('a fs_state_scheme, unit) M" where
  "ilock i s =
     (if ip_ref (itable s i) < 1 then Panic ''ilock''
      else thenM (acquiresleep (Chan_inode_lock i) (inode_lock i) (set_inode_lock i)) (\<lambda>s.
        let ip = itable s i in
        if \<not> ip_valid ip
        then bindM (bread (ip_dev ip) (IBLOCK (ip_inum ip) (sb s))) (\<lambda>bp.
             thenM (modM (\<lambda>s. let di = get_dinode (b_data (bufs s bp)) (dinode_off (ip_inum ip)) in
               upd_inode i (\<lambda>x. x\<lparr>ip_type := di_type di, ip_major := di_major di, ip_minor := di_minor di,
                 ip_nlink := di_nlink di, ip_size := di_size di, ip_addrs := di_addrs di\<rparr>) s))
            (thenM (brelse bp)
            (thenM (modM (upd_inode i (\<lambda>x. x\<lparr>ip_valid := True\<rparr>)))
              (\<lambda>s. if ip_type (itable s i) = 0 then Panic ''ilock: no type'' else Ret () s)))) s
        else Ret () s) s)"

definition iunlock :: "nat \<Rightarrow> ('a fs_state_scheme, unit) M" where
  "iunlock i s =
     (if \<not> holdingsleep (inode_lock i) s \<or> ip_ref (itable s i) < 1 then Panic ''iunlock''
      else releasesleep (Chan_inode_lock i) (set_inode_lock i) s)"

section \<open>Inode content\<close>

text \<open>\<open>bmap\<close>: first the direct blocks, then the indirect one, which is allocated on demand.\<close>

definition set_addr :: "nat \<Rightarrow> nat \<Rightarrow> u32 \<Rightarrow> 'a fs_state_scheme \<Rightarrow> 'a fs_state_scheme" where
  "set_addr i k addr = upd_inode i (\<lambda>x. x\<lparr>ip_addrs := (ip_addrs x)(k := addr)\<rparr>)"

definition addr_or_alloc :: "nat \<Rightarrow> nat \<Rightarrow> ('a fs_state_scheme, u32) M" where
  "addr_or_alloc i k s =
     (let addr = ip_addrs (itable s i) k in
      if addr = 0
      then bindM (balloc (ip_dev (itable s i))) (\<lambda>addr.
             if addr = 0 then retM 0 else thenM (modM (set_addr i k addr)) (retM addr)) s
      else Ret addr s)"

definition bmap :: "nat \<Rightarrow> u32 \<Rightarrow> ('a fs_state_scheme, u32) M" where
  "bmap i bn s =
     (if unat bn < NDIRECT then addr_or_alloc i (unat bn) s
      else let k = unat bn - NDIRECT in
        if k < NINDIRECT
        then bindM (addr_or_alloc i NDIRECT) (\<lambda>addr.
          if addr = 0 then retM 0
          else (\<lambda>s. bindM (bread (ip_dev (itable s i)) addr) (\<lambda>bp s.
            let addr = get32 (b_data (bufs s bp)) (4 * k) in
            if addr = 0
            then bindM (balloc (ip_dev (itable s i))) (\<lambda>addr.
                   thenM (whenM (addr \<noteq> 0)
                     (thenM (modM (upd_buf bp (\<lambda>x. x\<lparr>b_data := put32 (b_data x) (4 * k) addr\<rparr>))) (log_write bp)))
                  (thenM (brelse bp) (retM addr))) s
            else thenM (brelse bp) (retM addr) s) s)) s
        else Panic ''bmap: out of range'')"

definition itrunc :: "nat \<Rightarrow> ('a fs_state_scheme, unit) M" where
  "itrunc i =
     thenM (eachM (\<lambda>k s.
       let a = ip_addrs (itable s i) k in
       if a \<noteq> 0 then thenM (bfree (ip_dev (itable s i)) a) (modM (set_addr i k 0)) s else Ret () s) [0..<NDIRECT])
    (thenM (\<lambda>s.
       let ip = itable s i; ind = ip_addrs ip NDIRECT in
       if ind \<noteq> 0
       then bindM (bread (ip_dev ip) ind) (\<lambda>bp.
            thenM (eachM (\<lambda>j s.
              let a = get32 (b_data (bufs s bp)) (4 * j) in
              if a \<noteq> 0 then bfree (ip_dev ip) a s else Ret () s) [0..<NINDIRECT])
           (thenM (brelse bp)
           (thenM (bfree (ip_dev ip) ind) (modM (set_addr i NDIRECT 0))))) s
       else Ret () s)
    (thenM (modM (upd_inode i (\<lambda>x. x\<lparr>ip_size := 0\<rparr>))) (iupdate i)))"

definition iput :: "nat \<Rightarrow> ('a fs_state_scheme, unit) M" where
  "iput i =
     thenM (\<lambda>s. let ip = itable s i in
       if ip_ref ip = 1 \<and> ip_valid ip \<and> ip_nlink ip = 0
       then thenM (acquiresleep (Chan_inode_lock i) (inode_lock i) (set_inode_lock i))
           (thenM (itrunc i)
           (thenM (modM (upd_inode i (\<lambda>x. x\<lparr>ip_type := 0\<rparr>)))
           (thenM (iupdate i)
           (thenM (modM (upd_inode i (\<lambda>x. x\<lparr>ip_valid := False\<rparr>)))
              (releasesleep (Chan_inode_lock i) (set_inode_lock i)))))) s
       else Ret () s)
     (modM (upd_inode i (\<lambda>x. x\<lparr>ip_ref := ip_ref x - 1\<rparr>)))"

definition iunlockput :: "nat \<Rightarrow> ('a fs_state_scheme, unit) M" where
  "iunlockput i = thenM (iunlock i) (iput i)"

record stat =
  st_dev :: u32
  st_ino :: u32
  st_type :: u16
  st_nlink :: u16
  st_size :: u64

definition stati :: "nat \<Rightarrow> 'a fs_state_scheme \<Rightarrow> stat" where
  "stati i s =
     (let ip = itable s i in
      \<lparr>st_dev = ip_dev ip, st_ino = ip_inum ip, st_type = ip_type ip, st_nlink = ip_nlink ip,
       st_size = ucast (ip_size ip)\<rparr>)"

text \<open>
  The loops of \<open>readi\<close> and \<open>writei\<close>. After the checks before the loops, \<open>off + n\<close> does not
  wrap, so the counters are natural numbers; the result is converted back as C does.
\<close>

function readi_loop :: "nat \<Rightarrow> dst \<Rightarrow> nat \<Rightarrow> nat \<Rightarrow> nat \<Rightarrow> ('a fs_state_scheme, u32 \<times> u8 list) M" where
  "readi_loop i dst off tot n s =
     (if tot < n
      then bindM (bmap i (of_nat (off div BSIZE))) (\<lambda>addr s.
        if addr = 0 then Ret (of_nat tot, []) s
        else bindM (bread (ip_dev (itable s i)) addr) (\<lambda>bp s.
          let m = min (n - tot) (BSIZE - off mod BSIZE) in
          bindM (either_copyout dst (take m (drop (off mod BSIZE) (b_data (bufs s bp))))) (\<lambda>(r, bs).
            if r = - 1 then thenM (brelse bp) (retM (- 1, bs))
            else bindM (brelse bp) (\<lambda>_ s.
              bindM (\<lambda>s. readi_loop i (dst_plus dst m) (off + m) (tot + m) n s)
                (\<lambda>(t, rest). retM (t, bs @ rest)) s)) s) s) s
      else Ret (of_nat tot, []) s)"
  by pat_completeness auto
termination
  by (relation "measure (\<lambda>(i, dst, off, tot, n, s). n - tot)") auto

declare readi_loop.simps [simp del]

definition readi :: "nat \<Rightarrow> dst \<Rightarrow> u32 \<Rightarrow> u32 \<Rightarrow> ('a fs_state_scheme, int \<times> u8 list) M" where
  "readi i dst off n s =
     (let sz = ip_size (itable s i) in
      if off > sz \<or> off + n < off then Ret (0, []) s
      else let n = (if off + n > sz then sz - off else n) in
        bindM (readi_loop i dst (unat off) 0 (unat n)) (\<lambda>(t, bs). retM (sint t, bs)) s)"

function writei_loop :: "nat \<Rightarrow> src \<Rightarrow> nat \<Rightarrow> nat \<Rightarrow> nat \<Rightarrow> ('a fs_state_scheme, nat \<times> nat) M" where
  "writei_loop i src off tot n s =
     (if tot < n
      then bindM (bmap i (of_nat (off div BSIZE))) (\<lambda>addr s.
        if addr = 0 then Ret (tot, off) s
        else bindM (bread (ip_dev (itable s i)) addr) (\<lambda>bp s.
          let m = min (n - tot) (BSIZE - off mod BSIZE) in
          bindM (either_copyin src m) (\<lambda>(r, bs).
            thenM (modM (upd_buf bp (\<lambda>x. x\<lparr>b_data := patch (b_data x) (off mod BSIZE) bs\<rparr>)))
            (if r = - 1 then thenM (brelse bp) (retM (tot, off))
             else thenM (log_write bp)
               (bindM (brelse bp) (\<lambda>_ s. writei_loop i (src_plus src m) (off + m) (tot + m) n s)))) s) s) s
      else Ret (tot, off) s)"
  by pat_completeness auto
termination
  by (relation "measure (\<lambda>(i, src, off, tot, n, s). n - tot)") auto

declare writei_loop.simps [simp del]

definition writei :: "nat \<Rightarrow> src \<Rightarrow> u32 \<Rightarrow> u32 \<Rightarrow> ('a fs_state_scheme, int) M" where
  "writei i src off n s =
     (if off > ip_size (itable s i) \<or> off + n < off then Ret (- 1) s
      else if unat (off + n) > MAXFILE * BSIZE then Ret (- 1) s
      else bindM (writei_loop i src (unat off) 0 (unat n)) (\<lambda>(tot, off).
        thenM (modM (upd_inode i (\<lambda>x. if off > unat (ip_size x) then x\<lparr>ip_size := of_nat off\<rparr> else x)))
       (thenM (iupdate i) (retM (sint (of_nat tot :: u32))))) s)"

section \<open>Directories\<close>

text \<open>A \<open>struct dirent\<close> is 16 bytes: the inode number and the name.\<close>

definition de_inum :: "u8 list \<Rightarrow> u16" where
  "de_inum de = get16 de 0"

definition de_name :: "u8 list \<Rightarrow> u8 list" where
  "de_name de = take DIRSIZ (drop 2 de)"

definition mk_dirent :: "u16 \<Rightarrow> u8 list \<Rightarrow> u8 list" where
  "mk_dirent inum name = bytes_of 2 inum @ name"

definition namecmp :: "u8 list \<Rightarrow> u8 list \<Rightarrow> int" where
  "namecmp s t = strncmp (arr_ptr s) (arr_ptr t) DIRSIZ"

text \<open>The offsets of the entries of a directory of \<open>sz\<close> bytes, in the order they are scanned.\<close>

definition dirent_offs :: "u32 \<Rightarrow> nat list" where
  "dirent_offs sz = map ((*) 16) [0..<(unat sz + 15) div 16]"

fun dirlookup_loop :: "nat \<Rightarrow> u8 list \<Rightarrow> nat list \<Rightarrow> ('a fs_state_scheme, (nat \<times> nat) option) M" where
  "dirlookup_loop dp name [] s = Ret None s"
| "dirlookup_loop dp name (off # offs) s =
     bindM (readi dp Local_dst (of_nat off) 16) (\<lambda>(r, de) s.
       if r \<noteq> 16 then Panic ''dirlookup read''
       else if de_inum de = 0 then dirlookup_loop dp name offs s
       else if namecmp name (de_name de) = 0
       then bindM (iget (ip_dev (itable s dp)) (ucast (de_inum de))) (\<lambda>i. retM (Some (i, off))) s
       else dirlookup_loop dp name offs s) s"

text \<open>\<open>dirlookup\<close> returns the inode and the offset that C stores in \<open>*poff\<close>.\<close>

definition dirlookup :: "nat \<Rightarrow> u8 list \<Rightarrow> ('a fs_state_scheme, (nat \<times> nat) option) M" where
  "dirlookup dp name s =
     (if ip_type (itable s dp) \<noteq> T_DIR then Panic ''dirlookup not DIR''
      else dirlookup_loop dp name (dirent_offs (ip_size (itable s dp))) s)"

fun dirlink_scan :: "nat \<Rightarrow> nat list \<Rightarrow> nat \<Rightarrow> ('a fs_state_scheme, nat) M" where
  "dirlink_scan dp [] end_off s = Ret end_off s"
| "dirlink_scan dp (off # offs) end_off s =
     bindM (readi dp Local_dst (of_nat off) 16) (\<lambda>(r, de) s.
       if r \<noteq> 16 then Panic ''dirlink read''
       else if de_inum de = 0 then Ret off s
       else dirlink_scan dp offs end_off s) s"

definition dirlink :: "nat \<Rightarrow> u8 list \<Rightarrow> u32 \<Rightarrow> ('a fs_state_scheme, int) M" where
  "dirlink dp name inum =
     bindM (dirlookup dp name) (\<lambda>r.
       case r of
         Some (i, _) \<Rightarrow> thenM (iput i) (retM (- 1))
       | None \<Rightarrow> (\<lambda>s.
           let offs = dirent_offs (ip_size (itable s dp)) in
           bindM (dirlink_scan dp offs (16 * length offs)) (\<lambda>off.
           bindM (writei dp (Local_src (mk_dirent (ucast inum) (strncpy (arr_ptr name) DIRSIZ))) (of_nat off) 16) (\<lambda>r.
             retM (if r \<noteq> 16 then - 1 else 0))) s))"

section \<open>Path names\<close>

text \<open>
  A path is the bytes of a C string before its nul. \<open>skipelem\<close> returns the rest of the path
  and what it puts into \<open>name\<close>; a name of \<open>DIRSIZ\<close> bytes or more is cut and not terminated.
\<close>

abbreviation (input) slash :: u8 where "slash \<equiv> 47"

definition skipelem :: "u8 list \<Rightarrow> (u8 list \<times> u8 list) option" where
  "skipelem path =
     (let p = dropWhile (\<lambda>c. c = slash) path in
      if p = [] then None
      else let s = takeWhile (\<lambda>c. c \<noteq> slash) p; r = dropWhile (\<lambda>c. c \<noteq> slash) p;
               name = (if length s \<ge> DIRSIZ then take DIRSIZ s else s)
           in Some (dropWhile (\<lambda>c. c = slash) r, name))"

lemma skipelem_shorter:
  assumes "skipelem path = Some (path', name)"
  shows "length path' < length path"
proof -
  let ?p = "dropWhile (\<lambda>c. c = slash) path"
  have ne: "?p \<noteq> []" using assms by (auto simp: skipelem_def Let_def split: if_splits)
  then obtain c cs where p: "?p = c # cs" by (meson neq_Nil_conv)
  have r: "path' = dropWhile (\<lambda>c. c = slash) (dropWhile (\<lambda>c. c \<noteq> slash) ?p)"
    using assms ne by (auto simp: skipelem_def Let_def split: if_splits)
  have "c \<noteq> slash" using hd_dropWhile [OF ne] p by simp
  then have "path' = dropWhile (\<lambda>c. c = slash) (dropWhile (\<lambda>c. c \<noteq> slash) cs)" by (simp add: r p)
  then have "length path' \<le> length cs"
    using order_trans [OF length_dropWhile_le length_dropWhile_le] by simp
  moreover have "length ?p \<le> length path" by (rule length_dropWhile_le)
  ultimately show ?thesis using p by simp
qed

function namex_loop :: "nat \<Rightarrow> u8 list \<Rightarrow> bool \<Rightarrow> u8 list \<Rightarrow> ('a fs_state_scheme, nat option \<times> u8 list) M" where
  "namex_loop i path parent name s =
     (case skipelem path of
        None \<Rightarrow> if parent then thenM (iput i) (retM (None, name)) s else Ret (Some i, name) s
      | Some (path, name) \<Rightarrow>
          thenM (ilock i) (\<lambda>s.
            if ip_type (itable s i) \<noteq> T_DIR then thenM (iunlockput i) (retM (None, name)) s
            else if parent \<and> path = [] then thenM (iunlock i) (retM (Some i, name)) s
            else bindM (dirlookup i name) (\<lambda>r.
              case r of
                None \<Rightarrow> thenM (iunlockput i) (retM (None, name))
              | Some (nxt, _) \<Rightarrow> bindM (iunlockput i) (\<lambda>_ s. namex_loop nxt path parent name s)) s) s)"
  by pat_completeness auto
termination
  by (relation "measure (\<lambda>(i, path, parent, name, s). length path)") (auto dest: skipelem_shorter)

declare namex_loop.simps [simp del]

text \<open>
  A relative path starts at the current directory; a process without one (the null pointer)
  would fault in the kernel, which \<open>kerneltrap\<close> turns into a panic.
\<close>

definition namex :: "u8 list \<Rightarrow> bool \<Rightarrow> ('a fs_state_scheme, nat option \<times> u8 list) M" where
  "namex path parent s =
     (if path \<noteq> [] \<and> hd path = slash
      then bindM (iget ROOTDEV ROOTINO) (\<lambda>i s. namex_loop i path parent [] s) s
      else case p_cwd (myproc s) of
        None \<Rightarrow> Panic ''kerneltrap''
      | Some c \<Rightarrow> bindM (idup c) (\<lambda>i s. namex_loop i path parent [] s) s)"

definition namei :: "u8 list \<Rightarrow> ('a fs_state_scheme, nat option) M" where
  "namei path = bindM (namex path False) (\<lambda>(r, _). retM r)"

definition nameiparent :: "u8 list \<Rightarrow> ('a fs_state_scheme, nat option \<times> u8 list) M" where
  "nameiparent path = namex path True"

end
