(* ===== verification/Fs_View.thy ===== *)
theory Fs_View
  imports Fs
begin

text \<open>
  The file system inside a transaction, over the abstract view of the blocks: \<open>tx s hs H D\<close> says
  that the blocks \<open>hs\<close> have been logged so far, that \<open>H\<close> gives the buffers of the blocks held
  locked, and that block \<open>b\<close> reads as \<open>D b\<close>. Each access pattern of
  \<^verbatim>\<open>kernel/fs.c\<close> is a step on this view; what it leaves alone is a frame.
\<close>

section \<open>Frames\<close>

text \<open>Only the cache, the disk, the scheduling states of processes and the log header differ.\<close>

definition fs_frame :: "'a fs_state_scheme \<Rightarrow> 'a fs_state_scheme \<Rightarrow> bool" where
  "fs_frame s s' \<longleftrightarrow> (\<exists>h. bio_frame (s\<lparr>lh := h\<rparr>) s')"

lemma bio_fs_frame: "bio_frame s s' \<Longrightarrow> fs_frame s s'"
  unfolding fs_frame_def by (rule exI [of _ "lh s"]) simp

lemma fs_frame_refl [simp]: "fs_frame s s"
  by (rule bio_fs_frame) simp

lemma fs_frame_trans:
  assumes "fs_frame s t" and "fs_frame t u"
  shows "fs_frame s u"
proof -
  obtain h k where h: "bio_frame (s\<lparr>lh := h\<rparr>) t" and k: "bio_frame (t\<lparr>lh := k\<rparr>) u" using assms by (auto simp: fs_frame_def)
  from bio_frame_lh [OF h, of k] have "bio_frame (s\<lparr>lh := k\<rparr>) (t\<lparr>lh := k\<rparr>)" by simp
  then show ?thesis using k bio_frame_trans unfolding fs_frame_def by blast
qed

lemma fs_frameD:
  assumes "fs_frame s s'"
  shows "itable s' = itable s" and "sb s' = sb s" and "cur s' = cur s" and "myproc s' = myproc s"
    and "held_by s' = held_by s" and "mem s' = mem s" and "log_dev s' = log_dev s" and "log_start s' = log_start s"
    and "log_size s' = log_size s" and "log_outstanding s' = log_outstanding s" and "log_committing s' = log_committing s"
    and "panicked s' = panicked s"
  using assms by (auto simp: fs_frame_def bio_frame_def myproc_def held_by_def)

section \<open>Transactions\<close>

text \<open>
  \<open>hs\<close> are the blocks logged so far, \<open>H\<close> maps each block the process holds between \<open>bread\<close> and
  \<open>brelse\<close> to its buffer, and \<open>D\<close> gives the contents of every block as the file system sees them.
\<close>

definition tx_view :: "sleeplock \<Rightarrow> u32 list \<Rightarrow> (u32 \<rightharpoonup> nat) \<Rightarrow> (u32 \<Rightarrow> u8 list) \<Rightarrow> u32 \<Rightarrow> blk" where
  "tx_view l hs H D b =
     \<lparr>k_data = D b, k_refs = (if b \<in> set hs then 1 else 0) + (if H b = None then 0 else 1),
      k_lock = (if H b = None then initsleeplock else l)\<rparr>"

abbreviation (input) log_len :: "'a log_state_scheme \<Rightarrow> nat" where
  "log_len s \<equiv> nat (log_size s)"

definition tx :: "'a log_state_scheme \<Rightarrow> u32 list \<Rightarrow> (u32 \<rightharpoonup> nat) \<Rightarrow> (u32 \<Rightarrow> u8 list) \<Rightarrow> bool" where
  "tx s hs H D \<longleftrightarrow>
     bst (log_dev s) s (tx_view (held_by s) hs H D) (disk s) (wtrace s) \<and>
     (\<forall>bn b. H bn = Some b \<longrightarrow> bufv (log_dev s) s b bn) \<and> finite (dom H) \<and>
     (\<forall>b. b \<notin> set hs \<longrightarrow> D b = disk s b) \<and> homes (lh s) = hs \<and> distinct hs \<and>
     set hs \<inter> log_area (log_start s) (log_len s) = {} \<and> 0 \<le> lh_n (lh s) \<and>
     header_homes (disk s (log_start s)) = []"

text \<open>
  An operation is under way and there is room for \<open>n\<close> more blocks in the log, and for them and two
  more in the cache.
\<close>

definition room :: "'a log_state_scheme \<Rightarrow> u32 list \<Rightarrow> nat \<Rightarrow> bool" where
  "room s hs n \<longleftrightarrow> 1 \<le> log_outstanding s \<and> length hs + n < log_len s \<and> length hs + n + 2 \<le> NBUF"

lemma tx_length: "tx s hs H D \<Longrightarrow> length (D b) = BSIZE"
  using bst_length [of "log_dev s" s "tx_view (held_by s) hs H D" "disk s" "wtrace s" b] by (simp add: tx_def tx_view_def)

lemma bst_same_bufs:
  "bufs t = bufs s \<Longrightarrow> disk t = disk s \<Longrightarrow> wtrace t = wtrace s \<Longrightarrow> bst dev t K d w = bst dev s K d w"
  using bio_ok_same_bufs [of t s dev] by (simp add: bst_def)

lemma tx_same:
  assumes "tx s hs H D" and "bufs t = bufs s" "disk t = disk s" "wtrace t = wtrace s" "lh t = lh s"
    "log_dev t = log_dev s" "log_start t = log_start s" "log_size t = log_size s"
    "held_by t = held_by s"
  shows "tx t hs H D"
proof -
  have "bufv dev t b bn = bufv dev s b bn" for dev b bn using assms(2) by (simp add: bufv_def buf_at_def)
  then show ?thesis using assms bst_same_bufs [OF assms(2-4)] by (simp add: tx_def)
qed

lemma tx_upd_inode [simp]: "tx (upd_inode i f s) hs H D = tx s hs H D"
proof -
  have "held_by (upd_inode i f s) = held_by s" by (simp add: held_by_def myproc_def upd_inode_def)
  then show ?thesis by (auto simp: upd_inode_def elim!: tx_same)
qed

lemma tx_data: "tx s hs H D \<Longrightarrow> H bn = Some b \<Longrightarrow> b_data (bufs s b) = D bn"
  using bufv_data [of "log_dev s" s "tx_view (held_by s) hs H D" "disk s" "wtrace s" b bn]
  by (simp add: tx_def tx_view_def)

lemma card_tx_view: "finite (dom H) \<Longrightarrow> card (in_use (tx_view l hs H D)) \<le> length hs + card (dom H)"
proof -
  assume f: "finite (dom H)"
  have "in_use (tx_view l hs H D) \<subseteq> set hs \<union> dom H" by (auto simp: in_use_def tx_view_def)
  then have "card (in_use (tx_view l hs H D)) \<le> card (set hs \<union> dom H)" using f by (intro card_mono) auto
  also have "\<dots> \<le> card (set hs) + card (dom H)" by (rule card_Un_le)
  finally show ?thesis using card_length [of hs] by linarith
qed

section \<open>Steps on the view\<close>

lemma tx_bread:
  fixes s :: "'a fs_state_scheme"
  assumes t: "tx s hs H D" and bn: "H bn = None" and n: "length hs + card (dom H) < NBUF"
  obtains b s' where "bread (log_dev s) bn s = Ret b s'" and "tx s' hs (H(bn \<mapsto> b)) D" and "fs_frame s s'"
    and "b_data (bufs s' b) = D bn"
proof -
  let ?dev = "log_dev s" and ?K = "tx_view (held_by s) hs H D" and ?r = "(if bn \<in> set hs then 1 else 0) :: u32"
  have st: "bst ?dev s ?K (disk s) (wtrace s)" and fin: "finite (dom H)" using t by (simp_all add: tx_def)
  have K: "?K bn = \<lparr>k_data = D bn, k_refs = ?r, k_lock = initsleeplock\<rparr>" using bn by (simp add: tx_view_def)
  have card: "card (in_use ?K) < NBUF" using card_tx_view [OF fin, of "held_by s" hs D] n by linarith
  obtain b s1 where 1: "bread ?dev bn s = Ret b s1" "bufv ?dev s1 b bn" "bio_frame s s1"
    "bst ?dev s1 (?K(bn := \<lparr>k_data = D bn, k_refs = ?r + 1, k_lock = held_by s\<rparr>)) (disk s) (wtrace s)"
    "\<And>i n. bufv ?dev s i n \<Longrightarrow> k_refs (?K n) \<noteq> 0 \<Longrightarrow> bufv ?dev s1 i n"
    by (rule bread_bst [OF st K]) (use card that in \<open>auto simp: initsleeplock_def split: if_splits\<close>)
  note fr = bio_frame_logD [OF 1(3)] bio_frameD(3) [OF 1(3)]
  have K1: "?K(bn := \<lparr>k_data = D bn, k_refs = ?r + 1, k_lock = held_by s\<rparr>) = tx_view (held_by s) hs (H(bn \<mapsto> b)) D"
    by (auto simp: tx_view_def fun_eq_iff)
  have "bufv ?dev s1 i m" if "H m = Some i" for m i
    by (rule 1(5)) (use t that in \<open>auto simp: tx_def tx_view_def\<close>)
  then have "tx s1 hs (H(bn \<mapsto> b)) D" using t 1(2,4) fr K1 by (auto simp: tx_def bst_def)
  then show ?thesis using that [OF 1(1)] bio_fs_frame [OF 1(3)] tx_data by fastforce
qed

lemma tx_brelse:
  fixes s :: "'a fs_state_scheme"
  assumes t: "tx s hs H D" and b: "H bn = Some b"
  obtains s' where "brelse b s = Ret () s'" and "tx s' hs (H(bn := None)) D" and "fs_frame s s'"
proof -
  let ?dev = "log_dev s" and ?K = "tx_view (held_by s) hs H D" and ?r = "(if bn \<in> set hs then 1 else 0) :: u32"
  have st: "bst ?dev s ?K (disk s) (wtrace s)" and v: "bufv ?dev s b bn" and fin: "finite (dom H)"
    using t b by (simp_all add: tx_def)
  have K: "?K bn = \<lparr>k_data = D bn, k_refs = ?r + 1, k_lock = held_by s\<rparr>" using b by (simp add: tx_view_def)
  have clean: "?r + 1 = 1 \<Longrightarrow> D bn = disk s bn" using t by (auto simp: tx_def split: if_splits)
  obtain s2 where s2: "brelse b s = Ret () s2" "bio_frame s s2" "bufv ?dev s2 = bufv ?dev s"
    "bst ?dev s2 (?K(bn := \<lparr>k_data = D bn, k_refs = ?r + 1 - 1, k_lock = initsleeplock\<rparr>)) (disk s) (wtrace s)"
    by (rule brelse_bst [OF st v K clean]) (use that in auto)
  have K2: "?K(bn := \<lparr>k_data = D bn, k_refs = ?r + 1 - 1, k_lock = initsleeplock\<rparr>) = tx_view (held_by s) hs (H(bn := None)) D"
    by (auto simp: tx_view_def fun_eq_iff)
  have "tx s2 hs (H(bn := None)) D"
    using t s2(3,4) bio_frame_logD [OF s2(2)] bio_frameD(3) [OF s2(2)] K2 by (auto simp: tx_def bst_def)
  then show ?thesis using that [OF s2(1)] bio_fs_frame [OF s2(2)] by blast
qed

text \<open>Changing a held block and logging it: the block joins the transaction.\<close>

lemma tx_log:
  fixes s :: "'a fs_state_scheme"
  assumes t: "tx s hs H D" and b: "H bn = Some b" and r: "room s hs 1"
    and bn: "bn \<notin> log_area (log_start s) (log_len s)" and fx: "length (f (D bn)) = BSIZE"
  obtains s' where "log_write b (upd_buf b (\<lambda>x. x\<lparr>b_data := f (b_data x)\<rparr>) s) = Ret () s'"
    and "tx s' (tx_add hs bn) H (D(bn := f (D bn)))" and "fs_frame s s'"
proof -
  let ?dev = "log_dev s" and ?K = "tx_view (held_by s) hs H D" and ?r = "(if bn \<in> set hs then 1 else 0) :: u32"
  let ?l = "held_by s" and ?d = "disk s" and ?w = "wtrace s" and ?x = "f (D bn)"
  have st: "bst ?dev s ?K ?d ?w" and v: "bufv ?dev s b bn" and l: "homes (lh s) = hs" "0 \<le> lh_n (lh s)" "log_outstanding s \<ge> 1"
    using t b r by (simp_all add: tx_def room_def)
  have K: "?K bn = \<lparr>k_data = D bn, k_refs = ?r + 1, k_lock = ?l\<rparr>" using b by (simp add: tx_view_def)
  define s2 where "s2 = upd_buf b (\<lambda>z. z\<lparr>b_data := ?x\<rparr>) s"
  let ?K2 = "?K(bn := \<lparr>k_data = ?x, k_refs = ?r + 1, k_lock = ?l\<rparr>)"
  have s2: "bst ?dev s2 ?K2 ?d ?w" "bufv ?dev s2 = bufv ?dev s" "bio_frame s s2"
    using set_data_bst [OF st v K _ fx] unfolding s2_def by auto
  note eq2 = bio_frame_logD [OF s2(3)] bio_frameD(3) [OF s2(3)]
  have u: "upd_buf b (\<lambda>z. z\<lparr>b_data := f (b_data z)\<rparr>) s = s2"
    unfolding s2_def by (rule upd_buf_cong) (simp add: tx_data [OF t b])
  have len: "nat (lh_n (lh s)) = length hs" using l by (auto simp: length_homes)
  have n: "lh_n (lh s) < int LOGSIZE" "lh_n (lh s) < log_size s - 1" using r len l(2) by (auto simp: room_def)
  let ?K3 = "tx_view ?l (tx_add hs bn) H (D(bn := ?x))"
  have "\<exists>s' h. log_write b s2 = Ret () s' \<and> bio_frame (s2\<lparr>lh := h\<rparr>) s' \<and> 0 \<le> lh_n h \<and> homes h = tx_add hs bn \<and>
    bst (log_dev s2) s' (if bn \<in> set hs then ?K2 else ?K2(bn := \<lparr>k_data = ?x, k_refs = ?r + 1 + 1, k_lock = ?l\<rparr>)) ?d ?w \<and>
    bufv (log_dev s2) s' = bufv (log_dev s2) s2"
    by (rule log_write_spec [of s2 ?K2 ?d ?w b bn]) (use s2 v eq2 n l in auto)
  moreover have "(if bn \<in> set hs then ?K2 else ?K2(bn := \<lparr>k_data = ?x, k_refs = ?r + 1 + 1, k_lock = ?l\<rparr>)) = ?K3"
    using b by (auto simp: tx_view_def tx_add_def fun_eq_iff)
  ultimately obtain s3 h where s3: "log_write b s2 = Ret () s3" "bio_frame (s2\<lparr>lh := h\<rparr>) s3" "0 \<le> lh_n h"
    "homes h = tx_add hs bn" "bst ?dev s3 ?K3 ?d ?w" "bufv ?dev s3 = bufv ?dev s"
    using eq2 s2(2) by auto
  have fr3: "bio_frame (s\<lparr>lh := h\<rparr>) s3" using bio_frame_trans [OF bio_frame_lh [OF s2(3)] s3(2)] .
  have h3: "held_by s3 = ?l" using bio_frameD(3) [OF fr3] by (simp add: held_by_def myproc_def)
  have "tx s3 (tx_add hs bn) H (D(bn := ?x))"
    using t s3 h3 bio_frame_logD [OF fr3] bn by (auto simp: tx_def bst_def tx_add_def)
  then show ?thesis using that [of s3] s3(1) fr3 u by (auto simp: fs_frame_def)
qed

section \<open>The ends of a transaction\<close>

text \<open>
  An operation that runs alone starts on an empty log, where the view is the disk, and its
  \<open>end_op\<close> commits: the view becomes the disk.
\<close>

definition quiet :: "'a log_state_scheme \<Rightarrow> bool" where
  "quiet s \<longleftrightarrow> log_ok s \<and> lh_n (lh s) = 0 \<and> log_outstanding s = 0 \<and> \<not> log_committing s"

lemma quiet_length: "quiet s \<Longrightarrow> length (disk s b) = BSIZE"
  by (simp add: quiet_def log_ok_def bio_ok_def)

lemma quiet_tx:
  fixes s :: "'a log_state_scheme"
  assumes q: "quiet s"
  shows "tx s [] Map.empty (disk s)"
proof -
  let ?K = "block (log_dev s) s"
  have hs: "homes (lh s) = []" using q by (simp add: homes_def quiet_def)
  have rest: "at_rest (log_start s) (log_len s) [] ?K" and bs: "bst (log_dev s) s ?K (disk s) (wtrace s)"
    using q hs by (simp_all add: quiet_def log_ok_def bst_def)
  have "?K = tx_view (held_by s) [] Map.empty (disk s)"
  proof
    fix b
    have "k_data (?K b) = disk s b" using bst_clean [OF bs, of b] rest by (simp add: at_rest_def)
    then show "?K b = tx_view (held_by s) [] Map.empty (disk s) b"
      using at_rest_blk [OF rest, of b] by (simp add: tx_view_def)
  qed
  then show ?thesis using bs q hs by (simp add: tx_def quiet_def log_ok_def)
qed

lemma begin_op_tx:
  fixes s :: "'a log_state_scheme"
  assumes "quiet s"
  shows "begin_op s = Ret () (s\<lparr>log_outstanding := 1\<rparr>)" and "tx (s\<lparr>log_outstanding := 1\<rparr>) [] Map.empty (disk s)"
proof -
  show "begin_op s = Ret () (s\<lparr>log_outstanding := 1\<rparr>)" using assms by (simp add: begin_op_def quiet_def)
  show "tx (s\<lparr>log_outstanding := 1\<rparr>) [] Map.empty (disk s)"
    by (rule tx_same [OF quiet_tx [OF assms]]) (simp_all add: held_by_def myproc_def)
qed

lemma end_op_frame:
  fixes s :: "'a fs_state_scheme"
  assumes ok: "log_ok s" and "log_outstanding s = 1" and "\<not> log_committing s" and "end_op s = Ret () s'"
  shows "itable s' = itable s" and "sb s' = sb s" and "mem s' = mem s" and "log_dev s' = log_dev s"
    and "log_start s' = log_start s" and "log_size s' = log_size s"
proof -
  let ?s = "s\<lparr>log_outstanding := 0, log_committing := True\<rparr>"
  have "log_ok ?s" using ok by simp
  from commit_spec [OF this] obtain t where c: "commit ?s = Ret () t" "bio_frame (?s\<lparr>lh := (lh ?s)\<lparr>lh_n := 0\<rparr>\<rparr>) t" by blast
  have "end_op s = Ret () (wakeup Chan_log (t\<lparr>log_committing := False\<rparr>))"
    using assms(2,3) c(1) by (simp add: end_op_def Let_def)
  then have s': "s' = wakeup Chan_log (t\<lparr>log_committing := False\<rparr>)" using assms(4) by simp
  show "itable s' = itable s" "sb s' = sb s" "mem s' = mem s" "log_dev s' = log_dev s"
    "log_start s' = log_start s" "log_size s' = log_size s"
    using c(2) by (auto simp: s' wakeup_def bio_frame_def)
qed

lemma end_op_tx:
  fixes s :: "'a fs_state_scheme"
  assumes t: "tx s hs Map.empty D" and n: "length hs < log_len s" "length hs < NBUF"
    and alone: "log_outstanding s = 1" "\<not> log_committing s"
  obtains s' where "end_op s = Ret () s'" and "quiet s'" and "itable s' = itable s" and "sb s' = sb s"
    and "log_dev s' = log_dev s" and "log_start s' = log_start s" and "log_size s' = log_size s"
    and "\<And>b. b \<notin> log_area (log_start s) (log_len s) \<Longrightarrow> disk s' b = D b"
proof -
  let ?K = "tx_view (held_by s) hs Map.empty D"
  have K: "block (log_dev s) s = ?K" using t by (simp add: tx_def bst_def)
  have ok: "log_ok s" using t n by (auto simp: tx_def log_ok_def bst_def at_rest_def tx_view_def)
  from end_op_last [OF this alone] obtain s' where s': "end_op s = Ret () s'" "quiet s'"
    "\<And>b. b \<notin> log_area (log_start s) (log_len s) \<Longrightarrow> disk s' b = k_data (block (log_dev s) s b)"
    unfolding quiet_def by metis
  note f = end_op_frame [OF ok alone s'(1)]
  show ?thesis by (rule that [OF s'(1,2)]) (use s'(3) f in \<open>simp_all add: K tx_view_def\<close>)
qed

section \<open>A small file system\<close>

text \<open>
  200 blocks, the log at block 2, the inodes at block 32 and the bitmap in block 45; the blocks from
  48 on are free and inode 2 is an empty file.
\<close>

definition small_sb :: superblock where
  "small_sb = \<lparr>sb_magic = 0x10203040, sb_size = 200, sb_nblocks = 152, sb_ninodes = 200, sb_nlog = 30,
     sb_logstart = 2, sb_inodestart = 32, sb_bmapstart = 45\<rparr>"

definition small_disk :: "u32 \<Rightarrow> u8 list" where
  "small_disk b = (if b = 45 then replicate 6 255 @ replicate 1018 0 else replicate BSIZE 0)"

definition empty_file :: inode where
  "empty_file = \<lparr>ip_dev = 1, ip_inum = 2, ip_ref = 1, ip_lock = initsleeplock, ip_valid = True, ip_type = 2,
     ip_major = 0, ip_minor = 0, ip_nlink = 1, ip_size = 0, ip_addrs = (\<lambda>_. 0)\<rparr>"

definition fs_on :: "(u32 \<Rightarrow> u8 list) \<Rightarrow> inode \<Rightarrow> fs_state" where
  "fs_on d ip = binit \<lparr>mem = (\<lambda>_. 0), freelist = 0, kend = 0x80022000, etext = 0x80008000, trampoline = 0x80007000,
     kernel_pagetable = 0, satp = 0, procs = (\<lambda>_. zero_proc), cur = 0,
     nextpid = 1, initproc = 0, ticks = 0, bufs = (\<lambda>_. zero_buf), disk = d, wtrace = [],
     log_start = 2, log_size = 30, log_outstanding = 0, log_committing = False, log_dev = 1,
     lh = \<lparr>lh_n = 0, lh_block = (\<lambda>_. 0)\<rparr>, uart_tx_buf = (\<lambda>_. 0), uart_tx_w = 0, uart_tx_r = 0, uart_wr = [],
     uart_room = 0, uart_rx = [], panicked = False, sb = small_sb, itable = (\<lambda>_. ip)\<rparr>"

abbreviation small_fs :: fs_state where
  "small_fs \<equiv> fs_on small_disk empty_file"

lemma binit_fs_fields:
  fixes s :: "'a fs_state_scheme"
  shows "itable (binit s) = itable s" "sb (binit s) = sb s"
proof -
  have "itable (fold binit_step is u) = itable u \<and> sb (fold binit_step is u) = sb u" for "is" and u :: "'a fs_state_scheme"
    by (induction "is" arbitrary: u) (simp_all add: binit_step_def upd_buf_def Let_def)
  then show "itable (binit s) = itable s" "sb (binit s) = sb s"
    by (simp_all add: binit_def upd_buf_def Let_def)
qed

lemma fs_on_fields:
  assumes "\<And>b. length (d b) = BSIZE" and "d 2 = replicate BSIZE 0"
  shows "log_dev (fs_on d ip) = 1" "log_start (fs_on d ip) = 2" "log_size (fs_on d ip) = 30" "disk (fs_on d ip) = d"
    "sb (fs_on d ip) = small_sb" "itable (fs_on d ip) = (\<lambda>_. ip)" and "quiet (fs_on d ip)"
proof -
  let ?z = "\<lparr>mem = (\<lambda>_. 0), freelist = 0, kend = 0x80022000, etext = 0x80008000, trampoline = 0x80007000,
     kernel_pagetable = 0, satp = 0, procs = (\<lambda>_. zero_proc), cur = 0,
     nextpid = 1, initproc = 0, ticks = 0, bufs = (\<lambda>_. zero_buf), disk = d, wtrace = [],
     log_start = 2, log_size = 30, log_outstanding = 0, log_committing = False, log_dev = 1,
     lh = \<lparr>lh_n = 0, lh_block = (\<lambda>_. 0)\<rparr>, uart_tx_buf = (\<lambda>_. 0), uart_tx_w = 0, uart_tx_r = 0, uart_wr = [],
     uart_room = 0, uart_rx = [], panicked = False, sb = small_sb, itable = (\<lambda>_. ip)\<rparr> :: fs_state"
  have "boot_bufs ?z" using assms(1) by (simp add: boot_bufs_def zero_buf_def)
  note boot = binit_bio_ok [OF this, of 1]
  show f: "log_dev (fs_on d ip) = 1" "log_start (fs_on d ip) = 2" "log_size (fs_on d ip) = 30" "disk (fs_on d ip) = d"
    "sb (fs_on d ip) = small_sb" "itable (fs_on d ip) = (\<lambda>_. ip)"
    using boot(2) by (simp_all add: fs_on_def binit_log_fields binit_fs_fields)
  have "log_outstanding (fs_on d ip) = 0" "\<not> log_committing (fs_on d ip)" "lh_n (lh (fs_on d ip)) = 0"
    by (simp_all add: fs_on_def binit_log_fields binit_counters)
  then show "quiet (fs_on d ip)"
    using boot(1,4) f assms(2) by (simp add: quiet_def log_ok_def at_rest_def homes_def fs_on_def header_homes_zeros)
qed

lemma small_disk_ok: "length (small_disk b) = BSIZE" "small_disk 2 = replicate BSIZE 0"
  by (simp_all add: small_disk_def)

lemmas small_fs_fields = fs_on_fields(1-6) [of small_disk empty_file, OF small_disk_ok]
lemmas quiet_small_fs = fs_on_fields(7) [of small_disk empty_file, OF small_disk_ok]

end
