(* ===== verification/Fs_Alloc.thy ===== *)
theory Fs_Alloc
  imports Fs_View
begin

text \<open>
  The block allocator of \<^verbatim>\<open>kernel/fs.c\<close>: the bitmap, \<open>bzero\<close>, \<open>balloc\<close> and \<open>bfree\<close> as steps on
  the blocks of a transaction.
\<close>

unbundle bit_operations_syntax

section \<open>Bits of a bitmap block\<close>

lemma bmp_free_bit: "bmp_free d bi \<longleftrightarrow> \<not> bit (d ! (bi div 8)) (bi mod 8)"
proof -
  have m: "bmp_mask bi = 2 ^ (bi mod 8)" by (simp add: bmp_mask_def push_bit_eq_mult)
  show ?thesis unfolding bmp_free_def m by (rule and_exp_eq_0_iff_not_bit)
qed

lemma bit_mask: "bit (bmp_mask bi) j \<longleftrightarrow> j = bi mod 8"
  by (auto simp: bmp_mask_def bit_simps)

lemma same_bit: "bi div 8 = bj div 8 \<Longrightarrow> bi mod 8 = bj mod 8 \<Longrightarrow> bi = (bj :: nat)"
  by (metis div_mult_mod_eq)

lemma length_bmp [simp]: "length (bmp_set bi d) = length d" "length (bmp_clear bi d) = length d"
  by (simp_all add: bmp_set_def bmp_clear_def)

lemma bmp_free_set:
  assumes "bi div 8 < length d"
  shows "bmp_free (bmp_set bi d) bj \<longleftrightarrow> bj \<noteq> bi \<and> bmp_free d bj"
  using assms same_bit [of bi bj]
  by (cases "bi div 8 = bj div 8") (auto simp: bmp_free_bit bmp_set_def bit_or_iff bit_mask)

lemma bmp_free_clear:
  assumes "bi div 8 < length d"
  shows "bmp_free (bmp_clear bi d) bj \<longleftrightarrow> bj = bi \<or> bmp_free d bj"
  using assms same_bit [of bi bj]
  by (cases "bi div 8 = bj div 8") (auto simp: bmp_free_bit bmp_clear_def bit_and_iff bit_not_iff bit_mask)

lemma bmp_clear_set:
  assumes "bi div 8 < length d" and "bmp_free d bi"
  shows "bmp_clear bi (bmp_set bi d) = d"
proof -
  have "\<not> bit (d ! (bi div 8)) (bi mod 8)" using assms(2) by (simp add: bmp_free_bit)
  then have "(d ! (bi div 8) OR bmp_mask bi) AND NOT (bmp_mask bi) = d ! (bi div 8)"
    by (intro bit_eqI) (auto simp: bit_simps bit_mask)
  then show ?thesis using assms(1) by (simp add: bmp_clear_def bmp_set_def)
qed

section \<open>Allocation\<close>

text \<open>Block \<open>b\<close> is free in the bitmap.\<close>

definition free_block :: "superblock \<Rightarrow> (u32 \<Rightarrow> u8 list) \<Rightarrow> u32 \<Rightarrow> bool" where
  "free_block x D b \<longleftrightarrow> b < sb_size x \<and> bmp_free (D (BBLOCK b x)) (unat b mod BPB)"

text \<open>
  The layout the bitmap must respect: no block of the bitmap is in the log, and the blocks
  of the log and of the bitmap, and block 0, are never free.
\<close>

definition bitmap_ok :: "'a fs_state_scheme \<Rightarrow> (u32 \<Rightarrow> u8 list) \<Rightarrow> bool" where
  "bitmap_ok s D \<longleftrightarrow>
     (\<forall>b < sb_size (sb s). BBLOCK b (sb s) \<notin> log_area (log_start s) (log_len s)) \<and>
     (\<forall>b. free_block (sb s) D b \<longrightarrow> b \<noteq> 0 \<and> b \<notin> log_area (log_start s) (log_len s) \<and>
        (\<forall>c < sb_size (sb s). b \<noteq> BBLOCK c (sb s)))"

lemma bitmap_ok_frame: "fs_frame s s' \<Longrightarrow> bitmap_ok s' D = bitmap_ok s D"
  by (simp add: bitmap_ok_def fs_frameD)

lemma room_frame: "fs_frame s s' \<Longrightarrow> room s' hs n = room s hs n"
  by (simp add: room_def fs_frameD)

lemma length_tx_add: "length (tx_add hs b) \<le> Suc (length hs)"
  by (simp add: tx_add_def)

lemma room_add: "room s hs (Suc n) \<Longrightarrow> room s (tx_add hs b) n"
  using length_tx_add [of hs b] by (simp add: room_def)

lemma room_mono: "room s hs n \<Longrightarrow> m \<le> n \<Longrightarrow> room s hs m"
  by (auto simp: room_def)

lemma bzero_tx:
  fixes s :: "'a fs_state_scheme"
  assumes t: "tx s hs H D" and bn: "H bno = None" "bno \<notin> log_area (log_start s) (log_len s)"
    and r: "room s hs 1" and n: "length hs + card (dom H) < NBUF"
  obtains s' where "bzero (log_dev s) bno s = Ret () s'"
    and "tx s' (tx_add hs bno) H (D(bno := replicate BSIZE 0))" and "fs_frame s s'"
proof -
  obtain b s1 where 1: "bread (log_dev s) bno s = Ret b s1" "tx s1 hs (H(bno \<mapsto> b)) D" "fs_frame s s1"
    by (rule tx_bread [OF t bn(1) n])
  note f1 = fs_frameD [OF 1(3)]
  obtain s2 where 2: "log_write b (upd_buf b (\<lambda>x. x\<lparr>b_data := replicate BSIZE 0\<rparr>) s1) = Ret () s2"
    "tx s2 (tx_add hs bno) (H(bno \<mapsto> b)) (D(bno := replicate BSIZE 0))" "fs_frame s1 s2"
    by (rule tx_log [OF 1(2), of bno b "\<lambda>_. replicate BSIZE 0"]) (use bn r f1 room_frame [OF 1(3)] in auto)
  obtain s3 where 3: "brelse b s2 = Ret () s3" "tx s3 (tx_add hs bno) ((H(bno \<mapsto> b))(bno := None)) (D(bno := replicate BSIZE 0))" "fs_frame s2 s3"
    by (rule tx_brelse [OF 2(2), of bno b]) simp
  have "H(bno := None) = H" using bn(1) by auto
  then have "tx s3 (tx_add hs bno) H (D(bno := replicate BSIZE 0))" using 3(2) by simp
  moreover have "bzero (log_dev s) bno s = Ret () s3" using 1(1) 2(1) 3(1) by (simp add: bzero_def)
  ultimately show ?thesis using that fs_frame_trans [OF fs_frame_trans [OF 1(3) 2(3)] 3(3)] by blast
qed

lemma BBLOCK_of_nat:
  assumes "bi < BPB" and "8192 * j + bi < 2 ^ 32"
  shows "BBLOCK (of_nat (8192 * j + bi)) x = BBLOCK (of_nat (8192 * j)) x"
    and "unat (of_nat (8192 * j + bi) :: u32) = 8192 * j + bi"
proof -
  have u: "unat (of_nat (8192 * j + bi) :: u32) = 8192 * j + bi" "unat (of_nat (8192 * j) :: u32) = 8192 * j"
    using assms by (simp_all add: unat_of_nat take_bit_nat_eq_self del: of_nat_add of_nat_mult)
  have "(of_nat (8192 * j + bi) :: u32) div 8192 = of_nat (8192 * j) div 8192"
    by (rule word_unat_eq_iff [THEN iffD2]) (use assms u in \<open>simp add: unat_div_distrib del: of_nat_add of_nat_mult\<close>)
  then show "BBLOCK (of_nat (8192 * j + bi)) x = BBLOCK (of_nat (8192 * j)) x" by (simp add: BBLOCK_def)
  show "unat (of_nat (8192 * j + bi) :: u32) = 8192 * j + bi" by (rule u)
qed

text \<open>The blocks after allocating block \<open>b\<close>: its bit is set and it is zeroed.\<close>

definition alloc_data :: "superblock \<Rightarrow> (u32 \<Rightarrow> u8 list) \<Rightarrow> u32 \<Rightarrow> u32 \<Rightarrow> u8 list" where
  "alloc_data x D b = D(BBLOCK b x := bmp_set (unat b mod BPB) (D (BBLOCK b x)), b := replicate BSIZE 0)"

definition alloc_tx :: "superblock \<Rightarrow> u32 list \<Rightarrow> u32 \<Rightarrow> u32 list" where
  "alloc_tx x hs b = tx_add (tx_add hs (BBLOCK b x)) b"

text \<open>The client holds no bitmap block and no free block.\<close>

definition apart :: "superblock \<Rightarrow> (u32 \<Rightarrow> u8 list) \<Rightarrow> (u32 \<rightharpoonup> nat) \<Rightarrow> bool" where
  "apart x D H \<longleftrightarrow> (\<forall>b < sb_size x. H (BBLOCK b x) = None) \<and> (\<forall>b. free_block x D b \<longrightarrow> H b = None)"

lemma balloc_take:
  fixes s :: "'a fs_state_scheme"
  assumes t: "tx s hs H D" and ok: "bitmap_ok s D" "apart (sb s) D H" and r: "room s hs 2"
    and n: "Suc (length hs + card (dom H)) < NBUF"
    and b: "free_block (sb s) D b" and x: "x = BBLOCK b (sb s)" and H: "H' = H(x \<mapsto> bp)" and t1: "tx s1 hs H' D" and fr: "fs_frame s s1"
  obtains s' where
    "thenM (modM (upd_buf bp (\<lambda>x. x\<lparr>b_data := bmp_set (unat b mod BPB) (b_data x)\<rparr>)))
       (thenM (log_write bp) (thenM (brelse bp) (thenM (bzero (log_dev s) b) (retM b)))) s1 = Ret b s'"
    and "tx s' (alloc_tx (sb s) hs b) H (alloc_data (sb s) D b)" and "fs_frame s s'"
proof -
  let ?f = "bmp_set (unat b mod BPB)"
  let ?D1 = "D(x := ?f (D x))" and ?hs1 = "tx_add hs x"
  have bs: "b < sb_size (sb s)" using b by (simp add: free_block_def)
  note f1 = fs_frameD [OF fr]
  have xa: "x \<notin> log_area (log_start s1) (log_len s1)" and Hx: "H x = None" "H b = None"
    and ba: "b \<notin> log_area (log_start s) (log_len s)" using ok bs b by (auto simp: bitmap_ok_def apart_def x f1)
  obtain s2 where 2: "log_write bp (upd_buf bp (\<lambda>x. x\<lparr>b_data := ?f (b_data x)\<rparr>) s1) = Ret () s2"
    "tx s2 ?hs1 H' ?D1" "fs_frame s1 s2"
    by (rule tx_log [OF t1, of x bp ?f]) (use H xa tx_length [OF t] room_frame [OF fr] room_mono [OF r, of 1] in auto)
  obtain s3 where 3: "brelse bp s2 = Ret () s3" "tx s3 ?hs1 (H'(x := None)) ?D1" "fs_frame s2 s3"
    by (rule tx_brelse [OF 2(2), of x bp]) (simp add: H)
  have "H'(x := None) = H" using Hx(1) by (auto simp: H)
  then have t3: "tx s3 ?hs1 H ?D1" using 3(2) by simp
  have fr3: "fs_frame s s3" using fs_frame_trans [OF fs_frame_trans [OF fr 2(3)] 3(3)] .
  note f3 = fs_frameD [OF fr3]
  have "room s ?hs1 1" by (rule room_add) (use r in \<open>simp add: numeral_2_eq_2\<close>)
  then obtain s4 where 4: "bzero (log_dev s) b s3 = Ret () s4" "tx s4 (tx_add ?hs1 b) H (?D1(b := replicate BSIZE 0))" "fs_frame s3 s4"
    using bzero_tx [OF t3, of b] f3 Hx(2) ba length_tx_add [of hs x] n room_frame [OF fr3]
    by (metis (no_types, lifting) add_Suc le_less_trans add_le_mono1)
  show ?thesis
    by (rule that [of s4]) (use 2(1) 3(1) 4 fs_frame_trans [OF fr3 4(3)] in \<open>simp_all add: alloc_data_def alloc_tx_def x\<close>)
qed

lemma balloc_loop_tx:
  fixes s :: "'a fs_state_scheme"
  assumes "tx s hs H D" and "bitmap_ok s D" "apart (sb s) D H" and "room s hs 2"
    and "Suc (length hs + card (dom H)) < NBUF"
    and "\<And>j. j \<in> set js \<Longrightarrow> 8192 * j < unat (sb_size (sb s))"
    and "j \<in> set js" "bi < BPB" "8192 * j + bi < unat (sb_size (sb s))" "free_block (sb s) D (of_nat (8192 * j + bi))"
  shows "\<exists>b s'. balloc_loop (log_dev s) (map ((*) BPB) js) s = Ret b s' \<and> free_block (sb s) D b \<and>
    tx s' (alloc_tx (sb s) hs b) H (alloc_data (sb s) D b) \<and> fs_frame s s'"
  using assms
proof (induction js arbitrary: s)
  case Nil
  then show ?case by simp
next
  case (Cons k js)
  note t = Cons.prems(1) and ok = Cons.prems(2,3)
  let ?x = "sb s" and ?bn = "BBLOCK (of_nat (8192 * k)) (sb s)" and ?sz = "unat (sb_size (sb s))"
  have lim: "?sz < 2 ^ 32" using unsigned_less [of "sb_size (sb s)"] by simp
  have k: "8192 * k < ?sz" using Cons.prems(6) by simp
  have "(of_nat (8192 * k) :: u32) < sb_size ?x"
    using k lim by (simp add: word_less_nat_alt unat_of_nat take_bit_nat_eq_self del: of_nat_mult)
  then have Hn: "H ?bn = None" using ok(2) by (simp add: apart_def)
  obtain bp s1 where 1: "bread (log_dev s) ?bn s = Ret bp s1" "tx s1 hs (H(?bn \<mapsto> bp)) D" "fs_frame s s1" "b_data (bufs s1 bp) = D ?bn"
    by (rule tx_bread [OF t Hn]) (use Cons.prems(5) in auto)
  note f1 = fs_frameD [OF 1(3)]
  let ?P = "\<lambda>bi. 8192 * k + bi < ?sz \<and> bmp_free (D ?bn) bi"
  have fb: "free_block ?x D (of_nat (8192 * k + i)) \<longleftrightarrow> bmp_free (D ?bn) i"
    "BBLOCK (of_nat (8192 * k + i)) ?x = ?bn" "unat (of_nat (8192 * k + i) :: u32) mod BPB = i" if "i < BPB" "8192 * k + i < ?sz" for i
    using BBLOCK_of_nat(1) [of i k ?x] BBLOCK_of_nat(2) [of i k] that lim by (auto simp: free_block_def word_less_nat_alt simp del: of_nat_add of_nat_mult)
  show ?case
  proof (cases "first_index ?P BPB")
    case (Some i)
    note i = first_index_SomeD [OF Some]
    let ?b = "of_nat (8192 * k + i) :: u32"
    have fr: "free_block ?x D ?b" using fb [of i] i by simp
    obtain s' where s': "thenM (modM (upd_buf bp (\<lambda>x. x\<lparr>b_data := bmp_set (unat ?b mod BPB) (b_data x)\<rparr>)))
       (thenM (log_write bp) (thenM (brelse bp) (thenM (bzero (log_dev s) ?b) (retM ?b)))) s1 = Ret ?b s'"
      "tx s' (alloc_tx ?x hs ?b) H (alloc_data ?x D ?b)" "fs_frame s s'"
      by (rule balloc_take [OF t ok Cons.prems(4,5) fr refl refl _ 1(3), of bp]) (use 1(2) fb(2) [of i] i in auto)
    have "balloc_loop (log_dev s) (map ((*) BPB) (k # js)) s = Ret ?b s'"
      using 1(1,4) Some s'(1) fb(3) [of i] i by (simp add: f1 del: of_nat_add of_nat_mult)
    then show ?thesis using s' fr by blast
  next
    case None
    obtain s2 where 2: "brelse bp s1 = Ret () s2" "tx s2 hs ((H(?bn \<mapsto> bp))(?bn := None)) D" "fs_frame s1 s2"
      by (rule tx_brelse [OF 1(2), of ?bn bp]) simp
    have "(H(?bn \<mapsto> bp))(?bn := None) = H" using Hn by auto
    then have t2: "tx s2 hs H D" using 2(2) by simp
    have fr2: "fs_frame s s2" using fs_frame_trans [OF 1(3) 2(3)] .
    note f2 = fs_frameD [OF fr2]
    have "j \<noteq> k" using None Cons.prems(8-10) fb [of bi] by (auto simp: first_index_None_iff)
    then obtain b s' where s': "balloc_loop (log_dev s2) (map ((*) BPB) js) s2 = Ret b s'" "free_block (sb s2) D b"
      "tx s' (alloc_tx (sb s2) hs b) H (alloc_data (sb s2) D b)" "fs_frame s2 s'"
      using Cons.IH [OF t2] Cons.prems(2-10) bitmap_ok_frame [OF fr2] room_frame [OF fr2] by (auto simp: f2)
    have "balloc_loop (log_dev s) (map ((*) BPB) (k # js)) s = Ret b s'"
      using 1(1,4) None 2(1) s'(1) by (simp add: f1 f2 del: of_nat_mult)
    then show ?thesis using s' f2 fs_frame_trans [OF fr2 s'(4)] by auto
  qed
qed

lemma balloc_tx:
  fixes s :: "'a fs_state_scheme"
  assumes t: "tx s hs H D" and ok: "bitmap_ok s D" "apart (sb s) D H" and r: "room s hs 2"
    and n: "Suc (length hs + card (dom H)) < NBUF" and c: "free_block (sb s) D c"
  obtains b s' where "balloc (log_dev s) s = Ret b s'" and "free_block (sb s) D b"
    and "tx s' (alloc_tx (sb s) hs b) H (alloc_data (sb s) D b)" and "fs_frame s s'"
proof -
  let ?sz = "unat (sb_size (sb s))"
  let ?js = "[0..<(?sz + (BPB - 1)) div BPB]" and ?j = "unat c div 8192" and ?i = "unat c mod 8192"
  have c': "unat c < ?sz" using c by (simp add: free_block_def word_less_nat_alt)
  have j: "?j \<in> set ?js" "?i < BPB" using c' by auto
  have e: "8192 * ?j + ?i = unat c" by simp
  have ec: "of_nat (8192 * ?j + ?i) = c" unfolding e by simp
  have lt: "8192 * ?j + ?i < ?sz" unfolding e by (rule c')
  have js: "8192 * k < ?sz" if "k \<in> set ?js" for k using that by auto
  have fc: "free_block (sb s) D (of_nat (8192 * ?j + ?i))" unfolding ec by (rule c)
  have "\<exists>b s'. balloc_loop (log_dev s) (map ((*) BPB) ?js) s = Ret b s' \<and> free_block (sb s) D b \<and>
    tx s' (alloc_tx (sb s) hs b) H (alloc_data (sb s) D b) \<and> fs_frame s s'"
    by (rule balloc_loop_tx [OF t ok r n js j(1,2) lt fc])
  then show ?thesis using that by (auto simp: balloc_def)
qed

lemma bitmap_index: "unat b mod BPB div 8 < BSIZE"
  by (simp add: less_mult_imp_div_less)

lemma same_bitmap_block:
  assumes "BBLOCK b x = BBLOCK c x" and "unat b mod BPB = unat c mod BPB"
  shows "b = c"
proof -
  have "unat (b div 8192) = unat (c div 8192)" using assms(1) by (simp add: BBLOCK_def)
  then have "unat b div 8192 = unat c div 8192" by (simp add: unat_div_distrib)
  then have "unat b = unat c" using assms(2) by (metis div_mult_mod_eq)
  then show ?thesis by (simp add: word_unat_eq_iff)
qed

lemma free_block_alloc:
  assumes D: "\<And>b. length (D b) = BSIZE" and ok: "bitmap_ok s D" and b: "free_block (sb s) D b"
  shows "free_block (sb s) (alloc_data (sb s) D b) c \<longleftrightarrow> c \<noteq> b \<and> free_block (sb s) D c"
proof (cases "c < sb_size (sb s)")
  case True
  let ?x = "sb s"
  have bs: "b < sb_size ?x" and "\<forall>c < sb_size ?x. b \<noteq> BBLOCK c ?x"
    using ok b by (simp_all add: bitmap_ok_def free_block_def)
  then have ne: "BBLOCK c ?x \<noteq> b" "BBLOCK b ?x \<noteq> b" using True by metis+
  show ?thesis
  proof (cases "BBLOCK c ?x = BBLOCK b ?x")
    case eq: True
    then have "free_block ?x (alloc_data ?x D b) c \<longleftrightarrow> bmp_free (bmp_set (unat b mod BPB) (D (BBLOCK b ?x))) (unat c mod BPB)"
      using True ne by (simp add: free_block_def alloc_data_def)
    then show ?thesis using True eq same_bitmap_block [OF eq] bitmap_index [of b] by (auto simp: bmp_free_set D free_block_def)
  qed (use True ne in \<open>auto simp: free_block_def alloc_data_def\<close>)
qed (auto simp: free_block_def)

lemma bitmap_ok_alloc:
  assumes "\<And>b. length (D b) = BSIZE" and "bitmap_ok s D" and "free_block (sb s) D b"
  shows "bitmap_ok s (alloc_data (sb s) D b)"
  using assms(2) free_block_alloc [OF assms] by (simp add: bitmap_ok_def)

section \<open>Release\<close>

definition free_data :: "superblock \<Rightarrow> (u32 \<Rightarrow> u8 list) \<Rightarrow> u32 \<Rightarrow> u32 \<Rightarrow> u8 list" where
  "free_data x D b = D(BBLOCK b x := bmp_clear (unat b mod BPB) (D (BBLOCK b x)))"

lemma bfree_tx:
  fixes s :: "'a fs_state_scheme"
  assumes t: "tx s hs H D" and ok: "bitmap_ok s D" "apart (sb s) D H" and r: "room s hs 1"
    and n: "length hs + card (dom H) < NBUF" and b: "b < sb_size (sb s)" "\<not> free_block (sb s) D b"
  obtains s' where "bfree (log_dev s) b s = Ret () s'"
    and "tx s' (tx_add hs (BBLOCK b (sb s))) H (free_data (sb s) D b)" and "fs_frame s s'"
proof -
  let ?x = "BBLOCK b (sb s)" and ?f = "bmp_clear (unat b mod BPB)"
  have x: "H ?x = None" "?x \<notin> log_area (log_start s) (log_len s)" using ok b by (auto simp: bitmap_ok_def apart_def)
  obtain bp s1 where 1: "bread (log_dev s) ?x s = Ret bp s1" "tx s1 hs (H(?x \<mapsto> bp)) D" "fs_frame s s1" "b_data (bufs s1 bp) = D ?x"
    by (rule tx_bread [OF t x(1) n])
  note f1 = fs_frameD [OF 1(3)]
  obtain s2 where 2: "log_write bp (upd_buf bp (\<lambda>x. x\<lparr>b_data := ?f (b_data x)\<rparr>) s1) = Ret () s2"
    "tx s2 (tx_add hs ?x) (H(?x \<mapsto> bp)) (D(?x := ?f (D ?x)))" "fs_frame s1 s2"
    by (rule tx_log [OF 1(2), of ?x bp ?f]) (use x(2) r f1 room_frame [OF 1(3)] tx_length [OF t] in auto)
  obtain s3 where 3: "brelse bp s2 = Ret () s3" "tx s3 (tx_add hs ?x) ((H(?x \<mapsto> bp))(?x := None)) (D(?x := ?f (D ?x)))" "fs_frame s2 s3"
    by (rule tx_brelse [OF 2(2), of ?x bp]) simp
  have "H(?x := None) = H" using x(1) by auto
  then have "tx s3 (tx_add hs ?x) H (free_data (sb s) D b)" using 3(2) by (simp add: free_data_def)
  moreover have "bfree (log_dev s) b s = Ret () s3"
    using 1(1,4) 2(1) 3(1) b by (simp add: bfree_def free_block_def Let_def)
  ultimately show ?thesis using that fs_frame_trans [OF fs_frame_trans [OF 1(3) 2(3)] 3(3)] by blast
qed

text \<open>Freeing a block that is free already panics.\<close>

lemma bfree_twice:
  fixes s :: "'a fs_state_scheme"
  assumes t: "tx s hs H D" and ok: "bitmap_ok s D" "apart (sb s) D H" and n: "length hs + card (dom H) < NBUF"
    and b: "free_block (sb s) D b"
  shows "bfree (log_dev s) b s = Panic ''freeing free block''"
proof -
  let ?x = "BBLOCK b (sb s)"
  have x: "H ?x = None" using ok b by (auto simp: apart_def free_block_def)
  obtain bp s1 where "bread (log_dev s) ?x s = Ret bp s1" "b_data (bufs s1 bp) = D ?x"
    by (rule tx_bread [OF t x n])
  then show ?thesis using b by (simp add: bfree_def free_block_def Let_def)
qed

lemma free_block_free:
  assumes D: "\<And>b. length (D b) = BSIZE" and b: "b < sb_size x"
  shows "free_block x (free_data x D b) c \<longleftrightarrow> c = b \<or> free_block x D c"
proof (cases "BBLOCK c x = BBLOCK b x")
  case eq: True
  then show ?thesis using b same_bitmap_block [OF eq] bitmap_index [of b]
    by (auto simp: free_block_def free_data_def bmp_free_clear D)
qed (use b in \<open>auto simp: free_block_def free_data_def\<close>)

text \<open>Releasing the block just allocated restores the bitmap; only the block itself stays zeroed.\<close>

lemma free_alloc_data:
  assumes "\<And>b. length (D b) = BSIZE" and "bitmap_ok s D" and "free_block (sb s) D b"
  shows "free_data (sb s) (alloc_data (sb s) D b) b = D(b := replicate BSIZE 0)"
proof -
  let ?x = "sb s"
  have "b < sb_size ?x" "\<forall>c < sb_size ?x. b \<noteq> BBLOCK c ?x" using assms by (simp_all add: bitmap_ok_def free_block_def)
  then have "BBLOCK b ?x \<noteq> b" by metis
  moreover have "bmp_clear (unat b mod BPB) (bmp_set (unat b mod BPB) (D (BBLOCK b ?x))) = D (BBLOCK b ?x)"
    by (rule bmp_clear_set) (use assms bitmap_index [of b] in \<open>simp_all add: free_block_def\<close>)
  ultimately show ?thesis by (auto simp: free_data_def alloc_data_def fun_eq_iff)
qed

text \<open>
  C11: The block allocator hands out a block only once. In a transaction with room for it, and
  with a free block left, \<open>balloc\<close> returns a block that was free; the block is zeroed and marked
  used, every other block keeps its status, and no block but that one and its bitmap block
  changes. \<open>bfree\<close> then makes exactly that block free again, and freeing it once more panics.
\<close>

theorem balloc_bfree_correct:
  fixes s :: "'a fs_state_scheme"
  assumes t: "tx s hs Map.empty D" and ok: "bitmap_ok s D" and r: "room s hs 3" and c: "free_block (sb s) D c"
  shows "\<exists>b s1 hs1 D1 s2 hs2. balloc (log_dev s) s = Ret b s1 \<and> tx s1 hs1 Map.empty D1 \<and> free_block (sb s) D b \<and>
    D1 b = replicate BSIZE 0 \<and> (\<forall>x. free_block (sb s) D1 x \<longleftrightarrow> x \<noteq> b \<and> free_block (sb s) D x) \<and>
    (\<forall>x. x \<noteq> b \<longrightarrow> x \<noteq> BBLOCK b (sb s) \<longrightarrow> D1 x = D x) \<and>
    bfree (log_dev s) b s1 = Ret () s2 \<and> tx s2 hs2 Map.empty (D(b := replicate BSIZE 0)) \<and>
    bfree (log_dev s) b s2 = Panic ''freeing free block''"
proof -
  note D = tx_length [OF t]
  have ap: "apart x E Map.empty" for x E by (simp add: apart_def)
  obtain b s1 where 1: "balloc (log_dev s) s = Ret b s1" "free_block (sb s) D b"
    "tx s1 (alloc_tx (sb s) hs b) Map.empty (alloc_data (sb s) D b)" "fs_frame s s1"
    by (rule balloc_tx [OF t ok ap _ _ c]) (use r in \<open>auto simp: room_def\<close>)
  let ?D1 = "alloc_data (sb s) D b" and ?hs1 = "alloc_tx (sb s) hs b"
  note f1 = fs_frameD [OF 1(4)] and fa = free_block_alloc [OF D ok 1(2)]
  have len: "length ?hs1 \<le> length hs + 2"
    using length_tx_add [of hs "BBLOCK b (sb s)"] length_tx_add [of "tx_add hs (BBLOCK b (sb s))" b] by (simp add: alloc_tx_def)
  have ok1: "bitmap_ok s1 ?D1" using bitmap_ok_alloc [OF D ok 1(2)] bitmap_ok_frame [OF 1(4)] by simp
  have b: "b < sb_size (sb s)" using 1(2) by (simp add: free_block_def)
  obtain s2 where 2: "bfree (log_dev s1) b s1 = Ret () s2"
    "tx s2 (tx_add ?hs1 (BBLOCK b (sb s1))) Map.empty (free_data (sb s1) ?D1 b)" "fs_frame s1 s2"
    by (rule bfree_tx [OF 1(3) ok1 ap, of b]) (use r len b fa f1 in \<open>auto simp: room_def\<close>)
  let ?E = "D(b := replicate BSIZE 0)"
  have t2: "tx s2 (tx_add ?hs1 (BBLOCK b (sb s))) Map.empty ?E" using 2(2) free_alloc_data [OF D ok 1(2)] f1 by simp
  note f2 = fs_frameD [OF 2(3)]
  have fE: "free_block (sb s) ?E x = free_block (sb s) D x" for x
    using free_block_free [where D = ?D1 and c = x, OF tx_length [OF 1(3)] b] fa 1(2) free_alloc_data [OF D ok 1(2)] by auto
  have "bitmap_ok s2 ?E" using ok f1 f2 by (simp add: bitmap_ok_def fE)
  then have "bfree (log_dev s2) b s2 = Panic ''freeing free block''"
    by (rule bfree_twice [OF t2 _ ap]) (use r len length_tx_add [of ?hs1 "BBLOCK b (sb s)"] 1(2) f1 f2 fE in \<open>auto simp: room_def\<close>)
  moreover have "?D1 b = replicate BSIZE 0" "\<forall>x. x \<noteq> b \<longrightarrow> x \<noteq> BBLOCK b (sb s) \<longrightarrow> ?D1 x = D x" by (simp_all add: alloc_data_def)
  ultimately show ?thesis using 1 2(1) t2 fa f1 f2 by metis
qed

text \<open>The small file system meets the layout.\<close>

lemma small_BBLOCK: "b < 200 \<Longrightarrow> BBLOCK b small_sb = 45"
proof -
  assume "b < 200"
  then have "unat (b div 8192) = 0" by (simp add: unat_div_distrib word_less_nat_alt)
  then show "BBLOCK b small_sb = 45" by (simp add: BBLOCK_def small_sb_def unat_eq_zero)
qed

lemma small_free:
  assumes "d 45 = small_disk 45"
  shows "free_block small_sb d b \<longleftrightarrow> 48 \<le> b \<and> b < 200"
proof -
  have "bmp_free (small_disk 45) (unat b mod BPB) \<longleftrightarrow> 48 \<le> b" if "b < 200"
  proof -
    have u: "unat b < 200" using that by (simp add: word_less_nat_alt)
    have d: "small_disk 45 ! (unat b div 8) = (if unat b div 8 < 6 then 255 else 0)" using u by (auto simp: small_disk_def nth_append)
    have m: "(255 :: u8) = mask 8" by (simp add: mask_eq_exp_minus_1)
    have "bit (255 :: u8) (unat b mod 8)" unfolding m by (simp add: bit_mask_iff)
    then show ?thesis using u d by (auto simp: bmp_free_bit word_le_nat_alt)
  qed
  then show ?thesis using small_BBLOCK [of b] assms by (auto simp: free_block_def small_sb_def)
qed

lemma small_log_area: "b \<in> log_area 2 30 \<longleftrightarrow> 2 \<le> b \<and> b < 32"
  unfolding log_area_def by (auto simp: word_less_nat_alt word_le_nat_alt unat_sub_if')

lemma bitmap_ok_small:
  assumes s: "sb s = small_sb" "log_start s = 2" "log_size s = 30" and d: "d 45 = small_disk 45"
  shows "bitmap_ok s d"
proof -
  have "(45 :: u32) \<notin> log_area 2 30" by (simp add: small_log_area)
  moreover have "b \<noteq> 0" "b \<notin> log_area 2 30" "b \<noteq> 45" if "48 \<le> b" for b :: u32
    using that by (auto simp: small_log_area word_le_nat_alt word_less_nat_alt)
  ultimately show ?thesis using small_BBLOCK
    by (simp add: bitmap_ok_def s small_free [of d, OF d]) (simp add: small_sb_def)
qed

theorem balloc_bfree_correct_witness:
  "\<exists>b s1 hs1 D1 s2 hs2. balloc 1 (small_fs\<lparr>log_outstanding := 1\<rparr>) = Ret b s1 \<and> tx s1 hs1 Map.empty D1 \<and>
    D1 b = replicate BSIZE 0 \<and> bfree 1 b s1 = Ret () s2 \<and> tx s2 hs2 Map.empty (small_disk(b := replicate BSIZE 0)) \<and>
    bfree 1 b s2 = Panic ''freeing free block''"
proof -
  let ?s = "small_fs\<lparr>log_outstanding := 1\<rparr>"
  have f: "sb ?s = small_sb" "log_dev ?s = 1" by (simp_all add: small_fs_fields)
  have t: "tx ?s [] Map.empty small_disk" using begin_op_tx(2) [OF quiet_small_fs] by (simp add: small_fs_fields)
  have ok: "bitmap_ok ?s small_disk" by (rule bitmap_ok_small) (simp_all add: small_fs_fields)
  have r: "room ?s [] 3" by (simp add: room_def small_fs_fields)
  have c: "free_block (sb ?s) small_disk 100" unfolding f by (simp add: small_free [of small_disk])
  from balloc_bfree_correct [OF t ok r c] show ?thesis
    unfolding f by (elim exE conjE) (intro exI conjI; assumption)
qed

end
