(* ===== verification/Fs_File.thy ===== *)
theory Fs_File
  imports Fs_Alloc
begin

text \<open>
  The contents of files: \<open>bmap\<close>, \<open>readi\<close>, \<open>writei\<close> and \<open>iupdate\<close> of \<^verbatim>\<open>kernel/fs.c\<close> against a file
  as a list of bytes.
\<close>

section \<open>The blocks of a file\<close>

text \<open>
  \<open>fblock ip D k\<close> is the disk block that holds the \<open>k\<close>-th block of the file, or 0.
\<close>

definition fblock :: "inode \<Rightarrow> (u32 \<Rightarrow> u8 list) \<Rightarrow> nat \<Rightarrow> u32" where
  "fblock ip D k =
     (if k < NDIRECT then ip_addrs ip k
      else if ip_addrs ip NDIRECT = 0 then 0
      else get32 (D (ip_addrs ip NDIRECT)) (4 * (k - NDIRECT)))"

text \<open>A block of the file system that the allocator will not hand out and that is neither in the log nor in the bitmap.\<close>

definition claimed :: "'a fs_state_scheme \<Rightarrow> (u32 \<Rightarrow> u8 list) \<Rightarrow> u32 \<Rightarrow> bool" where
  "claimed s D b \<longleftrightarrow> \<not> free_block (sb s) D b \<and> b \<notin> log_area (log_start s) (log_len s) \<and>
     (\<forall>c < sb_size (sb s). b \<noteq> BBLOCK c (sb s))"

definition file_ok :: "'a fs_state_scheme \<Rightarrow> inode \<Rightarrow> (u32 \<Rightarrow> u8 list) \<Rightarrow> bool" where
  "file_ok s ip D \<longleftrightarrow>
     (\<forall>j<MAXFILE. \<forall>k<MAXFILE. fblock ip D j \<noteq> 0 \<longrightarrow> fblock ip D j = fblock ip D k \<longrightarrow> j = k) \<and>
     (\<forall>k<MAXFILE. fblock ip D k \<noteq> 0 \<longrightarrow> claimed s D (fblock ip D k) \<and>
        fblock ip D k \<noteq> ip_addrs ip NDIRECT \<and> fblock ip D k \<noteq> IBLOCK (ip_inum ip) (sb s)) \<and>
     (ip_addrs ip NDIRECT \<noteq> 0 \<longrightarrow>
        claimed s D (ip_addrs ip NDIRECT) \<and> ip_addrs ip NDIRECT \<noteq> IBLOCK (ip_inum ip) (sb s)) \<and>
     claimed s D (IBLOCK (ip_inum ip) (sb s))"

definition owns :: "inode \<Rightarrow> (u32 \<Rightarrow> u8 list) \<Rightarrow> u32 \<Rightarrow> bool" where
  "owns ip D c \<longleftrightarrow> c \<noteq> 0 \<and> (c = ip_addrs ip NDIRECT \<or> (\<exists>k<MAXFILE. fblock ip D k = c))"

lemma file_ok_frame: "fs_frame s s' \<Longrightarrow> file_ok s' ip D = file_ok s ip D"
  by (simp add: file_ok_def claimed_def fs_frameD)

lemma file_ok_upd_inode [simp]: "file_ok (upd_inode i f s) ip D = file_ok s ip D"
  by (simp add: file_ok_def claimed_def upd_inode_def)

lemma bitmap_ok_upd_inode [simp]: "bitmap_ok (upd_inode i f s) D = bitmap_ok s D"
  by (simp add: bitmap_ok_def upd_inode_def)

lemma room_upd_inode [simp]: "room (upd_inode i f s) hs n = room s hs n"
  by (simp add: room_def upd_inode_def)

text \<open>Allocating a block leaves every block in use as it was.\<close>

lemma alloc_claimed:
  assumes D: "\<And>b. length (D b) = BSIZE" and ok: "bitmap_ok s D" and b: "free_block (sb s) D b" and c: "claimed s D c"
  shows "c \<noteq> b" and "alloc_data (sb s) D b c = D c" and "claimed s (alloc_data (sb s) D b) c"
proof -
  have "b < sb_size (sb s)" using b by (simp add: free_block_def)
  then have ne: "c \<noteq> b" "c \<noteq> BBLOCK b (sb s)" using b c by (auto simp: claimed_def)
  then show "c \<noteq> b" "alloc_data (sb s) D b c = D c" by (simp_all add: alloc_data_def)
  show "claimed s (alloc_data (sb s) D b) c" using c free_block_alloc [OF D ok b] by (simp add: claimed_def)
qed

lemma alloc_claimed_new:
  assumes D: "\<And>b. length (D b) = BSIZE" and ok: "bitmap_ok s D" and b: "free_block (sb s) D b"
  shows "claimed s (alloc_data (sb s) D b) b" and "alloc_data (sb s) D b b = replicate BSIZE 0" and "b \<noteq> 0"
  using ok b free_block_alloc [OF D ok b] by (simp_all add: claimed_def bitmap_ok_def alloc_data_def)

lemma word_of_zeros: "word_of_bytes (replicate n 0) = 0"
  by (induction n) simp_all

lemma get32_zeros: "get32 (replicate n 0) o' = 0"
  by (simp add: get32_def word_of_zeros)

lemma fblock_slot:
  assumes D: "\<And>b. length (D b) = BSIZE" and ok: "bitmap_ok s D" "file_ok s ip D" and b: "free_block (sb s) D b"
    and j: "j \<le> NDIRECT" "ip_addrs ip j = 0" and k: "k < MAXFILE"
  defines "ip' \<equiv> ip\<lparr>ip_addrs := (ip_addrs ip)(j := b)\<rparr>"
  shows "fblock ip' (alloc_data (sb s) D b) k = (if k = j \<and> j < NDIRECT then b else fblock ip D k)"
proof -
  have "ip_addrs ip NDIRECT \<noteq> 0 \<Longrightarrow> alloc_data (sb s) D b (ip_addrs ip NDIRECT) = D (ip_addrs ip NDIRECT)"
    using alloc_claimed [OF D ok(1) b] ok(2) by (simp add: file_ok_def)
  then show ?thesis
    using j k alloc_claimed_new [OF D ok(1) b] by (auto simp: get32_zeros fblock_def ip'_def)
qed

text \<open>
  A file grows by a fresh block \<open>b\<close>, either as block \<open>j\<close> of its contents or, when \<open>j\<close> is out of
  range, as its indirect block.
\<close>

lemma file_ok_grow:
  assumes ok: "file_ok s ip D" and inum: "ip_inum ip' = ip_inum ip"
    and tk: "\<And>c. claimed s D c \<Longrightarrow> claimed s D' c" "\<And>c. claimed s D c \<Longrightarrow> c \<noteq> b" and nw: "claimed s D' b" "b \<noteq> 0"
    and fb: "\<And>k. k < MAXFILE \<Longrightarrow> fblock ip' D' k = (if k = j then b else fblock ip D k)"
    and ind: "ip_addrs ip' NDIRECT = ip_addrs ip NDIRECT \<or> (MAXFILE \<le> j \<and> ip_addrs ip' NDIRECT = b)"
  shows "file_ok s ip' D'"
proof -
  let ?ib = "IBLOCK (ip_inum ip) (sb s)" and ?ind = "ip_addrs ip NDIRECT"
  have old: "claimed s D (fblock ip D k)" "fblock ip D k \<noteq> ?ind" "fblock ip D k \<noteq> ?ib"
    if "k < MAXFILE" "fblock ip D k \<noteq> 0" for k using ok that by (simp_all add: file_ok_def)
  have inj: "j = k" if "j < MAXFILE" "k < MAXFILE" "fblock ip D j \<noteq> 0" "fblock ip D j = fblock ip D k" for j k
    using ok that by (auto simp: file_ok_def)
  have ib: "claimed s D ?ib" using ok by (simp add: file_ok_def)
  have oind: "claimed s D ?ind" "?ind \<noteq> ?ib" if "?ind \<noteq> 0" using ok that by (simp_all add: file_ok_def)
  have ne: "fblock ip D k \<noteq> b" if "k < MAXFILE" for k using old [OF that] tk(2) nw(2) by metis
  have eqb: "fblock ip' D' k = b \<longleftrightarrow> k = j" if "k < MAXFILE" for k using fb [OF that] ne [OF that] by metis
  have "k = l" if k: "k < MAXFILE" "l < MAXFILE" "fblock ip' D' k \<noteq> 0" "fblock ip' D' k = fblock ip' D' l" for k l
    using k(3,4) eqb [OF k(1)] eqb [OF k(2)] fb [OF k(1)] fb [OF k(2)] inj [OF k(1,2)] by metis
  moreover have "claimed s D' (fblock ip' D' k)" "fblock ip' D' k \<noteq> ip_addrs ip' NDIRECT" "fblock ip' D' k \<noteq> ?ib"
    if k: "k < MAXFILE" "fblock ip' D' k \<noteq> 0" for k
  proof -
    show "claimed s D' (fblock ip' D' k)" using fb [OF k(1)] k old [OF k(1)] tk(1) nw(1) by metis
    show "fblock ip' D' k \<noteq> ip_addrs ip' NDIRECT"
      using fb [OF k(1)] k old [OF k(1)] ne [OF k(1)] ind oind(1) tk(2) by (metis leD)
    show "fblock ip' D' k \<noteq> ?ib" using fb [OF k(1)] k old [OF k(1)] tk(2) [OF ib] by metis
  qed
  moreover have "claimed s D' (ip_addrs ip' NDIRECT)" "ip_addrs ip' NDIRECT \<noteq> ?ib" if "ip_addrs ip' NDIRECT \<noteq> 0"
    using that ind oind tk nw ib by metis+
  ultimately show ?thesis unfolding file_ok_def inum using tk(1) [OF ib] by metis
qed

lemma owns_grow:
  assumes fb: "\<And>k. k < MAXFILE \<Longrightarrow> fblock ip' D' k = b \<or> fblock ip' D' k = fblock ip D k"
    and ind: "ip_addrs ip' NDIRECT = ip_addrs ip NDIRECT \<or> ip_addrs ip' NDIRECT = b"
    and o': "owns ip' D' c" and c: "c \<noteq> b"
  shows "owns ip D c"
  using fb ind o' c unfolding owns_def by metis

lemma file_ok_slot:
  assumes D: "\<And>b. length (D b) = BSIZE" and ok: "bitmap_ok s D" "file_ok s ip D" and b: "free_block (sb s) D b"
    and j: "j \<le> NDIRECT" "ip_addrs ip j = 0"
  shows "file_ok s (ip\<lparr>ip_addrs := (ip_addrs ip)(j := b)\<rparr>) (alloc_data (sb s) D b)"
proof -
  let ?j = "if j < NDIRECT then j else MAXFILE" and ?ip = "ip\<lparr>ip_addrs := (ip_addrs ip)(j := b)\<rparr>"
  have fb: "fblock ?ip (alloc_data (sb s) D b) k = (if k = ?j then b else fblock ip D k)" if "k < MAXFILE" for k
  proof -
    have "k = ?j \<longleftrightarrow> k = j \<and> j < NDIRECT" using that by auto
    then show ?thesis using fblock_slot [OF D ok b j that] by metis
  qed
  have ind: "ip_addrs ?ip NDIRECT = ip_addrs ip NDIRECT \<or> (MAXFILE \<le> ?j \<and> ip_addrs ?ip NDIRECT = b)" using j by auto
  have inum: "ip_inum ?ip = ip_inum ip" by simp
  show ?thesis
    by (rule file_ok_grow [OF ok(2) inum alloc_claimed(3,1) [OF D ok(1) b] alloc_claimed_new(1,3) [OF D ok(1) b] fb ind])
qed

text \<open>A fresh block entered in the indirect block.\<close>

definition entry_data :: "superblock \<Rightarrow> (u32 \<Rightarrow> u8 list) \<Rightarrow> u32 \<Rightarrow> u32 \<Rightarrow> nat \<Rightarrow> u32 \<Rightarrow> u8 list" where
  "entry_data x D b ind k = (alloc_data x D b)(ind := put32 (alloc_data x D b ind) (4 * (k - NDIRECT)) b)"

lemma claimed_other:
  assumes "claimed s D a" shows "claimed s (D(a := v)) c = claimed s D c"
proof -
  have "free_block (sb s) (D(a := v)) c = free_block (sb s) D c" for c
    using assms by (auto simp: claimed_def free_block_def)
  then show ?thesis by (simp add: claimed_def)
qed

lemma entry_facts:
  assumes D: "\<And>b. length (D b) = BSIZE" and ok: "bitmap_ok s D" "file_ok s ip D" and b: "free_block (sb s) D b"
    and k: "NDIRECT \<le> k" "k < MAXFILE" "ip_addrs ip NDIRECT \<noteq> 0" "fblock ip D k = 0"
  defines "D' \<equiv> entry_data (sb s) D b (ip_addrs ip NDIRECT) k"
  shows "l < MAXFILE \<Longrightarrow> fblock ip D' l = (if l = k then b else fblock ip D l)" and "file_ok s ip D'"
    and "D' b = replicate BSIZE 0" and "free_block (sb s) D' c = free_block (sb s) (alloc_data (sb s) D b) c"
proof -
  let ?ind = "ip_addrs ip NDIRECT"
  note tk = alloc_claimed [OF D ok(1) b] and nw = alloc_claimed_new [OF D ok(1) b]
  have ind: "claimed s D ?ind" using ok(2) k by (simp add: file_ok_def)
  note i = tk [OF ind]
  have g: "get32 (put32 (D ?ind) (4 * (k - NDIRECT)) b) (4 * (l - NDIRECT)) = (if l = k then b else get32 (D ?ind) (4 * (l - NDIRECT)))"
    if "NDIRECT \<le> l" "l < MAXFILE" for l using that k D by (auto intro!: get32_put32_other)
  show fb: "fblock ip D' l = (if l = k then b else fblock ip D l)" if "l < MAXFILE" for l
    using k that g [of l] i(2) by (auto simp: fblock_def D'_def entry_data_def)
  show "D' b = replicate BSIZE 0" using i(1) nw by (simp add: D'_def entry_data_def)
  have t': "claimed s D' c = claimed s (alloc_data (sb s) D b) c" for c
    unfolding D'_def entry_data_def by (rule claimed_other [OF i(3)])
  show "file_ok s ip D'"
    by (rule file_ok_grow [OF ok(2) refl _ tk(1) _ nw(3) fb]) (use tk(3) nw(1) t' in simp_all)
  show "free_block (sb s) D' c = free_block (sb s) (alloc_data (sb s) D b) c"
    using i(3) by (auto simp: D'_def entry_data_def claimed_def free_block_def)
qed

section \<open>Growing a file\<close>

text \<open>Up to the addresses in inode \<open>i\<close>, only what \<open>fs_frame\<close> allows differs.\<close>

definition addr_frame :: "nat \<Rightarrow> 'a fs_state_scheme \<Rightarrow> 'a fs_state_scheme \<Rightarrow> bool" where
  "addr_frame i s s' \<longleftrightarrow> (\<exists>a. fs_frame (upd_inode i (\<lambda>x. x\<lparr>ip_addrs := a\<rparr>) s) s')"

lemma fs_frame_upd_inode:
  assumes "fs_frame s t"
  shows "fs_frame (upd_inode i f s) (upd_inode i f t)"
proof -
  obtain h ps bs d w where t: "t = (s\<lparr>lh := h\<rparr>)\<lparr>procs := ps, bufs := bs, disk := d, wtrace := w\<rparr>"
    and p: "\<forall>i. ps i = (procs s i)\<lparr>p_state := p_state (ps i)\<rparr>" "ps (cur s) = procs s (cur s)"
    using assms by (auto simp: fs_frame_def bio_frame_def)
  show ?thesis unfolding fs_frame_def
    by (rule exI [of _ h], rule bio_frameI [where ps = ps and bs = bs and d = d and w = w])
      (use p in \<open>simp_all add: t upd_inode_def\<close>)
qed

lemma upd_inode_twice [simp]: "upd_inode i f (upd_inode i g s) = upd_inode i (\<lambda>x. f (g x)) s"
  by (simp add: upd_inode_def)

lemma upd_inode_addrs_same [simp]: "upd_inode i (\<lambda>x. x\<lparr>ip_addrs := ip_addrs (itable s i)\<rparr>) s = s"
  by (simp add: upd_inode_def)

lemma fs_addr_frame: "fs_frame s s' \<Longrightarrow> addr_frame i s s'"
  unfolding addr_frame_def by (rule exI [of _ "ip_addrs (itable s i)"]) simp

lemma addr_frame_trans:
  assumes "addr_frame i s t" and "addr_frame i t u"
  shows "addr_frame i s u"
proof -
  obtain a b where a: "fs_frame (upd_inode i (\<lambda>x. x\<lparr>ip_addrs := a\<rparr>) s) t" and b: "fs_frame (upd_inode i (\<lambda>x. x\<lparr>ip_addrs := b\<rparr>) t) u"
    using assms by (auto simp: addr_frame_def)
  have "fs_frame (upd_inode i (\<lambda>x. x\<lparr>ip_addrs := b\<rparr>) s) (upd_inode i (\<lambda>x. x\<lparr>ip_addrs := b\<rparr>) t)"
    using fs_frame_upd_inode [OF a, of i "\<lambda>x. x\<lparr>ip_addrs := b\<rparr>"] by simp
  then show ?thesis using fs_frame_trans b by (auto simp: addr_frame_def)
qed

lemma addr_frame_set: "fs_frame s t \<Longrightarrow> addr_frame i s (set_addr i k b t)"
proof -
  assume f: "fs_frame s t"
  let ?a = "(ip_addrs (itable s i))(k := b)"
  have "set_addr i k b t = upd_inode i (\<lambda>x. x\<lparr>ip_addrs := ?a\<rparr>) t"
    using fs_frameD(1) [OF f] by (simp add: set_addr_def upd_inode_def)
  then show ?thesis using fs_frame_upd_inode [OF f] by (auto simp: addr_frame_def)
qed

lemma addr_frameD:
  assumes "addr_frame i s s'"
  shows "itable s' = (itable s)(i := (itable s i)\<lparr>ip_addrs := ip_addrs (itable s' i)\<rparr>)" and "sb s' = sb s"
    and "myproc s' = myproc s" and "held_by s' = held_by s" and "mem s' = mem s" and "log_dev s' = log_dev s"
    and "log_start s' = log_start s" and "log_size s' = log_size s" and "log_outstanding s' = log_outstanding s"
    and "log_committing s' = log_committing s"
proof -
  obtain a where a: "fs_frame (upd_inode i (\<lambda>x. x\<lparr>ip_addrs := a\<rparr>) s) s'" using assms by (auto simp: addr_frame_def)
  note f = fs_frameD [OF a]
  show "itable s' = (itable s)(i := (itable s i)\<lparr>ip_addrs := ip_addrs (itable s' i)\<rparr>)" using f(1) by (simp add: upd_inode_def)
  show "sb s' = sb s" "myproc s' = myproc s" "held_by s' = held_by s" "mem s' = mem s" "log_dev s' = log_dev s"
    "log_start s' = log_start s" "log_size s' = log_size s" "log_outstanding s' = log_outstanding s"
    "log_committing s' = log_committing s" using f by (simp_all add: upd_inode_def held_by_def myproc_def)
qed

lemma addr_frame_inode:
  assumes "addr_frame i s s'"
  shows "ip_inum (itable s' i) = ip_inum (itable s i)" and "ip_dev (itable s' i) = ip_dev (itable s i)"
    and "ip_size (itable s' i) = ip_size (itable s i)"
  by (subst addr_frameD(1) [OF assms], simp)+

lemma addr_frame_ok:
  assumes "addr_frame i s s'"
  shows "claimed s' D c = claimed s D c" and "bitmap_ok s' D = bitmap_ok s D" and "room s' hs n = room s hs n"
    and "file_ok s' ip D = file_ok s ip D"
  using addr_frameD [OF assms] by (simp_all add: claimed_def bitmap_ok_def room_def file_ok_def)

definition nfree :: "superblock \<Rightarrow> (u32 \<Rightarrow> u8 list) \<Rightarrow> nat" where
  "nfree x D = card {b. free_block x D b}"

lemma nfree_alloc:
  assumes "\<And>b. length (D b) = BSIZE" and "bitmap_ok s D" and "free_block (sb s) D b"
  shows "nfree (sb s) D = Suc (nfree (sb s) (alloc_data (sb s) D b))"
proof -
  let ?F = "{c. free_block (sb s) D c}"
  have "{c. free_block (sb s) (alloc_data (sb s) D b) c} = ?F - {b}"
    using free_block_alloc [OF assms] by blast
  moreover have "card ?F = Suc (card (?F - {b}))"
    by (rule card.remove [OF finite]) (use assms(3) in blast)
  ultimately show ?thesis unfolding nfree_def by metis
qed

text \<open>
  \<open>grown\<close>: in the transaction inode \<open>i\<close> may have got at most \<open>n\<close> blocks; at most \<open>m\<close> more blocks
  are logged; what was in use keeps its contents, the indirect block of the file apart.
\<close>

definition grown :: "nat \<Rightarrow> nat \<Rightarrow> nat \<Rightarrow> 'a fs_state_scheme \<Rightarrow> u32 list \<Rightarrow> (u32 \<Rightarrow> u8 list) \<Rightarrow>
    'a fs_state_scheme \<Rightarrow> u32 list \<Rightarrow> (u32 \<Rightarrow> u8 list) \<Rightarrow> bool" where
  "grown i n m s hs D s' hs' D' \<longleftrightarrow>
     tx s' hs' Map.empty D' \<and> bitmap_ok s' D' \<and> file_ok s' (itable s' i) D' \<and> addr_frame i s s' \<and>
     length hs' \<le> length hs + m \<and> nfree (sb s) D \<le> nfree (sb s) D' + n \<and>
     (\<forall>c. owns (itable s' i) D' c \<longrightarrow> claimed s D c \<longrightarrow> owns (itable s i) D c) \<and>
     (\<forall>c. claimed s D c \<longrightarrow> claimed s D' c \<and> (c = 0 \<or> c \<noteq> ip_addrs (itable s i) NDIRECT \<longrightarrow> D' c = D c))"

lemma grown_refl: "tx s hs Map.empty D \<Longrightarrow> bitmap_ok s D \<Longrightarrow> file_ok s (itable s i) D \<Longrightarrow> grown i n m s hs D s hs D"
  by (simp add: grown_def fs_addr_frame)

lemma apart_empty [simp]: "apart x D Map.empty"
  by (simp add: apart_def)

lemma room_buffers: "room s hs n \<Longrightarrow> length hs + 2 \<le> NBUF"
  by (simp add: room_def)

lemma addr_or_alloc_tx:
  fixes s :: "'a fs_state_scheme"
  assumes t: "tx s hs Map.empty D" and ok: "bitmap_ok s D" "file_ok s (itable s i) D" and dev: "ip_dev (itable s i) = log_dev s"
    and r: "room s hs 2" and n: "nfree (sb s) D \<ge> 1" and j: "j \<le> NDIRECT"
  obtains a s' hs' D' where "addr_or_alloc i j s = Ret a s'" and "a \<noteq> 0" and "ip_addrs (itable s' i) j = a"
    and "grown i 1 2 s hs D s' hs' D'"
    and "\<And>k. k < MAXFILE \<Longrightarrow> fblock (itable s' i) D' k = (if k = j \<and> j < NDIRECT then a else fblock (itable s i) D k)"
    and "if ip_addrs (itable s i) j = 0 then D' a = replicate BSIZE 0 \<and> \<not> claimed s D a else a = ip_addrs (itable s i) j"
proof (cases "ip_addrs (itable s i) j = 0")
  case False
  then show ?thesis using that [of "ip_addrs (itable s i) j" s hs D] grown_refl [OF t ok] j
    by (simp add: addr_or_alloc_def Let_def fblock_def)
next
  case True
  note D = tx_length [OF t]
  obtain c where c: "free_block (sb s) D c" using n by (auto simp: nfree_def Suc_le_eq card_gt_0_iff)
  obtain b s1 where 1: "balloc (log_dev s) s = Ret b s1" "free_block (sb s) D b"
    "tx s1 (alloc_tx (sb s) hs b) Map.empty (alloc_data (sb s) D b)" "fs_frame s s1"
    by (rule balloc_tx [OF t ok(1) apart_empty r _ c]) (use room_buffers [OF r] in auto)
  note tk = alloc_claimed [OF D ok(1) 1(2)] and nw = alloc_claimed_new [OF D ok(1) 1(2)]
  let ?s' = "set_addr i j b s1" and ?D = "alloc_data (sb s) D b"
  have it: "itable ?s' i = (itable s i)\<lparr>ip_addrs := (ip_addrs (itable s i))(j := b)\<rparr>"
    using fs_frameD(1) [OF 1(4)] by (simp add: set_addr_def upd_inode_def)
  note fr = addr_frame_set [OF 1(4), of i j b]
  have A: "addr_or_alloc i j s = Ret b ?s'" using True 1(1) nw(3) dev by (simp add: addr_or_alloc_def Let_def)
  have G: "grown i 1 2 s hs D ?s' (alloc_tx (sb s) hs b) ?D"
    unfolding grown_def
  proof (intro conjI)
    show "tx ?s' (alloc_tx (sb s) hs b) Map.empty ?D" using 1(3) by (simp add: set_addr_def)
    show "bitmap_ok ?s' ?D" using bitmap_ok_alloc [OF D ok(1) 1(2)] addr_frame_ok(2) [OF fr] by simp
    show "file_ok ?s' (itable ?s' i) ?D"
      using file_ok_slot [OF D ok 1(2) j True] addr_frame_ok(4) [OF fr] it by simp
    show "length (alloc_tx (sb s) hs b) \<le> length hs + 2"
      using length_tx_add [of hs "BBLOCK b (sb s)"] length_tx_add [of "tx_add hs (BBLOCK b (sb s))" b] by (simp add: alloc_tx_def)
    show "nfree (sb s) D \<le> nfree (sb s) ?D + 1" using nfree_alloc [OF D ok(1) 1(2)] by simp
    have "owns (itable s i) D c" if "owns (itable ?s' i) ?D c" "claimed s D c" for c
      by (rule owns_grow [OF _ _ that(1) tk(1) [OF that(2)]]) (use fblock_slot [OF D ok 1(2) j True] it in auto)
    then show "\<forall>c. owns (itable ?s' i) ?D c \<longrightarrow> claimed s D c \<longrightarrow> owns (itable s i) D c" by blast
  qed (use tk fr in auto)
  show ?thesis
    by (rule that [OF A nw(3) _ G]) (use nw it 1(2) True fblock_slot [OF D ok 1(2) j True] in \<open>auto simp: claimed_def\<close>)
qed

text \<open>The second half of \<open>bmap\<close>: the entry of the indirect block, allocated on demand.\<close>

definition bmap_entry :: "nat \<Rightarrow> nat \<Rightarrow> u32 \<Rightarrow> ('a fs_state_scheme, u32) M" where
  "bmap_entry i k addr s =
     bindM (bread (ip_dev (itable s i)) addr) (\<lambda>bp s.
       let addr = get32 (b_data (bufs s bp)) (4 * k) in
       if addr = 0
       then bindM (balloc (ip_dev (itable s i))) (\<lambda>addr.
              thenM (whenM (addr \<noteq> 0)
                (thenM (modM (upd_buf bp (\<lambda>x. x\<lparr>b_data := put32 (b_data x) (4 * k) addr\<rparr>))) (log_write bp)))
             (thenM (brelse bp) (retM addr))) s
       else thenM (brelse bp) (retM addr) s) s"

lemma bmap_split:
  "bmap i bn s =
     (if unat bn < NDIRECT then addr_or_alloc i (unat bn) s
      else if unat bn - NDIRECT < NINDIRECT
      then bindM (addr_or_alloc i NDIRECT) (\<lambda>addr. if addr = 0 then retM 0 else bmap_entry i (unat bn - NDIRECT) addr) s
      else Panic ''bmap: out of range'')"
  unfolding bmap_def bmap_entry_def [abs_def] Let_def by simp

lemma bmap_entry_tx:
  fixes s :: "'a fs_state_scheme"
  assumes t: "tx s hs Map.empty D" and ok: "bitmap_ok s D" "file_ok s (itable s i) D" and dev: "ip_dev (itable s i) = log_dev s"
    and r: "room s hs 3" and n: "nfree (sb s) D \<ge> 1" and k: "NDIRECT \<le> k" "k < MAXFILE"
    and ind: "ind = ip_addrs (itable s i) NDIRECT" "ind \<noteq> 0"
  obtains a s' hs' D' where "bmap_entry i (k - NDIRECT) ind s = Ret a s'" and "a \<noteq> 0"
    and "grown i 1 3 s hs D s' hs' D'" and "fs_frame s s'"
    and "\<And>l. l < MAXFILE \<Longrightarrow> fblock (itable s i) D' l = (if l = k then a else fblock (itable s i) D l)"
    and "if fblock (itable s i) D k = 0 then D' a = replicate BSIZE 0 else a = fblock (itable s i) D k"
proof -
  let ?x = "sb s" and ?ip = "itable s i" and ?e = "4 * (k - NDIRECT)"
  note D = tx_length [OF t]
  have tind: "claimed s D ind" using ok(2) ind by (simp add: file_ok_def)
  obtain bp s1 where 1: "bread (log_dev s) ind s = Ret bp s1" "tx s1 hs [ind \<mapsto> bp] D" "fs_frame s s1" "b_data (bufs s1 bp) = D ind"
    by (rule tx_bread [OF t]) (use room_buffers [OF r] in auto)
  note f1 = fs_frameD [OF 1(3)]
  have fbk: "fblock ?ip D k = get32 (D ind) ?e" using k ind by (simp add: fblock_def)
  show ?thesis
  proof (cases "fblock ?ip D k = 0")
    case False
    obtain s2 where 2: "brelse bp s1 = Ret () s2" "tx s2 hs ([ind \<mapsto> bp](ind := None)) D" "fs_frame s1 s2"
      by (rule tx_brelse [OF 1(2), of ind bp]) simp
    have fr: "fs_frame s s2" using fs_frame_trans [OF 1(3) 2(3)] .
    have "bmap_entry i (k - NDIRECT) ind s = Ret (fblock ?ip D k) s2"
      using 1(1,4) 2(1) dev False fbk by (simp add: bmap_entry_def Let_def)
    moreover have "grown i 1 3 s hs D s2 hs D"
      using 2(2) ok bitmap_ok_frame [OF fr] file_ok_frame [OF fr] fs_frameD(1) [OF fr] fs_addr_frame [OF fr] by (simp add: grown_def)
    ultimately show ?thesis using that [of "fblock ?ip D k" s2 hs D] False fr by simp
  next
    case True
    obtain c where c: "free_block ?x D c" using n by (auto simp: nfree_def Suc_le_eq card_gt_0_iff)
    have ap: "apart (sb s1) D [ind \<mapsto> bp]" using tind f1 by (auto simp: apart_def claimed_def)
    have "bitmap_ok s1 D" "room s1 hs 2" using ok(1) r bitmap_ok_frame [OF 1(3)] room_frame [OF 1(3)] room_mono [of s hs 3 2] by simp_all
    then obtain b s2 where 2: "balloc (log_dev s) s1 = Ret b s2" "free_block ?x D b"
      "tx s2 (alloc_tx ?x hs b) [ind \<mapsto> bp] (alloc_data ?x D b)" "fs_frame s1 s2"
      using balloc_tx [OF 1(2) _ ap, of c] c r by (auto simp: f1 room_def)
    have fr2: "fs_frame s s2" using fs_frame_trans [OF 1(3) 2(4)] .
    note f2 = fs_frameD [OF fr2]
    note tk = alloc_claimed [OF D ok(1) 2(2)] and nw = alloc_claimed_new [OF D ok(1) 2(2)]
    note e = entry_facts [OF D ok 2(2) k(1,2), folded ind(1), OF ind(2) True]
    let ?D3 = "entry_data ?x D b ind k" and ?hs2 = "alloc_tx ?x hs b" and ?f = "\<lambda>d. put32 d ?e b"
    have len2: "length ?hs2 \<le> length hs + 2"
      using length_tx_add [of hs "BBLOCK b ?x"] length_tx_add [of "tx_add hs (BBLOCK b ?x)" b] by (simp add: alloc_tx_def)
    have r2: "room s2 ?hs2 1" using r len2 f2 by (auto simp: room_def)
    obtain s3 where 3: "log_write bp (upd_buf bp (\<lambda>x. x\<lparr>b_data := ?f (b_data x)\<rparr>) s2) = Ret () s3"
      "tx s3 (tx_add ?hs2 ind) [ind \<mapsto> bp] ?D3" "fs_frame s2 s3"
      by (rule tx_log [OF 2(3) _ r2, of ind bp ?f])
        (use tind f2 k D tk(2) [OF tind] in \<open>auto simp: entry_data_def claimed_def\<close>)
    obtain s4 where 4: "brelse bp s3 = Ret () s4" "tx s4 (tx_add ?hs2 ind) ([ind \<mapsto> bp](ind := None)) ?D3" "fs_frame s3 s4"
      by (rule tx_brelse [OF 3(2), of ind bp]) simp
    have fr: "fs_frame s s4" using fs_frame_trans [OF fs_frame_trans [OF fr2 3(3)] 4(3)] .
    have A: "bmap_entry i (k - NDIRECT) ind s = Ret b s4"
      using 1(1,4) 2(1) 3(1) 4(1) dev True fbk f1 nw(3) by (simp add: bmap_entry_def Let_def)
    have nf: "nfree ?x ?D3 = nfree ?x (alloc_data ?x D b)" unfolding nfree_def e(4) ..
    have G: "grown i 1 3 s hs D s4 (tx_add ?hs2 ind) ?D3"
      unfolding grown_def
    proof (intro conjI allI impI)
      show "tx s4 (tx_add ?hs2 ind) Map.empty ?D3" using 4(2) by simp
      show "bitmap_ok s4 ?D3" using bitmap_ok_alloc [OF D ok(1) 2(2)] bitmap_ok_frame [OF fr] e(4) by (simp add: bitmap_ok_def)
      show "file_ok s4 (itable s4 i) ?D3" using e(2) file_ok_frame [OF fr] fs_frameD(1) [OF fr] by simp
      show "length (tx_add ?hs2 ind) \<le> length hs + 3" using len2 length_tx_add [of ?hs2 ind] by simp
      show "nfree ?x D \<le> nfree ?x ?D3 + 1" using nfree_alloc [OF D ok(1) 2(2)] nf by simp
      show "claimed s ?D3 c" "c = 0 \<or> c \<noteq> ip_addrs ?ip NDIRECT \<Longrightarrow> ?D3 c = D c" if "claimed s D c" for c
        using tk [OF that] e(4) ind by (auto simp: claimed_def entry_data_def)
      show "owns ?ip D c" if "owns (itable s4 i) ?D3 c" "claimed s D c" for c
        by (rule owns_grow [OF _ _ that(1) tk(1) [OF that(2)]]) (use e(1) fs_frameD(1) [OF fr] in auto)
    qed (rule fs_addr_frame [OF fr])
    show ?thesis by (rule that [OF A nw(3) G fr]) (use e True in auto)
  qed
qed

section \<open>Bytes of a file\<close>

definition fbyte :: "inode \<Rightarrow> (u32 \<Rightarrow> u8 list) \<Rightarrow> nat \<Rightarrow> u8" where
  "fbyte ip D o' =
     (let b = fblock ip D (o' div BSIZE) in if b = 0 then 0 else D b ! (o' mod BSIZE))"

lemma fbyte_grown:
  assumes ok: "file_ok s ip D" and g: "grown i n m s hs D s' hs' D'" and ip: "ip = itable s i" and k: "l < MAXFILE"
    and fb: "fblock (itable s' i) D' l = (if l = k then a else fblock ip D l)"
    and old: "fblock ip D k \<noteq> 0 \<Longrightarrow> a = fblock ip D k"
    and new: "fblock ip D k = 0 \<Longrightarrow> D' a = replicate BSIZE 0" and o': "l = o' div BSIZE"
  shows "fbyte (itable s' i) D' o' = fbyte ip D o'"
proof (cases "fblock ip D l = 0")
  case True
  then show ?thesis using fb new o' by (auto simp: fbyte_def Let_def)
next
  case False
  then have "claimed s D (fblock ip D l)" "fblock ip D l \<noteq> ip_addrs ip NDIRECT" using ok k by (simp_all add: file_ok_def)
  then have "D' (fblock ip D l) = D (fblock ip D l)" using g ip by (simp add: grown_def)
  moreover have "fblock (itable s' i) D' l = fblock ip D l" using fb old False by auto
  ultimately show ?thesis using False o' by (simp add: fbyte_def Let_def)
qed

lemma bmap_tx:
  fixes s :: "'a fs_state_scheme"
  assumes t: "tx s hs Map.empty D" and ok: "bitmap_ok s D" "file_ok s (itable s i) D" and dev: "ip_dev (itable s i) = log_dev s"
    and r: "room s hs 5" and n: "nfree (sb s) D \<ge> 2" and k: "k < MAXFILE"
  obtains a s' hs' D' where "bmap i (of_nat k) s = Ret a s'" and "a \<noteq> 0" and "grown i 2 5 s hs D s' hs' D'"
    and "\<And>l. l < MAXFILE \<Longrightarrow> fblock (itable s' i) D' l = (if l = k then a else fblock (itable s i) D l)"
    and "\<And>o'. o' < MAXFILE * BSIZE \<Longrightarrow> fbyte (itable s' i) D' o' = fbyte (itable s i) D o'"
proof -
  have uk: "unat (of_nat k :: u32) = k" using k by (simp add: unat_of_nat take_bit_nat_eq_self)
  have div: "o' div BSIZE < MAXFILE" if "o' < MAXFILE * BSIZE" for o' :: nat using that by (simp add: less_mult_imp_div_less)
  note r2 = room_mono [OF r, of 2]
  show ?thesis
  proof (cases "k < NDIRECT")
    case True
    obtain a s' hs' D' where 1: "addr_or_alloc i k s = Ret a s'" "a \<noteq> 0" "ip_addrs (itable s' i) k = a" "grown i 1 2 s hs D s' hs' D'"
      "\<And>l. l < MAXFILE \<Longrightarrow> fblock (itable s' i) D' l = (if l = k \<and> k < NDIRECT then a else fblock (itable s i) D l)"
      "if ip_addrs (itable s i) k = 0 then D' a = replicate BSIZE 0 \<and> \<not> claimed s D a else a = ip_addrs (itable s i) k"
      by (rule addr_or_alloc_tx [OF t ok dev r2 _, of k]) (use n True in auto)
    have g: "grown i 2 5 s hs D s' hs' D'" using 1(4) by (simp add: grown_def)
    have fb: "fblock (itable s' i) D' l = (if l = k then a else fblock (itable s i) D l)" if "l < MAXFILE" for l
      using 1(5) [OF that] True by simp
    have old: "a = fblock (itable s i) D k" if "fblock (itable s i) D k \<noteq> 0" using that 1(6) True by (simp add: fblock_def)
    have new: "D' a = replicate BSIZE 0" if "fblock (itable s i) D k = 0" using that 1(6) True by (simp add: fblock_def)
    have "bmap i (of_nat k) s = Ret a s'" using 1(1) True uk by (simp add: bmap_def)
    then show ?thesis
      by (rule that [OF _ 1(2) g fb]) (use fbyte_grown [OF ok(2) g refl div fb old new refl] div in auto)
  next
    case False
    obtain c s1 hs1 D1 where 1: "addr_or_alloc i NDIRECT s = Ret c s1" "c \<noteq> 0" "ip_addrs (itable s1 i) NDIRECT = c" "grown i 1 2 s hs D s1 hs1 D1"
      "\<And>l. l < MAXFILE \<Longrightarrow> fblock (itable s1 i) D1 l = (if l = NDIRECT \<and> NDIRECT < NDIRECT then c else fblock (itable s i) D l)"
      "if ip_addrs (itable s i) NDIRECT = 0 then D1 c = replicate BSIZE 0 \<and> \<not> claimed s D c else c = ip_addrs (itable s i) NDIRECT"
      by (rule addr_or_alloc_tx [OF t ok dev r2 _ order_refl]) (use n in auto)
    note g1 = 1(4) [unfolded grown_def]
    then have fr1: "addr_frame i s s1" by simp
    note f1 = addr_frameD(2-) [OF fr1] addr_frame_inode [OF fr1]
    obtain a s' hs' D' where 2: "bmap_entry i (k - NDIRECT) c s1 = Ret a s'" "a \<noteq> 0" "grown i 1 3 s1 hs1 D1 s' hs' D'" "fs_frame s1 s'"
      "\<And>l. l < MAXFILE \<Longrightarrow> fblock (itable s1 i) D' l = (if l = k then a else fblock (itable s1 i) D1 l)"
      "if fblock (itable s1 i) D1 k = 0 then D' a = replicate BSIZE 0 else a = fblock (itable s1 i) D1 k"
      by (rule bmap_entry_tx [of s1 hs1 D1 i k c]) (use g1 f1 dev r n k False 1(2,3) in \<open>auto simp: room_def\<close>)
    note g2 = 2(3) [unfolded grown_def]
    note f2 = fs_frameD(1) [OF 2(4)]
    have fb: "fblock (itable s' i) D' l = (if l = k then a else fblock (itable s i) D l)" if "l < MAXFILE" for l
      using 1(5) [OF that] 2(5) [OF that] f2 by simp
    have old: "a = fblock (itable s i) D k" if "fblock (itable s i) D k \<noteq> 0" using that 2(6) 1(5) [OF k] by simp
    have new: "D' a = replicate BSIZE 0" if "fblock (itable s i) D k = 0" using that 2(6) 1(5) [OF k] by simp
    have keep: "claimed s D' x \<and> (x = 0 \<or> x \<noteq> ip_addrs (itable s i) NDIRECT \<longrightarrow> D' x = D x)" if "claimed s D x" for x
    proof -
      have "claimed s D1 x" using g1 that by simp
      then have "claimed s D' x" "x \<noteq> c \<Longrightarrow> D' x = D1 x" using g2 1(3) addr_frame_ok(1) [OF fr1] by auto
      then show ?thesis using 1(2,6) that g1 by metis
    qed
    have fr: "addr_frame i s s'" using addr_frame_trans [OF fr1 fs_addr_frame [OF 2(4)]] .
    have own: "owns (itable s i) D x" if "owns (itable s' i) D' x" "claimed s D x" for x
      using that g1 g2 addr_frame_ok(1) [OF fr1] by metis
    have g: "grown i 2 5 s hs D s' hs' D'" using g1 g2 f1 fr keep own by (simp add: grown_def)
    have "bmap i (of_nat k) s = Ret a s'" using 1(1,2) 2(1) False k uk by (simp add: bmap_split)
    then show ?thesis
      by (rule that [OF _ 2(2) g fb]) (use fbyte_grown [OF ok(2) g refl div fb old new refl] div in auto)
  qed
qed

end
