(* ===== verification/Fs_Write.thy ===== *)
theory Fs_Write
  imports Fs_File
begin

text \<open>
  Reading and writing files: \<open>readi\<close>, \<open>writei\<close> and \<open>iupdate\<close> of \<^verbatim>\<open>kernel/fs.c\<close> refine the
  operations on a file that is a list of bytes.
\<close>

section \<open>Writing one block\<close>

lemma file_ok_data:
  assumes ok: "file_ok s ip D" and k: "k < MAXFILE" and a: "a = fblock ip D k" "a \<noteq> 0"
  shows "fblock ip (D(a := v)) l = fblock ip D l" and "file_ok s ip (D(a := v))" and "owns ip (D(a := v)) c = owns ip D c"
    and "free_block (sb s) (D(a := v)) c = free_block (sb s) D c"
proof -
  have c: "claimed s D a" "a \<noteq> ip_addrs ip NDIRECT" using ok k a by (simp_all add: file_ok_def)
  show fb: "fblock ip (D(a := v)) l = fblock ip D l" for l using c by (auto simp: fblock_def)
  show "owns ip (D(a := v)) c = owns ip D c" by (simp add: owns_def fb)
  show "file_ok s ip (D(a := v))" using ok by (simp add: file_ok_def fb claimed_other [OF c(1)])
  show "free_block (sb s) (D(a := v)) c = free_block (sb s) D c" using c by (auto simp: claimed_def free_block_def)
qed

lemma block_range:
  fixes q :: nat
  assumes "o' = BSIZE * l + r" and "l \<noteq> k" and "q + n \<le> BSIZE" and "r < BSIZE"
  shows "\<not> (BSIZE * k + q \<le> o' \<and> o' < BSIZE * k + q + n)"
proof (cases "Suc l \<le> k")
  case True
  then show ?thesis using assms by linarith
next
  case False
  then have "Suc k \<le> l" using assms(2) by simp
  then show ?thesis using assms by linarith
qed

lemma fbyte_data:
  assumes ok: "file_ok s ip D" and k: "k < MAXFILE" "fblock ip D k \<noteq> 0" and D: "length (D (fblock ip D k)) = BSIZE"
    and q: "q + length v \<le> BSIZE" and o': "o' < MAXFILE * BSIZE"
  shows "fbyte ip (D(fblock ip D k := patch (D (fblock ip D k)) q v)) o' =
    (if BSIZE * k + q \<le> o' \<and> o' < BSIZE * k + q + length v then v ! (o' - (BSIZE * k + q)) else fbyte ip D o')"
proof -
  let ?a = "fblock ip D k" and ?l = "o' div BSIZE"
  note fb = file_ok_data(1) [OF ok k(1) refl k(2)]
  have l: "?l < MAXFILE" using o' by (simp add: less_mult_imp_div_less)
  have eq: "o' = BSIZE * ?l + o' mod BSIZE" by simp
  show ?thesis
  proof (cases "?l = k")
    case True
    then have "BSIZE * k + q \<le> o' \<and> o' < BSIZE * k + q + length v \<longleftrightarrow> q \<le> o' mod BSIZE \<and> o' mod BSIZE < q + length v"
      "o' - (BSIZE * k + q) = o' mod BSIZE - q" using eq by linarith+
    then show ?thesis using True k(2) D q by (simp add: fbyte_def Let_def fb nth_patch)
  next
    case False
    then have out: "\<not> (BSIZE * k + q \<le> o' \<and> o' < BSIZE * k + q + length v)"
      by (rule block_range [OF eq _ q]) simp_all
    have "fblock ip D ?l \<noteq> 0 \<Longrightarrow> fblock ip D ?l \<noteq> ?a" using False ok l k(1) by (auto simp: file_ok_def)
    then have "fbyte ip (D(?a := patch (D ?a) q v)) o' = fbyte ip D o'" by (auto simp: fbyte_def Let_def fb)
    then show ?thesis using out by auto
  qed
qed

definition written :: "nat \<Rightarrow> nat \<Rightarrow> 'a fs_state_scheme \<Rightarrow> u32 list \<Rightarrow> (u32 \<Rightarrow> u8 list) \<Rightarrow>
    'a fs_state_scheme \<Rightarrow> u32 list \<Rightarrow> (u32 \<Rightarrow> u8 list) \<Rightarrow> bool" where
  "written i nb s hs D s' hs' D' \<longleftrightarrow>
     tx s' hs' Map.empty D' \<and> bitmap_ok s' D' \<and> file_ok s' (itable s' i) D' \<and> addr_frame i s s' \<and>
     length hs' \<le> length hs + 6 * nb \<and> nfree (sb s) D \<le> nfree (sb s) D' + 2 * nb \<and>
     (\<forall>c. owns (itable s' i) D' c \<longrightarrow> claimed s D c \<longrightarrow> owns (itable s i) D c) \<and>
     (\<forall>c. claimed s D c \<longrightarrow> claimed s D' c \<and> (\<not> owns (itable s i) D c \<longrightarrow> D' c = D c)) \<and>
     (\<forall>k<MAXFILE. fblock (itable s i) D k \<noteq> 0 \<longrightarrow> fblock (itable s' i) D' k \<noteq> 0)"

lemma written_refl:
  "tx s hs Map.empty D \<Longrightarrow> bitmap_ok s D \<Longrightarrow> file_ok s (itable s i) D \<Longrightarrow> written i nb s hs D s hs D"
  by (simp add: written_def fs_addr_frame)

lemma written_trans:
  assumes 1: "written i m s hs D t gs E" and 2: "written i n t gs E u fs F"
  shows "written i (m + n) s hs D u fs F"
proof -
  note a = 1 [unfolded written_def] and b = 2 [unfolded written_def]
  have fr: "addr_frame i s t" "addr_frame i t u" using a b by simp_all
  note cl = addr_frame_ok(1) [OF fr(1)]
  have own: "owns (itable s i) D c" if "owns (itable u i) F c" "claimed s D c" for c
    using that a b cl by metis
  have keep: "claimed s F c \<and> (\<not> owns (itable s i) D c \<longrightarrow> F c = D c)" if "claimed s D c" for c
    using that a b cl by metis
  have "nfree (sb s) D \<le> nfree (sb s) F + 2 * (m + n)" using a b addr_frameD(2) [OF fr(1)] by simp
  then show ?thesis using a b own keep addr_frame_trans [OF fr] by (simp add: written_def)
qed

lemma grown_written:
  assumes ok: "file_ok s (itable s i) D" and g: "grown i 2 5 s hs D s' hs' D'"
    and fb: "\<And>l. l < MAXFILE \<Longrightarrow> fblock (itable s i) D l \<noteq> 0 \<Longrightarrow> fblock (itable s' i) D' l \<noteq> 0"
  shows "written i 1 s hs D s' hs' D'" and "length hs' \<le> length hs + 5"
proof -
  have "\<not> owns (itable s i) D c \<Longrightarrow> c = 0 \<or> c \<noteq> ip_addrs (itable s i) NDIRECT" for c by (auto simp: owns_def)
  then show "written i 1 s hs D s' hs' D'" using g fb by (auto simp: grown_def written_def)
  show "length hs' \<le> length hs + 5" using g by (simp add: grown_def)
qed

lemma written_data:
  fixes s :: "'a fs_state_scheme"
  assumes ok: "file_ok s (itable s i) D" and g: "grown i 2 5 s hs D s1 hs1 D1"
    and fb: "\<And>l. l < MAXFILE \<Longrightarrow> fblock (itable s i) D l \<noteq> 0 \<Longrightarrow> fblock (itable s1 i) D1 l \<noteq> 0"
    and k: "k < MAXFILE" "a = fblock (itable s1 i) D1 k" "a \<noteq> 0" and fr: "fs_frame s1 s4"
    and t: "tx s4 (tx_add hs1 a) Map.empty (D1(a := v))"
  shows "written i 1 s hs D s4 (tx_add hs1 a) (D1(a := v))"
proof -
  let ?D4 = "D1(a := v)"
  note w1 = grown_written [OF ok g fb]
  have ok1: "bitmap_ok s1 D1" "file_ok s1 (itable s1 i) D1" and fr1: "addr_frame i s s1" using g by (simp_all add: grown_def)
  note fd = file_ok_data [OF ok1(2) k] and it4 = fs_frameD(1) [OF fr] and cf = addr_frame_ok(1) [OF fr1]
  have "claimed s1 D1 a" using ok1(2) k by (simp add: file_ok_def)
  then have cl: "claimed s1 ?D4 c = claimed s1 D1 c" for c by (rule claimed_other)
  have oa: "owns (itable s1 i) D1 a" using k by (auto simp: owns_def)
  have keep: "claimed s ?D4 c \<and> (\<not> owns (itable s i) D c \<longrightarrow> ?D4 c = D c)" if "claimed s D c" for c
    using that w1(1) cl cf oa unfolding written_def by (metis fun_upd_other)
  show ?thesis
    unfolding written_def
  proof (intro conjI t)
    show "bitmap_ok s4 ?D4" using ok1(1) bitmap_ok_frame [OF fr] fd(4) by (simp add: bitmap_ok_def)
    show "file_ok s4 (itable s4 i) ?D4" using fd(2) file_ok_frame [OF fr] it4 by simp
    show "addr_frame i s s4" using addr_frame_trans [OF fr1 fs_addr_frame [OF fr]] .
    show "length (tx_add hs1 a) \<le> length hs + 6 * 1" using w1(2) length_tx_add [of hs1 a] by simp
    have "nfree (sb s) ?D4 = nfree (sb s) D1" using fd(4) addr_frameD(2) [OF fr1] by (simp add: nfree_def)
    then show "nfree (sb s) D \<le> nfree (sb s) ?D4 + 2 * 1" using w1(1) by (simp add: written_def)
    show "\<forall>c. owns (itable s4 i) ?D4 c \<longrightarrow> claimed s D c \<longrightarrow> owns (itable s i) D c" using w1(1) it4 fd(3) by (simp add: written_def)
    show "\<forall>k<MAXFILE. fblock (itable s i) D k \<noteq> 0 \<longrightarrow> fblock (itable s4 i) ?D4 k \<noteq> 0" using fb it4 fd(1) by simp
  qed (use keep in blast)
qed

lemma write_block_tx:
  fixes s :: "'a fs_state_scheme"
  assumes t: "tx s hs Map.empty D" and ok: "bitmap_ok s D" "file_ok s (itable s i) D" and dev: "ip_dev (itable s i) = log_dev s"
    and r: "room s hs 6" and n: "nfree (sb s) D \<ge> 2" and k: "k < MAXFILE" and q: "q + length v \<le> BSIZE"
  obtains a s1 bp s2 s3 s4 hs' D' where "bmap i (of_nat k) s = Ret a s1" and "a \<noteq> 0"
    and "bread (ip_dev (itable s1 i)) a s1 = Ret bp s2" and "mem s2 = mem s" and "myproc s2 = myproc s"
    and "log_write bp (upd_buf bp (\<lambda>x. x\<lparr>b_data := patch (b_data x) q v\<rparr>) s2) = Ret () s3" and "brelse bp s3 = Ret () s4"
    and "written i 1 s hs D s4 hs' D'" and "fblock (itable s4 i) D' k \<noteq> 0"
    and "\<And>o'. o' < MAXFILE * BSIZE \<Longrightarrow> fbyte (itable s4 i) D' o' =
      (if BSIZE * k + q \<le> o' \<and> o' < BSIZE * k + q + length v then v ! (o' - (BSIZE * k + q)) else fbyte (itable s i) D o')"
proof -
  obtain a s1 hs1 D1 where 1: "bmap i (of_nat k) s = Ret a s1" "a \<noteq> 0" "grown i 2 5 s hs D s1 hs1 D1"
    "\<And>l. l < MAXFILE \<Longrightarrow> fblock (itable s1 i) D1 l = (if l = k then a else fblock (itable s i) D l)"
    "\<And>o'. o' < MAXFILE * BSIZE \<Longrightarrow> fbyte (itable s1 i) D1 o' = fbyte (itable s i) D o'"
    by (rule bmap_tx [OF t ok dev room_mono [OF r] n k]) auto
  have fb1: "fblock (itable s1 i) D1 l \<noteq> 0" if "l < MAXFILE" "fblock (itable s i) D l \<noteq> 0" for l using 1(4) [OF that(1)] that(2) 1(2) by simp
  note len1 = grown_written(2) [OF ok(2) 1(3) fb1] and g1 = 1(3) [unfolded grown_def]
  have t1: "tx s1 hs1 Map.empty D1" and ok1: "bitmap_ok s1 D1" "file_ok s1 (itable s1 i) D1" and fr1: "addr_frame i s s1"
    using g1 by simp_all
  note f1 = addr_frameD(2-) [OF fr1] addr_frame_inode [OF fr1]
  have a: "a = fblock (itable s1 i) D1 k" using 1(4) [OF k] by simp
  have ca: "claimed s1 D1 a" using ok1(2) a 1(2) k by (simp add: file_ok_def)
  have r1: "room s1 hs1 1" using r len1 f1 by (auto simp: room_def)
  obtain bp s2 where 2: "bread (log_dev s1) a s1 = Ret bp s2" "tx s2 hs1 [a \<mapsto> bp] D1" "fs_frame s1 s2"
    by (rule tx_bread [OF t1]) (use room_buffers [OF r1] in auto)
  note f2 = fs_frameD [OF 2(3)]
  let ?f = "\<lambda>d. patch d q v"
  obtain s3 where 3: "log_write bp (upd_buf bp (\<lambda>x. x\<lparr>b_data := ?f (b_data x)\<rparr>) s2) = Ret () s3"
    "tx s3 (tx_add hs1 a) [a \<mapsto> bp] (D1(a := ?f (D1 a)))" "fs_frame s2 s3"
    by (rule tx_log [OF 2(2), of a bp ?f])
      (use r1 room_frame [OF 2(3)] ca f2 q tx_length [OF t1] in \<open>auto simp: claimed_def\<close>)
  obtain s4 where 4: "brelse bp s3 = Ret () s4" "tx s4 (tx_add hs1 a) ([a \<mapsto> bp](a := None)) (D1(a := ?f (D1 a)))" "fs_frame s3 s4"
    by (rule tx_brelse [OF 3(2), of a bp]) simp
  let ?D4 = "D1(a := ?f (D1 a))"
  have fr: "fs_frame s1 s4" using fs_frame_trans [OF fs_frame_trans [OF 2(3) 3(3)] 4(3)] .
  note it4 = fs_frameD(1) [OF fr]
  have W: "written i 1 s hs D s4 (tx_add hs1 a) ?D4"
    by (rule written_data [OF ok(2) 1(3) fb1 k a 1(2) fr]) (use 4(2) in auto)
  show ?thesis
  proof (rule that [OF 1(1,2) _ _ _ 3(1) 4(1) W])
    show "bread (ip_dev (itable s1 i)) a s1 = Ret bp s2" using 2(1) dev f1 by simp
    show "fblock (itable s4 i) ?D4 k \<noteq> 0" using 1(2) it4 file_ok_data(1) [OF ok1(2) k a 1(2)] a by simp
    show "fbyte (itable s4 i) ?D4 o' = (if BSIZE * k + q \<le> o' \<and> o' < BSIZE * k + q + length v then v ! (o' - (BSIZE * k + q))
        else fbyte (itable s i) D o')" if "o' < MAXFILE * BSIZE" for o'
      using fbyte_data [OF ok1(2) k _ _ q that] 1(2,5) a tx_length [OF t1] it4 that by metis
  qed (use f1 f2 in auto)
qed

section \<open>The loop of \<open>writei\<close>\<close>

text \<open>
  The source supplies the bytes \<open>bs\<close>: each piece of it is copied without an error, whatever the
  file system does meanwhile.
\<close>

definition supplies :: "'a fs_state_scheme \<Rightarrow> src \<Rightarrow> u8 list \<Rightarrow> bool" where
  "supplies s src bs \<longleftrightarrow>
     (\<forall>k m t. k + m \<le> length bs \<longrightarrow> mem t = mem s \<longrightarrow> myproc t = myproc s \<longrightarrow>
        either_copyin (src_plus src k) m (t :: 'a fs_state_scheme) = Ret (0, take m (drop k bs)) t)"

lemma supplies_local: "supplies s (Local_src bs) bs"
  by (simp add: supplies_def)

lemma supplies_kernel: "supplies s (Kernel_src a) (load_bytes (mem s) a n)"
  by (auto simp: supplies_def load_bytes_def take_map drop_map drop_upt take_upt add.assoc intro!: map_cong nth_equalityI)

lemma src_plus_plus [simp]: "src_plus (src_plus src k) m = src_plus src (k + m)"
  by (cases src) (simp_all add: add.assoc add.commute)

lemma src_plus_0 [simp]: "src_plus src 0 = src"
  by (cases src) simp_all

lemma div_block: "j < BSIZE \<Longrightarrow> (BSIZE * k + j) div BSIZE = k" for k j :: nat
  by simp

text \<open>The number of blocks that \<open>n\<close> bytes at \<open>off\<close> touch.\<close>

definition nblk :: "nat \<Rightarrow> nat \<Rightarrow> nat" where
  "nblk off n = (off + n + (BSIZE - 1)) div BSIZE - off div BSIZE"

lemma nblk_step:
  assumes "0 < n" and "m = min n (BSIZE - off mod BSIZE)"
  shows "nblk off n = Suc (if m < n then nblk (off + m) (n - m) else 0)"
proof -
  define l r where "l = off div BSIZE" and "r = off mod BSIZE"
  have off: "off = BSIZE * l + r" "r < BSIZE" by (simp_all add: l_def r_def)
  have m: "m = min n (BSIZE - r)" using assms(2) by (simp add: r_def)
  have nb: "nblk off n = (off + n + (BSIZE - 1)) div BSIZE - l" by (simp add: nblk_def l_def)
  show ?thesis
  proof (cases "m < n")
    case True
    then have e: "off + m = BSIZE * Suc l + 0" using m off by simp
    have "BSIZE * Suc l + 0 \<le> off + n + (BSIZE - 1)" using e True by simp
    then have "Suc l \<le> (off + n + (BSIZE - 1)) div BSIZE" using div_le_mono div_block [of 0 "Suc l"] by (metis zero_less_numeral)
    moreover have "nblk (off + m) (n - m) = (off + n + (BSIZE - 1)) div BSIZE - Suc l"
      using True div_block [of 0 "Suc l"] e by (simp add: nblk_def)
    ultimately have "nblk off n = Suc (nblk (off + m) (n - m))" using nb by linarith
    then show ?thesis using True by simp
  next
    case False
    then have e: "off + n + (BSIZE - 1) = BSIZE * Suc l + (r + n - 1)" "r + n - 1 < BSIZE" using m off assms(1) by auto
    have "(off + n + (BSIZE - 1)) div BSIZE = Suc l" unfolding e(1) by (rule div_block [OF e(2)])
    then show ?thesis using False nb by simp
  qed
qed

lemma writei_loop_step:
  fixes s :: "'a fs_state_scheme"
  assumes "tot < n" and "m = min (n - tot) (BSIZE - off mod BSIZE)"
    and "bmap i (of_nat (off div BSIZE)) s = Ret a s1" and "a \<noteq> 0" and "bread (ip_dev (itable s1 i)) a s1 = Ret bp s2"
    and "either_copyin src m s2 = Ret (0, v) s2"
    and "log_write bp (upd_buf bp (\<lambda>x. x\<lparr>b_data := patch (b_data x) (off mod BSIZE) v\<rparr>) s2) = Ret () s3" and "brelse bp s3 = Ret () s4"
  shows "writei_loop i src off tot n s = writei_loop i (src_plus src m) (off + m) (tot + m) n s4"
  using assms by (subst writei_loop.simps) (simp add: Let_def)

text \<open>The bytes \<open>v\<close> are put at \<open>off\<close>, and nothing else in the file changes.\<close>

definition bytes_put :: "inode \<Rightarrow> (u32 \<Rightarrow> u8 list) \<Rightarrow> nat \<Rightarrow> u8 list \<Rightarrow> inode \<Rightarrow> (u32 \<Rightarrow> u8 list) \<Rightarrow> bool" where
  "bytes_put ip D off v ip' D' \<longleftrightarrow>
     (\<forall>o' < MAXFILE * BSIZE. fbyte ip' D' o' =
        (if off \<le> o' \<and> o' < off + length v then v ! (o' - off) else fbyte ip D o'))"

lemma bytes_put_trans:
  assumes 1: "bytes_put ip D off (take m v) ip1 D1" and 2: "bytes_put ip1 D1 (off + m) (drop m v) ip2 D2" and m: "m \<le> length v"
  shows "bytes_put ip D off v ip2 D2"
  unfolding bytes_put_def
proof (intro allI impI)
  fix o' :: nat assume o': "o' < MAXFILE * BSIZE"
  have "drop m v ! (o' - (off + m)) = v ! (o' - off)" if "off + m \<le> o'" "o' < off + length v" using that m by simp
  moreover have "take m v ! (o' - off) = v ! (o' - off)" if "off \<le> o'" "o' < off + m" using that m by simp
  ultimately show "fbyte ip2 D2 o' = (if off \<le> o' \<and> o' < off + length v then v ! (o' - off) else fbyte ip D o')"
    using 1 2 o' m by (auto simp: bytes_put_def)
qed

definition mapped :: "inode \<Rightarrow> (u32 \<Rightarrow> u8 list) \<Rightarrow> nat \<Rightarrow> nat \<Rightarrow> bool" where
  "mapped ip D lo hi \<longleftrightarrow> (\<forall>o'. lo \<le> o' \<and> o' < hi \<longrightarrow> fblock ip D (o' div BSIZE) \<noteq> 0)"

lemma mapped_written:
  assumes "mapped (itable s i) D lo hi" and "written i n s hs D s' hs' D'" and "hi \<le> MAXFILE * BSIZE"
  shows "mapped (itable s' i) D' lo hi"
proof -
  have "o' div BSIZE < MAXFILE" if "o' < hi" for o' using that assms(3) by (simp add: less_mult_imp_div_less)
  then show ?thesis using assms(1,2) by (simp add: mapped_def written_def)
qed

lemma mapped_append: "mapped ip D a b \<Longrightarrow> mapped ip D b c \<Longrightarrow> mapped ip D a c"
  by (auto simp: mapped_def) (metis not_le)

lemma mapped_block:
  assumes "fblock ip D (off div BSIZE) \<noteq> 0" and "off mod BSIZE + m \<le> BSIZE"
  shows "mapped ip D off (off + m)"
proof -
  have "o' div BSIZE = off div BSIZE" if "off \<le> o'" "o' < off + m" for o'
  proof -
    have e: "BSIZE * (off div BSIZE) + (off mod BSIZE + (o' - off)) = o'" using that(1) by simp
    have "off mod BSIZE + (o' - off) < BSIZE" using that assms(2) by linarith
    from div_block [OF this, of "off div BSIZE"] show ?thesis unfolding e .
  qed
  then show ?thesis using assms(1) unfolding mapped_def by metis
qed

lemma supplies_same: "supplies s src bs \<Longrightarrow> mem t = mem s \<Longrightarrow> myproc t = myproc s \<Longrightarrow> supplies t src bs"
  for s t :: "'a fs_state_scheme"
  unfolding supplies_def by simp

lemma writei_loop_tx:
  fixes s :: "'a fs_state_scheme"
  assumes "tx s hs Map.empty D" and "bitmap_ok s D" "file_ok s (itable s i) D" and "ip_dev (itable s i) = log_dev s"
    and "room s hs (6 * nblk off (n - tot))" and "nfree (sb s) D \<ge> 2 * nblk off (n - tot)"
    and "off + (n - tot) \<le> MAXFILE * BSIZE" and "tot \<le> n" and "n = length bs" and "supplies s src bs"
  shows "\<exists>s' hs' D'. writei_loop i (src_plus src tot) off tot n s = Ret (n, off + (n - tot)) s' \<and>
    written i (nblk off (n - tot)) s hs D s' hs' D' \<and>
    bytes_put (itable s i) D off (drop tot bs) (itable s' i) D' \<and> mapped (itable s' i) D' off (off + (n - tot))"
  using assms
proof (induction "n - tot" arbitrary: s hs D off tot rule: less_induct)
  case less
  note t = less.prems(1) and ok = less.prems(2,3) and sup = less.prems(10)
  show ?case
  proof (cases "tot < n")
    case False
    then show ?thesis using less.prems written_refl [OF t ok]
      by (intro exI [of _ s] exI [of _ hs] exI [of _ D]) (auto simp: writei_loop.simps bytes_put_def mapped_def)
  next
    case True
    define m where "m = min (n - tot) (BSIZE - off mod BSIZE)"
    let ?k = "off div BSIZE" and ?q = "off mod BSIZE" and ?v = "take m (drop tot bs)" and ?ip = "itable s i"
    have m: "0 < m" "m \<le> n - tot" "?q + m \<le> BSIZE" using True by (simp_all add: m_def)
    have v: "length ?v = m" "m \<le> length (drop tot bs)" using m less.prems(9) by simp_all
    have k: "?k < MAXFILE" using less.prems(7) True by (simp add: less_mult_imp_div_less)
    have nb: "nblk off (n - tot) = Suc (if m < n - tot then nblk (off + m) (n - (tot + m)) else 0)"
      using nblk_step [of "n - tot" m off] True m_def by simp
    have r6: "room s hs 6" and n2: "nfree (sb s) D \<ge> 2" using less.prems(5,6) nb by (auto simp: room_def)
    obtain a s1 bp s2 s3 s4 hs4 D4 where 1: "bmap i (of_nat ?k) s = Ret a s1" "a \<noteq> 0"
      "bread (ip_dev (itable s1 i)) a s1 = Ret bp s2" "mem s2 = mem s" "myproc s2 = myproc s"
      "log_write bp (upd_buf bp (\<lambda>x. x\<lparr>b_data := patch (b_data x) ?q ?v\<rparr>) s2) = Ret () s3" "brelse bp s3 = Ret () s4"
      and w: "written i 1 s hs D s4 hs4 D4" and fb4: "fblock (itable s4 i) D4 ?k \<noteq> 0"
      and by4: "\<And>o'. o' < MAXFILE * BSIZE \<Longrightarrow> fbyte (itable s4 i) D4 o' =
        (if BSIZE * ?k + ?q \<le> o' \<and> o' < BSIZE * ?k + ?q + length ?v then ?v ! (o' - (BSIZE * ?k + ?q)) else fbyte ?ip D o')"
      by (rule write_block_tx [OF t ok less.prems(4) r6 n2 k, of ?q ?v]) (use v m in auto)
    have put: "bytes_put ?ip D off ?v (itable s4 i) D4" using by4 by (simp add: bytes_put_def)
    have map4: "mapped (itable s4 i) D4 off (off + m)" by (rule mapped_block [OF fb4 m(3)])
    have "either_copyin (src_plus src tot) m s2 = Ret (0, ?v) s2"
      using sup 1(4,5) m(2) less.prems(9) True unfolding supplies_def by simp
    note step = writei_loop_step [OF True m_def 1(1-3) this 1(6,7), unfolded src_plus_plus]
    show ?thesis
    proof (cases "m < n - tot")
      case False
      then have e: "m = n - tot" "?v = drop tot bs" using m v less.prems(9) by simp_all
      then have "writei_loop i (src_plus src tot) off tot n s = Ret (n, off + (n - tot)) s4"
        using step True by (simp add: writei_loop.simps)
      then show ?thesis using w put map4 e nb False by (intro exI [of _ s4] exI [of _ hs4] exI [of _ D4]) simp
    next
      case more: True
      have fr: "addr_frame i s s4" and t4: "tx s4 hs4 Map.empty D4" "bitmap_ok s4 D4" "file_ok s4 (itable s4 i) D4"
        and len: "length hs4 \<le> length hs + 6" and nf: "nfree (sb s) D \<le> nfree (sb s) D4 + 2" using w by (simp_all add: written_def)
      note f = addr_frameD(2-) [OF fr] addr_frame_inode [OF fr]
      have e: "off + (n - tot) = off + m + (n - (tot + m))" using m by simp
      have rm: "room s4 hs4 (6 * nblk (off + m) (n - (tot + m)))" "nfree (sb s4) D4 \<ge> 2 * nblk (off + m) (n - (tot + m))"
        using less.prems(5,6) nb more len nf f(1,6-8) by (simp_all add: room_def)
      have lt: "n - (tot + m) < n - tot" "tot + m \<le> n" "off + m + (n - (tot + m)) \<le> MAXFILE * BSIZE" "ip_dev (itable s4 i) = log_dev s4"
        using m more less.prems(4,7) f(5,11) by simp_all
      obtain s' hs' D' where s': "writei_loop i (src_plus src (tot + m)) (off + m) (tot + m) n s4 = Ret (n, off + m + (n - (tot + m))) s'"
        "written i (nblk (off + m) (n - (tot + m))) s4 hs4 D4 s' hs' D'"
        "bytes_put (itable s4 i) D4 (off + m) (drop (tot + m) bs) (itable s' i) D'" "mapped (itable s' i) D' (off + m) (off + m + (n - (tot + m)))"
        using less.hyps [OF lt(1) t4 lt(4) rm lt(3,2) less.prems(9) supplies_same [OF sup f(4,2)]] by blast
      have "bytes_put ?ip D off (drop tot bs) (itable s' i) D'"
        by (rule bytes_put_trans [OF put _ v(2)]) (use s'(3) in \<open>simp add: add.commute\<close>)
      moreover have "mapped (itable s' i) D' off (off + (n - tot))"
        unfolding e by (rule mapped_append [OF mapped_written [OF map4 s'(2)] s'(4)]) (use less.prems(7) m in simp)
      moreover have "written i (nblk off (n - tot)) s hs D s' hs' D'" using written_trans [OF w s'(2)] nb more by simp
      moreover have "writei_loop i (src_plus src tot) off tot n s = Ret (n, off + (n - tot)) s'" unfolding step s'(1) e ..
      ultimately show ?thesis by blast
    qed
  qed
qed

end
