(* ===== verification/File_Contents.thy ===== *)
theory File_Contents
  imports Fs_Write
begin

text \<open>
  A file of \<^verbatim>\<open>kernel/fs.c\<close> as the list of its bytes: \<open>readi\<close> returns a part of the list, \<open>writei\<close>
  replaces a part and may extend it, and a write in a transaction of its own is on the disk when
  \<open>end_op\<close> returns. Inodes survive the round trip through their block.
\<close>

section \<open>Inodes in their block\<close>

definition norm_dinode :: "dinode \<Rightarrow> dinode" where
  "norm_dinode di = di\<lparr>di_addrs := (\<lambda>i. if i \<le> NDIRECT then di_addrs di i else 0)\<rparr>"

definition put_addrs :: "dinode \<Rightarrow> nat \<Rightarrow> nat \<Rightarrow> u8 list \<Rightarrow> u8 list" where
  "put_addrs di o' n d = fold (\<lambda>i d. put32 d (o' + 12 + 4 * i) (di_addrs di i)) [0..<n] d"

lemma put_addrs_0 [simp]: "put_addrs di o' 0 d = d"
  by (simp add: put_addrs_def)

lemma put_addrs_Suc [simp]: "put_addrs di o' (Suc n) d = put32 (put_addrs di o' n d) (o' + 12 + 4 * n) (di_addrs di n)"
  by (simp add: put_addrs_def)

lemma length_put_addrs [simp]: "o' + 12 + 4 * n \<le> length d \<Longrightarrow> length (put_addrs di o' n d) = length d"
  by (induction n) simp_all

lemma get_put_addrs:
  assumes "o' + 12 + 4 * n \<le> length d" and "i < n"
  shows "get32 (put_addrs di o' n d) (o' + 12 + 4 * i) = di_addrs di i"
  using assms by (induction n) (auto simp: less_Suc_eq)

lemma put_addrs_other:
  assumes "o' + 12 + 4 * n \<le> length d"
  shows "x + 4 \<le> o' + 12 \<or> o' + 12 + 4 * n \<le> x \<Longrightarrow> get32 (put_addrs di o' n d) x = get32 d x"
    and "x + 2 \<le> o' + 12 \<or> o' + 12 + 4 * n \<le> x \<Longrightarrow> get16 (put_addrs di o' n d) x = get16 d x"
  using assms by (induction n) auto

lemma put_dinode_alt:
  "put_dinode di o' d = put_addrs di o' 13 (put32 (put16 (put16 (put16 (put16 d o' (di_type di))
     (o' + 2) (di_major di)) (o' + 4) (di_minor di)) (o' + 6) (di_nlink di)) (o' + 8) (di_size di))"
  by (simp add: put_dinode_def put_addrs_def Let_def)

lemma length_put_dinode [simp]: "o' + 64 \<le> length d \<Longrightarrow> length (put_dinode di o' d) = length d"
  by (simp add: put_dinode_alt)

lemma get_put_dinode:
  assumes "o' + 64 \<le> length d"
  shows "get_dinode (put_dinode di o' d) o' = norm_dinode di"
  using assms by (simp add: get_dinode_def put_dinode_alt norm_dinode_def put_addrs_other get_put_addrs cong: if_cong)

lemma get_put_dinode_other:
  assumes "o' + 64 \<le> length d" and "x + 64 \<le> length d" and "x + 64 \<le> o' \<or> o' + 64 \<le> x"
  shows "get_dinode (put_dinode di o' d) x = get_dinode d x"
  using assms(3)
proof
  assume "x + 64 \<le> o'"
  then show ?thesis using assms(1,2) by (auto simp: get_dinode_def put_dinode_alt put_addrs_other fun_eq_iff)
next
  assume "o' + 64 \<le> x"
  then show ?thesis using assms(1,2) by (auto simp: get_dinode_def put_dinode_alt put_addrs_other fun_eq_iff)
qed

lemma dinode_off_bound: "dinode_off inum + 64 \<le> BSIZE"
proof -
  have "unat inum mod 16 < 16" by simp
  then show ?thesis by (simp add: dinode_off_def)
qed

lemma iupdate_tx:
  fixes s :: "'a fs_state_scheme"
  assumes t: "tx s hs Map.empty D" and dev: "ip_dev (itable s i) = log_dev s" and r: "room s hs 1"
    and ib: "ib = IBLOCK (ip_inum (itable s i)) (sb s)" "ib \<notin> log_area (log_start s) (log_len s)"
  defines "D' \<equiv> D(ib := put_dinode (dinode_of (itable s i)) (dinode_off (ip_inum (itable s i))) (D ib))"
  obtains s' where "iupdate i s = Ret () s'" and "tx s' (tx_add hs ib) Map.empty D'" and "fs_frame s s'"
proof -
  let ?f = "put_dinode (dinode_of (itable s i)) (dinode_off (ip_inum (itable s i)))"
  obtain b s1 where 1: "bread (log_dev s) ib s = Ret b s1" "tx s1 hs [ib \<mapsto> b] D" "fs_frame s s1"
    by (rule tx_bread [OF t]) (use room_buffers [OF r] in auto)
  obtain s2 where 2: "log_write b (upd_buf b (\<lambda>x. x\<lparr>b_data := ?f (b_data x)\<rparr>) s1) = Ret () s2"
    "tx s2 (tx_add hs ib) [ib \<mapsto> b] D'" "fs_frame s1 s2"
    by (rule tx_log [OF 1(2), of ib b ?f])
      (use ib(2) r room_frame [OF 1(3)] fs_frameD [OF 1(3)] tx_length [OF t] dinode_off_bound in \<open>auto simp: D'_def\<close>)
  obtain s3 where 3: "brelse b s2 = Ret () s3" "tx s3 (tx_add hs ib) ([ib \<mapsto> b](ib := None)) D'" "fs_frame s2 s3"
    by (rule tx_brelse [OF 2(2), of ib b]) simp
  have "iupdate i s = Ret () s3" using 1(1) 2(1) 3(1) dev ib(1) by (simp add: iupdate_def Let_def)
  then show ?thesis using that 3(2) fs_frame_trans [OF fs_frame_trans [OF 1(3) 2(3)] 3(3)] by simp
qed

section \<open>Files as lists of bytes\<close>

definition contents :: "inode \<Rightarrow> (u32 \<Rightarrow> u8 list) \<Rightarrow> u8 list" where
  "contents ip D = map (fbyte ip D) [0..<unat (ip_size ip)]"

text \<open>The write of the abstract file: the new bytes replace those at \<open>off\<close> or extend the file.\<close>

definition overwrite :: "u8 list \<Rightarrow> nat \<Rightarrow> u8 list \<Rightarrow> u8 list" where
  "overwrite c off bs = take off c @ bs @ drop (off + length bs) c"

lemma length_contents [simp]: "length (contents ip D) = unat (ip_size ip)"
  by (simp add: contents_def)

lemma fblock_size [simp]: "fblock (ip\<lparr>ip_size := n\<rparr>) D = fblock ip D"
  by (simp add: fblock_def fun_eq_iff)

lemma fbyte_size [simp]: "fbyte (ip\<lparr>ip_size := n\<rparr>) D = fbyte ip D"
  by (simp add: fbyte_def fun_eq_iff)

lemma file_ok_size [simp]: "file_ok s (ip\<lparr>ip_size := n\<rparr>) D = file_ok s ip D"
  by (simp add: file_ok_def)

lemma owns_size [simp]: "owns (ip\<lparr>ip_size := n\<rparr>) D = owns ip D"
  by (simp add: owns_def fun_eq_iff)

lemma mapped_size [simp]: "mapped (ip\<lparr>ip_size := n\<rparr>) D = mapped ip D"
  by (simp add: mapped_def fun_eq_iff)

lemma contents_put:
  assumes p: "bytes_put ip D off bs ip' D'" and off: "off \<le> unat (ip_size ip)"
    and n: "unat (ip_size ip') = max (unat (ip_size ip)) (off + length bs)" "unat (ip_size ip') \<le> MAXFILE * BSIZE"
  shows "contents ip' D' = overwrite (contents ip D) off bs"
proof (rule nth_equalityI)
  show len: "length (contents ip' D') = length (overwrite (contents ip D) off bs)"
    using off n(1) by (simp add: overwrite_def)
  fix k assume "k < length (contents ip' D')"
  then have k: "k < unat (ip_size ip')" by simp
  then have "contents ip' D' ! k = (if off \<le> k \<and> k < off + length bs then bs ! (k - off) else fbyte ip D k)"
    using p n(2) by (simp add: contents_def bytes_put_def)
  also have "\<dots> = overwrite (contents ip D) off bs ! k"
    using k n off by (auto simp: overwrite_def contents_def nth_append)
  finally show "contents ip' D' ! k = overwrite (contents ip D) off bs ! k" .
qed

text \<open>A file without holes: every block below its size is allocated.\<close>

definition no_holes :: "inode \<Rightarrow> (u32 \<Rightarrow> u8 list) \<Rightarrow> bool" where
  "no_holes ip D \<longleftrightarrow> unat (ip_size ip) \<le> MAXFILE * BSIZE \<and> mapped ip D 0 (unat (ip_size ip))"

definition file_in :: "'a fs_state_scheme \<Rightarrow> nat \<Rightarrow> (u32 \<Rightarrow> u8 list) \<Rightarrow> bool" where
  "file_in s i D \<longleftrightarrow>
     bitmap_ok s D \<and> file_ok s (itable s i) D \<and> no_holes (itable s i) D \<and> ip_dev (itable s i) = log_dev s"

text \<open>The block of the inode.\<close>

definition iblock :: "'a fs_state_scheme \<Rightarrow> nat \<Rightarrow> u32" where
  "iblock s i = IBLOCK (ip_inum (itable s i)) (sb s)"

text \<open>Writing the block of the inode changes nothing in the file.\<close>

lemma inode_block_data:
  assumes ok: "file_ok s ip D" and ib: "ib = IBLOCK (ip_inum ip) (sb s)"
  shows "l < MAXFILE \<Longrightarrow> fblock ip (D(ib := v)) l = fblock ip D l" and "file_ok s ip (D(ib := v))"
    and "o' < MAXFILE * BSIZE \<Longrightarrow> fbyte ip (D(ib := v)) o' = fbyte ip D o'"
    and "free_block (sb s) (D(ib := v)) c = free_block (sb s) D c" and "owns ip (D(ib := v)) c = owns ip D c"
proof -
  have c: "claimed s D ib" and ind: "ip_addrs ip NDIRECT \<noteq> 0 \<Longrightarrow> ip_addrs ip NDIRECT \<noteq> ib" using ok ib by (auto simp: file_ok_def)
  show fb: "fblock ip (D(ib := v)) l = fblock ip D l" for l using ind by (auto simp: fblock_def)
  show "file_ok s ip (D(ib := v))" using ok by (simp add: file_ok_def fb claimed_other [OF c])
  show "free_block (sb s) (D(ib := v)) c = free_block (sb s) D c" using c by (auto simp: claimed_def free_block_def)
  show "owns ip (D(ib := v)) c = owns ip D c" by (simp add: owns_def fb)
  show "fbyte ip (D(ib := v)) o' = fbyte ip D o'" if "o' < MAXFILE * BSIZE"
  proof -
    have "o' div BSIZE < MAXFILE" using that by (simp add: less_mult_imp_div_less)
    then have "fblock ip D (o' div BSIZE) \<noteq> 0 \<Longrightarrow> fblock ip D (o' div BSIZE) \<noteq> ib" using ok ib by (simp add: file_ok_def)
    then show ?thesis by (auto simp: fbyte_def fb Let_def)
  qed
qed

text \<open>What \<open>writei\<close> leaves behind in the transaction.\<close>

definition file_written :: "nat \<Rightarrow> nat \<Rightarrow> u8 list \<Rightarrow> 'a fs_state_scheme \<Rightarrow> (u32 \<Rightarrow> u8 list) \<Rightarrow>
    'a fs_state_scheme \<Rightarrow> (u32 \<Rightarrow> u8 list) \<Rightarrow> bool" where
  "file_written i off bs s D s' D' \<longleftrightarrow>
     contents (itable s' i) D' = overwrite (contents (itable s i) D) off bs \<and>
     get_dinode (D' (iblock s i)) (dinode_off (ip_inum (itable s i))) = norm_dinode (dinode_of (itable s' i)) \<and>
     (\<forall>c. claimed s D c \<longrightarrow> \<not> owns (itable s i) D c \<longrightarrow> c \<noteq> iblock s i \<longrightarrow> D' c = D c)"

text \<open>The end of \<open>writei\<close>: the size grows and the inode goes to its block.\<close>

lemma writei_finish:
  fixes s :: "'a fs_state_scheme"
  assumes ok: "file_ok s (itable s i) D" and off: "off \<le> unat (ip_size (itable s i))" and dev: "ip_dev (itable s i) = log_dev s"
    and fit: "off + length bs \<le> MAXFILE * BSIZE" and nh: "no_holes (itable s i) D" and r: "room s1 hs1 1"
    and w: "written i nb s hs D s1 hs1 D1" and put: "bytes_put (itable s i) D off bs (itable s1 i) D1"
    and map: "mapped (itable s1 i) D1 off (off + length bs)"
    and s2: "s2 = upd_inode i (\<lambda>x. if off + length bs > unat (ip_size x) then x\<lparr>ip_size := of_nat (off + length bs)\<rparr> else x) s1"
  obtains s' D' where "iupdate i s2 = Ret () s'" and "tx s' (tx_add hs1 (iblock s i)) Map.empty D'" and "file_in s' i D'"
    and "file_written i off bs s D s' D'" and "fs_frame s2 s'"
    and "itable s2 = (itable s)(i := (itable s i)\<lparr>ip_addrs := ip_addrs (itable s2 i), ip_size := ip_size (itable s2 i)\<rparr>)"
proof -
  let ?ip = "itable s i" and ?ib = "iblock s i" and ?n = "length bs" and ?o = "dinode_off (ip_inum (itable s i))"
  define sz where "sz = max (unat (ip_size ?ip)) (off + ?n)"
  have t1: "tx s1 hs1 Map.empty D1" and ok1: "bitmap_ok s1 D1" "file_ok s1 (itable s1 i) D1" and fr1: "addr_frame i s s1"
    using w by (simp_all add: written_def)
  note f1 = addr_frameD(2-) [OF fr1] addr_frame_inode [OF fr1]
  have it2: "itable s2 = (itable s1)(i := (itable s1 i)\<lparr>ip_size := of_nat sz\<rparr>)"
    by (simp add: s2 upd_inode_def sz_def max_def f1(12) [symmetric] del: of_nat_add)
  have szb: "sz \<le> MAXFILE * BSIZE" using nh fit by (simp add: sz_def no_holes_def)
  then have usz: "unat (of_nat sz :: u32) = sz" by (simp add: unat_of_nat take_bit_nat_eq_self)
  have ib: "?ib = IBLOCK (ip_inum (itable s1 i)) (sb s1)" using f1 by (simp add: iblock_def)
  have cib: "claimed s1 D1 ?ib" using ok1(2) ib by (simp add: file_ok_def)
  have p: "tx s2 hs1 Map.empty D1" "room s2 hs1 1" "ip_dev (itable s2 i) = log_dev s2"
    "?ib = IBLOCK (ip_inum (itable s2 i)) (sb s2)" "?ib \<notin> log_area (log_start s2) (log_len s2)" "ip_inum (itable s2 i) = ip_inum ?ip"
  proof -
    have u: "sb s2 = sb s1" "log_dev s2 = log_dev s1" "log_start s2 = log_start s1" "log_size s2 = log_size s1" by (simp_all add: s2 upd_inode_def)
    show "tx s2 hs1 Map.empty D1" "room s2 hs1 1" using t1 r by (simp_all only: s2 tx_upd_inode room_upd_inode)
    show "ip_dev (itable s2 i) = log_dev s2" "?ib = IBLOCK (ip_inum (itable s2 i)) (sb s2)" "?ib \<notin> log_area (log_start s2) (log_len s2)"
      "ip_inum (itable s2 i) = ip_inum ?ip" using dev f1 ib cib by (simp_all add: u it2 claimed_def)
  qed
  let ?v = "put_dinode (dinode_of (itable s2 i)) ?o (D1 ?ib)"
  obtain s3 where 3: "iupdate i s2 = Ret () s3" "tx s3 (tx_add hs1 ?ib) Map.empty (D1(?ib := ?v))" "fs_frame s2 s3"
    by (rule iupdate_tx [OF p(1,3,2,4,5)]) (simp only: p(6))
  note d = inode_block_data [OF ok1(2) ib, where v = ?v] and it3 = fs_frameD(1) [OF 3(3)]
  have put3: "bytes_put ?ip D off bs (itable s3 i) (D1(?ib := ?v))"
    using put d(3) by (simp add: bytes_put_def it3 it2)
  have c3: "contents (itable s3 i) (D1(?ib := ?v)) = overwrite (contents ?ip D) off bs"
    by (rule contents_put [OF put3 off]) (use usz szb in \<open>simp_all add: it3 it2 sz_def\<close>)
  have "get_dinode ?v ?o = norm_dinode (dinode_of (itable s3 i))"
    using get_put_dinode [of ?o "D1 ?ib"] dinode_off_bound tx_length [OF t1] by (simp add: it3)
  then have fw: "file_written i off bs s D s3 (D1(?ib := ?v))"
    using c3 w by (simp add: file_written_def written_def)
  have "mapped ?ip D 0 (unat (ip_size ?ip))" "unat (ip_size ?ip) \<le> MAXFILE * BSIZE" using nh by (simp_all add: no_holes_def)
  from mapped_written [OF this(1) w this(2)] have "mapped (itable s1 i) D1 0 sz"
    using map off unfolding mapped_def sz_def by (metis less_max_iff_disj not_le order_less_le_trans zero_le)
  then have "mapped (itable s1 i) (D1(?ib := ?v)) 0 sz"
    using d(1) szb by (auto simp: mapped_def less_mult_imp_div_less)
  moreover have "bitmap_ok s2 (D1(?ib := ?v))" using ok1(1) d(4) by (simp add: s2 bitmap_ok_def upd_inode_def)
  moreover have "file_ok s2 (itable s2 i) (D1(?ib := ?v))" using d(2) by (simp add: it2) (simp add: s2)
  ultimately have fi: "file_in s3 i (D1(?ib := ?v))"
    using bitmap_ok_frame [OF 3(3)] file_ok_frame [OF 3(3)] fs_frameD [OF 3(3)] p(3) usz szb
    by (simp add: file_in_def no_holes_def it2)
  obtain a where "itable s1 = (itable s)(i := ?ip\<lparr>ip_addrs := a\<rparr>)" using addr_frameD(1) [OF fr1] by blast
  then show ?thesis by (intro that [OF 3(1,2) fi fw 3(3)]) (simp add: it2)
qed

lemma writei_tx:
  fixes s :: "'a fs_state_scheme"
  assumes t: "tx s hs Map.empty D" and fi: "file_in s i D" and off: "off \<le> unat (ip_size (itable s i))"
    and fit: "off + length bs \<le> MAXFILE * BSIZE" and sup: "supplies s src bs"
    and r: "room s hs (6 * nblk off (length bs) + 1)" and n: "nfree (sb s) D \<ge> 2 * nblk off (length bs)"
  obtains s' hs' D' where "writei i src (of_nat off) (of_nat (length bs)) s = Ret (int (length bs)) s'"
    and "tx s' hs' Map.empty D'" and "file_in s' i D'" and "length hs' \<le> length hs + 6 * nblk off (length bs) + 1"
    and "file_written i off bs s D s' D'"
    and "itable s' = (itable s)(i := (itable s i)\<lparr>ip_addrs := ip_addrs (itable s' i), ip_size := ip_size (itable s' i)\<rparr>)"
    and "sb s' = sb s" and "log_dev s' = log_dev s" and "log_start s' = log_start s" and "log_size s' = log_size s"
    and "log_outstanding s' = log_outstanding s" and "log_committing s' = log_committing s"
proof -
  let ?ip = "itable s i" and ?n = "length bs" and ?ib = "iblock s i" and ?nb = "nblk off (length bs)"
  have ok: "bitmap_ok s D" "file_ok s ?ip D" and nh: "unat (ip_size ?ip) \<le> MAXFILE * BSIZE" "mapped ?ip D 0 (unat (ip_size ?ip))"
    and dev: "ip_dev ?ip = log_dev s" using fi by (simp_all add: file_in_def no_holes_def)
  have u: "unat (of_nat off :: u32) = off" "unat (of_nat ?n :: u32) = ?n" "unat (of_nat (off + ?n) :: u32) = off + ?n"
    using fit by (simp_all add: unat_of_nat take_bit_nat_eq_self del: of_nat_add)
  obtain s1 hs1 D1 where 1: "writei_loop i src off 0 ?n s = Ret (?n, off + ?n) s1" "written i ?nb s hs D s1 hs1 D1"
    "bytes_put ?ip D off bs (itable s1 i) D1" "mapped (itable s1 i) D1 off (off + ?n)"
    using writei_loop_tx [OF t ok dev, of off ?n 0 bs src] r n fit sup by (auto simp: room_def)
  note w = 1(2) [unfolded written_def]
  have fr1: "addr_frame i s s1" using w by simp
  note f1 = addr_frameD(2-) [OF fr1] addr_frame_inode [OF fr1]
  define s2 where "s2 = upd_inode i (\<lambda>x. if off + ?n > unat (ip_size x) then x\<lparr>ip_size := of_nat (off + ?n)\<rparr> else x) s1"
  have r1: "room s1 hs1 1" using r w f1 by (simp add: room_def)
  have nh': "no_holes ?ip D" using nh by (simp add: no_holes_def)
  obtain s' D' where 2: "iupdate i s2 = Ret () s'" "tx s' (tx_add hs1 ?ib) Map.empty D'" "file_in s' i D'"
    "file_written i off bs s D s' D'" "fs_frame s2 s'"
    "itable s2 = (itable s)(i := ?ip\<lparr>ip_addrs := ip_addrs (itable s2 i), ip_size := ip_size (itable s2 i)\<rparr>)"
    by (rule writei_finish [OF ok(2) off dev fit nh' r1 1(2-4) s2_def])
  note f2 = fs_frameD [OF 2(5)]
  have g: "\<not> of_nat off > ip_size ?ip" "\<not> (of_nat off + of_nat ?n :: u32) < of_nat off" "\<not> unat (of_nat off + of_nat ?n :: u32) > MAXFILE * BSIZE"
    using off fit u by (simp_all add: word_less_nat_alt flip: of_nat_add)
  have "sint (of_nat ?n :: u32) = int ?n"
    using fit by (simp add: signed_of_nat signed_take_bit_int_eq_self)
  then have A: "writei i src (of_nat off) (of_nat ?n) s = Ret (int ?n) s'"
    using g 1(1) 2(1) unfolding writei_def u(1,2) by (simp add: s2_def [symmetric])
  show ?thesis
    by (rule that [OF A 2(2,3) _ 2(4)]) (use 2(6) f1 f2 w length_tx_add [of hs1 ?ib] in \<open>simp_all add: s2_def upd_inode_def\<close>)
qed

section \<open>Reading\<close>

lemma bmap_mapped:
  fixes s :: "'a fs_state_scheme"
  assumes t: "tx s hs Map.empty D" and dev: "ip_dev (itable s i) = log_dev s" and n: "length hs < NBUF"
    and k: "k < MAXFILE" "fblock (itable s i) D k \<noteq> 0"
  obtains s' where "bmap i (of_nat k) s = Ret (fblock (itable s i) D k) s'" and "tx s' hs Map.empty D" and "fs_frame s s'"
proof -
  have uk: "unat (of_nat k :: u32) = k" using k by (simp add: unat_of_nat take_bit_nat_eq_self)
  show ?thesis
  proof (cases "k < NDIRECT")
    case True
    then show ?thesis using that [of s] t k uk by (simp add: bmap_def addr_or_alloc_def fblock_def)
  next
    case False
    let ?ind = "ip_addrs (itable s i) NDIRECT"
    have ind: "?ind \<noteq> 0" "fblock (itable s i) D k = get32 (D ?ind) (4 * (k - NDIRECT))" using False k by (auto simp: fblock_def split: if_splits)
    obtain b s1 where 1: "bread (log_dev s) ?ind s = Ret b s1" "tx s1 hs [?ind \<mapsto> b] D" "fs_frame s s1" "b_data (bufs s1 b) = D ?ind"
      by (rule tx_bread [OF t]) (use n in auto)
    obtain s2 where 2: "brelse b s1 = Ret () s2" "tx s2 hs ([?ind \<mapsto> b](?ind := None)) D" "fs_frame s1 s2"
      by (rule tx_brelse [OF 1(2), of ?ind b]) simp
    have "bmap i (of_nat k) s = Ret (fblock (itable s i) D k) s2"
      using False k ind 1(1,4) 2(1) dev uk by (simp add: bmap_split bmap_entry_def addr_or_alloc_def Let_def)
    then show ?thesis using that 2(2) fs_frame_trans [OF 1(3) 2(3)] by simp
  qed
qed

lemma mod_block: "j < BSIZE \<Longrightarrow> (BSIZE * k + j) mod BSIZE = j" for k j :: nat
  by simp

lemma fbyte_piece:
  assumes "fblock ip D (off div BSIZE) \<noteq> 0" and "off mod BSIZE + m \<le> BSIZE" and "length (D (fblock ip D (off div BSIZE))) = BSIZE"
  shows "take m (drop (off mod BSIZE) (D (fblock ip D (off div BSIZE)))) = map (fbyte ip D) [off..<off + m]"
proof (rule nth_equalityI)
  fix k assume "k < length (take m (drop (off mod BSIZE) (D (fblock ip D (off div BSIZE)))))"
  then have k: "k < m" by simp
  have e: "off + k = BSIZE * (off div BSIZE) + (off mod BSIZE + k)" and lt: "off mod BSIZE + k < BSIZE" using k assms(2) by simp_all
  have "(off + k) div BSIZE = off div BSIZE" unfolding e by (rule div_block [OF lt])
  moreover have "(off + k) mod BSIZE = off mod BSIZE + k" unfolding e by (rule mod_block [OF lt])
  ultimately show "take m (drop (off mod BSIZE) (D (fblock ip D (off div BSIZE)))) ! k = map (fbyte ip D) [off..<off + m] ! k"
    using k assms by (simp add: fbyte_def)
qed (use assms in simp)

lemma readi_loop_step:
  fixes s :: "'a fs_state_scheme"
  assumes "tot < n" and "m = min (n - tot) (BSIZE - off mod BSIZE)"
    and "bmap i (of_nat (off div BSIZE)) s = Ret a s1" and "a \<noteq> 0" and "bread (ip_dev (itable s1 i)) a s1 = Ret b s2"
    and "brelse b s2 = Ret () s3" and "readi_loop i Local_dst (off + m) (tot + m) n s3 = Ret (t, rest) s4"
  shows "readi_loop i Local_dst off tot n s = Ret (t, take m (drop (off mod BSIZE) (b_data (bufs s2 b))) @ rest) s4"
  using assms by (subst readi_loop.simps) (simp add: Let_def)

lemma readi_loop_tx:
  fixes s :: "'a fs_state_scheme"
  assumes "tx s hs Map.empty D" and "ip_dev (itable s i) = log_dev s" and "length hs < NBUF"
    and "mapped (itable s i) D off (off + (n - tot))" and "off + (n - tot) \<le> MAXFILE * BSIZE" and "tot \<le> n"
  shows "\<exists>s'. readi_loop i Local_dst off tot n s = Ret (of_nat n, map (fbyte (itable s i) D) [off..<off + (n - tot)]) s' \<and>
    tx s' hs Map.empty D \<and> fs_frame s s'"
  using assms
proof (induction "n - tot" arbitrary: s off tot rule: less_induct)
  case less
  note t = less.prems(1) and dev = less.prems(2) and n = less.prems(3)
  let ?ip = "itable s i"
  show ?case
  proof (cases "tot < n")
    case False
    then show ?thesis using less.prems by (simp add: readi_loop.simps)
  next
    case True
    define m where "m = min (n - tot) (BSIZE - off mod BSIZE)"
    have m: "0 < m" "m \<le> n - tot" "off mod BSIZE + m \<le> BSIZE" using True by (simp_all add: m_def)
    let ?k = "off div BSIZE" and ?a = "fblock ?ip D (off div BSIZE)"
    have k: "?k < MAXFILE" "?a \<noteq> 0" using less.prems(4,5) True by (auto simp: mapped_def less_mult_imp_div_less)
    obtain s1 where 1: "bmap i (of_nat ?k) s = Ret ?a s1" "tx s1 hs Map.empty D" "fs_frame s s1"
      by (rule bmap_mapped [OF t dev n k])
    note f1 = fs_frameD [OF 1(3)]
    obtain b s2 where 2: "bread (log_dev s1) ?a s1 = Ret b s2" "tx s2 hs [?a \<mapsto> b] D" "fs_frame s1 s2" "b_data (bufs s2 b) = D ?a"
      by (rule tx_bread [OF 1(2)]) (use n in auto)
    obtain s3 where 3: "brelse b s2 = Ret () s3" "tx s3 hs ([?a \<mapsto> b](?a := None)) D" "fs_frame s2 s3"
      by (rule tx_brelse [OF 2(2), of ?a b]) simp
    have fr: "fs_frame s s3" using fs_frame_trans [OF fs_frame_trans [OF 1(3) 2(3)] 3(3)] .
    note f3 = fs_frameD [OF fr]
    have e: "off + m + (n - (tot + m)) = off + (n - tot)" using m by simp
    have lt: "n - (tot + m) < n - tot" "tx s3 hs Map.empty D" "ip_dev (itable s3 i) = log_dev s3" "tot + m \<le> n"
      using m True 3(2) dev f3 by simp_all
    have "mapped (itable s3 i) D (off + m) (off + m + (n - (tot + m)))" using less.prems(4) unfolding e f3(1) by (simp add: mapped_def)
    then obtain s' where s': "readi_loop i Local_dst (off + m) (tot + m) n s3 = Ret (of_nat n, map (fbyte ?ip D) [off + m..<off + (n - tot)]) s'"
      "tx s' hs Map.empty D" "fs_frame s3 s'"
      using less.hyps [of "tot + m" s3 "off + m", OF lt(1) lt(2,3) n _ _ lt(4)] less.prems(5) unfolding e f3(1) by auto
    have piece: "take m (drop (off mod BSIZE) (D ?a)) = map (fbyte ?ip D) [off..<off + m]"
      by (rule fbyte_piece [OF k(2) m(3) tx_length [OF t]])
    have app: "[off..<off + (n - tot)] = [off..<off + m] @ [off + m..<off + (n - tot)]"
      using upt_add_eq_append [of off "off + m" "n - tot - m"] m by simp
    have dev1: "ip_dev (itable s1 i) = log_dev s1" using dev f1 by simp
    have "readi_loop i Local_dst off tot n s = Ret (of_nat n, map (fbyte ?ip D) [off..<off + (n - tot)]) s'"
      using readi_loop_step [OF True m_def 1(1) k(2) _ 3(1) s'(1)] 2(1,4) dev1 piece unfolding app by simp
    then show ?thesis using s'(2) fs_frame_trans [OF fr s'(3)] by blast
  qed
qed

lemma readi_tx:
  fixes s :: "'a fs_state_scheme"
  assumes t: "tx s hs Map.empty D" and fi: "file_in s i D" and n: "length hs < NBUF" and lim: "off + n < 2 ^ 32"
  defines "r \<equiv> take n (drop off (contents (itable s i) D))"
  obtains s' where "readi i Local_dst (of_nat off) (of_nat n) s = Ret (int (length r), r) s'" and "tx s' hs Map.empty D" and "fs_frame s s'"
proof -
  let ?ip = "itable s i" and ?sz = "unat (ip_size (itable s i))"
  have dev: "ip_dev ?ip = log_dev s" and szb: "?sz \<le> MAXFILE * BSIZE" and map: "mapped ?ip D 0 ?sz"
    using fi by (simp_all add: file_in_def no_holes_def)
  have u: "unat (of_nat off :: u32) = off" "unat (of_nat n :: u32) = n" "unat (of_nat (off + n) :: u32) = off + n"
    using lim by (simp_all add: unat_of_nat take_bit_nat_eq_self del: of_nat_add)
  show ?thesis
  proof (cases "off > ?sz")
    case True
    then have "readi i Local_dst (of_nat off) (of_nat n) s = Ret (0, []) s" using u by (simp add: readi_def word_less_nat_alt)
    then show ?thesis using that [of s] t True by (simp add: r_def)
  next
    case False
    define n' where "n' = min n (?sz - off)"
    have cut: "unat (if of_nat off + of_nat n > ip_size ?ip then ip_size ?ip - of_nat off else (of_nat n :: u32)) = n'"
      using False u by (auto simp: n'_def word_less_nat_alt unat_sub word_le_nat_alt simp flip: of_nat_add)
    have wrap: "\<not> (of_nat off + of_nat n :: u32) < of_nat off" using u by (simp add: word_less_nat_alt flip: of_nat_add)
    have le: "off + n' \<le> ?sz" using False by (simp add: n'_def)
    have map': "mapped ?ip D off (off + (n' - 0))" using map le by (simp add: mapped_def)
    obtain s' where s': "readi_loop i Local_dst off 0 n' s = Ret (of_nat n', map (fbyte ?ip D) [off..<off + n']) s'"
      "tx s' hs Map.empty D" "fs_frame s s'"
      using readi_loop_tx [OF t dev n map'] le szb by auto
    have r: "map (fbyte ?ip D) [off..<off + n'] = r"
      using le False by (auto simp: r_def contents_def take_map drop_map drop_upt take_upt n'_def min_def)
    then have len: "length r = n'" by auto
    have "sint (of_nat n' :: u32) = int n'" using le szb by (simp add: signed_of_nat signed_take_bit_int_eq_self)
    then have "readi i Local_dst (of_nat off) (of_nat n) s = Ret (int (length r), r) s'"
      using False wrap s'(1) cut r len u by (simp add: readi_def word_less_nat_alt Let_def)
    then show ?thesis using that s'(2,3) by blast
  qed
qed

lemma outside_log:
  assumes ok: "bitmap_ok s D" "file_ok s ip D" and E: "\<And>b. b \<notin> log_area (log_start s) (log_len s) \<Longrightarrow> E b = D b"
  shows "bitmap_ok s E" and "file_ok s ip E" and "l < MAXFILE \<Longrightarrow> fblock ip E l = fblock ip D l"
    and "o' < MAXFILE * BSIZE \<Longrightarrow> fbyte ip E o' = fbyte ip D o'" and "claimed s E c = claimed s D c"
proof -
  have fr: "free_block (sb s) E b = free_block (sb s) D b" for b
    using ok(1) E by (auto simp: free_block_def bitmap_ok_def)
  show "bitmap_ok s E" using ok(1) by (simp add: bitmap_ok_def fr)
  show cl: "claimed s E c = claimed s D c" for c by (simp add: claimed_def fr)
  have cE: "E c = D c" if "claimed s D c" for c using that E by (simp add: claimed_def)
  show fb: "fblock ip E l = fblock ip D l" if "l < MAXFILE" for l using ok(2) cE by (simp add: fblock_def file_ok_def)
  show "file_ok s ip E" using ok(2) by (simp add: file_ok_def fb cl)
  show "fbyte ip E o' = fbyte ip D o'" if "o' < MAXFILE * BSIZE"
  proof -
    have l: "o' div BSIZE < MAXFILE" using that by (simp add: less_mult_imp_div_less)
    then have "fblock ip D (o' div BSIZE) \<noteq> 0 \<Longrightarrow> claimed s D (fblock ip D (o' div BSIZE))" using ok(2) by (simp add: file_ok_def)
    then show ?thesis using cE by (simp add: fbyte_def fb [OF l] Let_def)
  qed
qed

lemma file_in_outside_log:
  assumes fi: "file_in s i D" and E: "\<And>b. b \<notin> log_area (log_start s) (log_len s) \<Longrightarrow> E b = D b"
  shows "file_in s i E" and "contents (itable s i) E = contents (itable s i) D"
proof -
  have ok: "bitmap_ok s D" "file_ok s (itable s i) D" and nh: "no_holes (itable s i) D" using fi by (simp_all add: file_in_def)
  note x = outside_log [OF ok E]
  have sz: "unat (ip_size (itable s i)) \<le> MAXFILE * BSIZE" using nh by (simp add: no_holes_def)
  show "contents (itable s i) E = contents (itable s i) D" using x(4) sz by (simp add: contents_def)
  have "no_holes (itable s i) E" using nh x(3) sz by (auto simp: no_holes_def mapped_def less_mult_imp_div_less)
  then show "file_in s i E" using x(1,2) fi by (simp add: file_in_def)
qed

section \<open>Properties\<close>


text \<open>
  C9: A write to a file is durable and touches nothing else. Between \<open>begin_op\<close> and \<open>end_op\<close>,
  \<open>writei\<close> of bytes that fit in the file-size limit and in the transaction returns their number.
  When \<open>end_op\<close> returns, the contents of the file on the disk are the old ones with the bytes
  written over or appended at \<open>off\<close>, whether blocks had to be allocated or not; the inode on the disk
  is the one in memory; and every block in use that is neither a block of the file nor the block of
  its inode is unchanged on the disk.
\<close>

theorem file_write_durable:
  fixes s :: "'a fs_state_scheme"
  assumes q: "quiet s" and fi: "file_in s i (disk s)" and off: "off \<le> unat (ip_size (itable s i))"
    and fit: "off + length bs \<le> MAXFILE * BSIZE" and sup: "supplies s src bs"
    and room: "6 * nblk off (length bs) + 1 < nat (log_size s)" "6 * nblk off (length bs) + 3 \<le> NBUF"
    and free: "nfree (sb s) (disk s) \<ge> 2 * nblk off (length bs)"
  shows "\<exists>s'. thenM begin_op (bindM (writei i src (of_nat off) (of_nat (length bs))) (\<lambda>r. thenM end_op (retM r))) s
      = Ret (int (length bs)) s' \<and> quiet s' \<and> file_in s' i (disk s') \<and>
    contents (itable s' i) (disk s') = overwrite (contents (itable s i) (disk s)) off bs \<and>
    get_dinode (disk s' (iblock s i)) (dinode_off (ip_inum (itable s i))) = norm_dinode (dinode_of (itable s' i)) \<and>
    (\<forall>b. claimed s (disk s) b \<longrightarrow> \<not> owns (itable s i) (disk s) b \<longrightarrow> b \<noteq> iblock s i \<longrightarrow> disk s' b = disk s b)"
proof -
  let ?s = "s\<lparr>log_outstanding := 1\<rparr>" and ?n = "length bs"
  note b = begin_op_tx [OF q]
  have fi': "file_in ?s i (disk s)" using fi by (simp add: file_in_def bitmap_ok_def file_ok_def claimed_def)
  have sup': "supplies ?s src bs" using supplies_same [OF sup, of ?s] by (simp add: myproc_def)
  obtain s1 hs1 D1 where 1: "writei i src (of_nat off) (of_nat ?n) ?s = Ret (int ?n) s1" "tx s1 hs1 Map.empty D1" "file_in s1 i D1"
    "length hs1 \<le> length ([] :: u32 list) + 6 * nblk off ?n + 1" "file_written i off bs ?s (disk s) s1 D1"
    "sb s1 = sb ?s" "log_dev s1 = log_dev ?s" "log_start s1 = log_start ?s" "log_size s1 = log_size ?s"
    "log_outstanding s1 = log_outstanding ?s" "log_committing s1 = log_committing ?s"
    by (rule writei_tx [OF b(2) fi' _ fit sup']) (use off room free in \<open>auto simp: room_def\<close>)
  obtain s' where 2: "end_op s1 = Ret () s'" "quiet s'" "itable s' = itable s1" "sb s' = sb s1" "log_dev s' = log_dev s1"
    "log_start s' = log_start s1" "log_size s' = log_size s1"
    "\<And>b. b \<notin> log_area (log_start s1) (log_len s1) \<Longrightarrow> disk s' b = D1 b"
    by (rule end_op_tx [OF 1(2)]) (use 1(4,8-11) room q in \<open>auto simp: quiet_def\<close>)
  note o' = file_in_outside_log [OF 1(3) 2(8)]
  have fi2: "file_in s' i (disk s')" using o'(1) 2(3-7) by (simp add: file_in_def bitmap_ok_def file_ok_def claimed_def)
  have w: "contents (itable s' i) (disk s') = overwrite (contents (itable s i) (disk s)) off bs"
    using 1(5) o'(2) 2(3) by (simp add: file_written_def)
  have out: "c \<notin> log_area (log_start s1) (log_len s1)" if "claimed s (disk s) c" for c using that 1(8,9) by (simp add: claimed_def)
  have cl: "claimed ?s (disk s) c = claimed s (disk s) c" for c by (simp add: claimed_def)
  have "claimed s (disk s) (iblock s i)" using fi by (simp add: file_in_def file_ok_def iblock_def)
  from out [OF this] have ib: "disk s' (iblock s i) = D1 (iblock s i)" by (rule 2(8))
  have "disk s' c = disk s c" if "claimed s (disk s) c" "\<not> owns (itable s i) (disk s) c" "c \<noteq> iblock s i" for c
    using 1(5) 2(8) [OF out [OF that(1)]] that by (simp add: file_written_def cl iblock_def)
  moreover have "get_dinode (disk s' (iblock s i)) (dinode_off (ip_inum (itable s i))) = norm_dinode (dinode_of (itable s' i))"
    using 1(5) 2(3) ib by (simp add: file_written_def iblock_def)
  ultimately show ?thesis using b(1) 1(1) 2(1,2) fi2 w by simp
qed

lemma small_IBLOCK: "IBLOCK 2 small_sb = 32"
proof -
  have "unat ((2 :: u32) div 16) = 0" by (simp add: unat_div_distrib)
  then show ?thesis by (simp add: IBLOCK_def small_sb_def unat_eq_zero)
qed

lemma file_in_small: "file_in small_fs i (disk small_fs)"
proof -
  have "IBLOCK 2 small_sb = 32" by (rule small_IBLOCK)
  moreover have "claimed small_fs small_disk 32"
    using small_BBLOCK by (simp add: claimed_def small_fs_fields small_free [of small_disk] small_log_area) (simp add: small_sb_def)
  moreover have "fblock empty_file small_disk k = 0" for k by (simp add: fblock_def empty_file_def)
  moreover have "bitmap_ok small_fs small_disk" by (rule bitmap_ok_small) (simp_all add: small_fs_fields)
  ultimately show ?thesis
    by (simp add: file_in_def small_fs_fields file_ok_def no_holes_def mapped_def) (simp add: empty_file_def)
qed

lemma nfree_small: "2 \<le> nfree (sb small_fs) (disk small_fs)"
proof -
  have "{100, 101} \<subseteq> {b. free_block small_sb small_disk b}" by (simp add: small_free [of small_disk])
  then have "card {100, 101 :: u32} \<le> nfree small_sb small_disk" unfolding nfree_def by (rule card_mono [OF finite])
  then show ?thesis by (simp add: small_fs_fields)
qed


theorem file_write_durable_witness:
  "\<exists>s'. thenM begin_op (bindM (writei 0 (Local_src [104, 105]) (of_nat 0) (of_nat 2)) (\<lambda>r. thenM end_op (retM r))) small_fs
      = Ret 2 s' \<and> quiet s' \<and> contents (itable s' 0) (disk s') = [104, 105]"
proof -
  have nb: "nblk 0 (length [104, 105 :: u8]) = 1" by (simp add: nblk_def)
  have c: "contents (itable small_fs 0) (disk small_fs) = []" by (simp add: contents_def small_fs_fields) (simp add: empty_file_def)
  from file_write_durable [OF quiet_small_fs file_in_small, of 0 0 "[104, 105]" "Local_src [104, 105]"] nfree_small
  show ?thesis unfolding nb c by (auto simp: supplies_local small_fs_fields overwrite_def)
qed

end
