(* ===== verification/Fs_Path.thy ===== *)
theory Fs_Path
  imports File_Contents
begin

text \<open>
  Path names and directories of \<^verbatim>\<open>kernel/fs.c\<close>: what \<open>skipelem\<close> takes apart is the path split at its
  slashes, and \<open>dirlookup\<close> finds the first entry with the name.
\<close>

section \<open>The elements of a path\<close>

text \<open>The names \<open>namex_loop\<close> looks up, in order.\<close>

function path_elems :: "u8 list \<Rightarrow> u8 list list" where
  "path_elems path = (case skipelem path of None \<Rightarrow> [] | Some (rest, name) \<Rightarrow> name # path_elems rest)"
  by pat_completeness auto
termination
  by (relation "measure length") (auto dest: skipelem_shorter)

declare path_elems.simps [simp del]

text \<open>The reference: split at every slash, drop the empty pieces, cut each piece to \<open>DIRSIZ\<close> bytes.\<close>

fun split_slash :: "u8 list \<Rightarrow> u8 list list" where
  "split_slash [] = [[]]"
| "split_slash (c # cs) =
     (if c = slash then [] # split_slash cs
      else case split_slash cs of p # ps \<Rightarrow> (c # p) # ps | [] \<Rightarrow> [[c]])"

lemma split_slash_nonempty [simp]: "split_slash cs \<noteq> []"
  by (induction cs) (auto split: list.splits)

lemma split_slash_word: "slash \<notin> set w \<Longrightarrow> split_slash (w @ cs) = (w @ hd (split_slash cs)) # tl (split_slash cs)"
  by (induction w) (auto split: list.splits)

lemma split_slash_skip: "filter (\<lambda>x. x \<noteq> []) (split_slash (dropWhile (\<lambda>c. c = slash) cs)) = filter (\<lambda>x. x \<noteq> []) (split_slash cs)"
  by (induction cs) auto

lemma split_slash_hd:
  assumes "cs = [] \<or> hd cs = slash"
  shows "hd (split_slash cs) = []" and "filter (\<lambda>x. x \<noteq> []) (tl (split_slash cs)) = filter (\<lambda>x. x \<noteq> []) (split_slash cs)"
  using assms by (cases cs; auto)+

text \<open>
  C13: Parsing a path with \<open>skipelem\<close> until nothing is left gives the same names as splitting the path
  at its slashes: leading, repeated and trailing slashes make no difference, and a name longer
  than a directory entry can hold is cut to \<open>DIRSIZ\<close> bytes.
\<close>

theorem path_elems_split:
  "path_elems path = map (take DIRSIZ) (filter (\<lambda>x. x \<noteq> []) (split_slash path))"
proof (induction path rule: path_elems.induct)
  case (1 path)
  let ?p = "dropWhile (\<lambda>c. c = slash) path" and ?ne = "filter (\<lambda>x. x \<noteq> []) :: u8 list list \<Rightarrow> u8 list list"
  have skip: "?ne (split_slash path) = ?ne (split_slash ?p)" by (rule split_slash_skip [symmetric])
  show ?case
  proof (cases "?p = []")
    case True
    have "?ne (split_slash ?p) = []" unfolding True by simp
    then show ?thesis using skip True unfolding path_elems.simps [of path] skipelem_def by simp
  next
    case False
    let ?w = "takeWhile (\<lambda>c. c \<noteq> slash) ?p" and ?r = "dropWhile (\<lambda>c. c \<noteq> slash) ?p"
    have sk: "skipelem path = Some (dropWhile (\<lambda>c. c = slash) ?r, take DIRSIZ ?w)"
      using False by (simp add: skipelem_def Let_def)
    obtain d ds where p: "?p = d # ds" using False by (cases ?p) blast+
    have w: "?w \<noteq> []" using hd_dropWhile [OF False] unfolding p by simp
    have r: "?r = [] \<or> hd ?r = slash" using hd_dropWhile [of "\<lambda>c. c \<noteq> slash" ?p] by auto
    have "slash \<notin> set ?w" by (auto dest: set_takeWhileD)
    then have "split_slash ?p = ?w # tl (split_slash ?r)"
      using split_slash_word [of ?w ?r] split_slash_hd(1) [OF r] by simp
    then have "?ne (split_slash ?p) = ?w # ?ne (split_slash ?r)" using w split_slash_hd(2) [OF r] by simp
    moreover have "path_elems path = take DIRSIZ ?w # path_elems (dropWhile (\<lambda>c. c = slash) ?r)"
      by (subst path_elems.simps) (simp add: sk)
    ultimately show ?thesis using 1 [OF sk refl] skip split_slash_skip [of ?r] by simp
  qed
qed

section \<open>Directories\<close>

text \<open>Entry \<open>k\<close> of a directory with contents \<open>c\<close>, and whether it is in use and has the name.\<close>

definition dir_entry :: "u8 list \<Rightarrow> nat \<Rightarrow> u8 list" where
  "dir_entry c k = take 16 (drop (16 * k) c)"

definition entry_matches :: "u8 list \<Rightarrow> u8 list \<Rightarrow> nat \<Rightarrow> bool" where
  "entry_matches name c k \<longleftrightarrow> de_inum (dir_entry c k) \<noteq> 0 \<and> namecmp name (de_name (dir_entry c k)) = 0"

lemma dirlookup_loop_tx:
  fixes s :: "'a fs_state_scheme"
  assumes "tx s hs Map.empty D" and "file_in s dp D" and "length hs < NBUF" and "c = contents (itable s dp) D"
    and "\<And>k. k \<in> set ks \<Longrightarrow> 16 * k + 16 \<le> length c"
  shows "\<exists>s1. tx s1 hs Map.empty D \<and> fs_frame s s1 \<and>
    dirlookup_loop dp name (map ((*) 16) ks) s =
      (case find (entry_matches name c) ks of
         None \<Rightarrow> Ret None s1
       | Some k \<Rightarrow> bindM (iget (ip_dev (itable s dp)) (ucast (de_inum (dir_entry c k)))) (\<lambda>i. retM (Some (i, 16 * k))) s1)"
  using assms
proof (induction ks arbitrary: s)
  case Nil
  then show ?case by (intro exI [of _ s]) simp
next
  case (Cons k ks)
  let ?de = "dir_entry c k"
  have k: "16 * k + 16 \<le> length c" using Cons.prems(5) by simp
  have "length c \<le> MAXFILE * BSIZE" using Cons.prems(2,4) by (simp add: file_in_def no_holes_def)
  then have lim: "16 * k + 16 < 2 ^ 32" using k by simp
  obtain s1 where 1: "readi dp Local_dst (of_nat (16 * k)) (of_nat 16) s = Ret (int (length ?de), ?de) s1"
    "tx s1 hs Map.empty D" "fs_frame s s1"
    by (rule readi_tx [OF Cons.prems(1-3) lim]) (simp add: dir_entry_def Cons.prems(4))
  have len: "length ?de = 16" using k by (simp add: dir_entry_def)
  note f1 = fs_frameD [OF 1(3)]
  have r: "readi dp Local_dst (of_nat (16 * k)) 16 s = Ret (16, ?de) s1" using 1(1) len by simp
  show ?case
  proof (cases "entry_matches name c k")
    case True
    then have "dirlookup_loop dp name (map ((*) 16) (k # ks)) s =
        bindM (iget (ip_dev (itable s dp)) (ucast (de_inum ?de))) (\<lambda>i. retM (Some (i, 16 * k))) s1"
      using r f1 by (simp add: entry_matches_def del: of_nat_mult)
    then show ?thesis using True 1(2,3) by (intro exI [of _ s1]) simp
  next
    case False
    have fi1: "file_in s1 dp D"
      using Cons.prems(2) f1 bitmap_ok_frame [OF 1(3)] file_ok_frame [OF 1(3)] by (simp add: file_in_def)
    have c1: "c = contents (itable s1 dp) D" and ks: "\<And>k. k \<in> set ks \<Longrightarrow> 16 * k + 16 \<le> length c"
      using Cons.prems(4,5) f1(1) by simp_all
    have "dirlookup_loop dp name (map ((*) 16) (k # ks)) s = dirlookup_loop dp name (map ((*) 16) ks) s1"
      using r False by (auto simp: entry_matches_def simp del: of_nat_mult)
    moreover obtain s2 where "tx s2 hs Map.empty D" "fs_frame s1 s2"
      "dirlookup_loop dp name (map ((*) 16) ks) s1 =
      (case find (entry_matches name c) ks of
         None \<Rightarrow> Ret None s2
       | Some k \<Rightarrow> bindM (iget (ip_dev (itable s dp)) (ucast (de_inum (dir_entry c k)))) (\<lambda>i. retM (Some (i, 16 * k))) s2)"
      using Cons.IH [OF 1(2) fi1 Cons.prems(3) c1 ks] unfolding f1(1) by blast
    ultimately show ?thesis using False fs_frame_trans [OF 1(3)] by (intro exI [of _ s2]) (simp add: f1(1))
  qed
qed

text \<open>
  C12: \<open>dirlookup\<close> finds the entry. In a directory whose size is a whole number of entries it
  scans the entries in order, skips free ones, and takes a reference to the inode of the first
  entry whose name matches in the first \<open>DIRSIZ\<close> bytes, returning the offset of that entry; without
  such an entry it returns the null pointer. Either way it panics in no other place than
  \<open>iget\<close>, and the disk is as before.
\<close>

theorem dirlookup_first_match:
  fixes s :: "'a fs_state_scheme"
  assumes q: "quiet s" and fi: "file_in s dp (disk s)" and dir: "ip_type (itable s dp) = T_DIR"
    and c: "c = contents (itable s dp) (disk s)" "length c mod 16 = 0"
  shows "\<exists>s1. disk s1 = disk s \<and> itable s1 = itable s \<and>
    dirlookup dp name s =
      (case find (entry_matches name c) [0..<length c div 16] of
         None \<Rightarrow> Ret None s1
       | Some k \<Rightarrow> bindM (iget (ip_dev (itable s dp)) (ucast (de_inum (dir_entry c k)))) (\<lambda>i. retM (Some (i, 16 * k))) s1)"
proof -
  have len: "length c = unat (ip_size (itable s dp))" using c(1) by simp
  obtain q where "length c = 16 * q" using c(2) by (auto elim: dvdE simp: dvd_eq_mod_eq_0 [symmetric])
  then have "(unat (ip_size (itable s dp)) + 15) div 16 = length c div 16" using len by simp
  then have offs: "dirent_offs (ip_size (itable s dp)) = map ((*) 16) [0..<length c div 16]" by (simp add: dirent_offs_def)
  have k: "16 * k + 16 \<le> length c" if "k \<in> set [0..<length c div 16]" for k using that by auto
  have "length ([] :: u32 list) < NBUF" by simp
  from dirlookup_loop_tx [where name = name, OF quiet_tx [OF q] fi this c(1) k]
  obtain s1 where s1: "tx s1 [] Map.empty (disk s)" "fs_frame s s1"
    "dirlookup_loop dp name (map ((*) 16) [0..<length c div 16]) s =
      (case find (entry_matches name c) [0..<length c div 16] of
         None \<Rightarrow> Ret None s1
       | Some k \<Rightarrow> bindM (iget (ip_dev (itable s dp)) (ucast (de_inum (dir_entry c k)))) (\<lambda>i. retM (Some (i, 16 * k))) s1)" by blast
  have "disk s1 = disk s" using s1(1) by (auto simp: tx_def fun_eq_iff)
  then show ?thesis using s1(3) fs_frameD(1) [OF s1(2)] dir by (intro exI [of _ s1]) (simp add: dirlookup_def offs)
qed

text \<open>A directory with one entry, \<open>a\<close> with inode 7, in block 47.\<close>

definition one_entry :: "u8 list" where
  "one_entry = mk_dirent 7 (97 # replicate 13 0)"

definition dir_disk :: "u32 \<Rightarrow> u8 list" where
  "dir_disk = small_disk(47 := one_entry @ replicate 1008 0)"

definition one_dir :: inode where
  "one_dir = empty_file\<lparr>ip_type := 1, ip_size := 16, ip_addrs := (\<lambda>_. 0)(0 := 47)\<rparr>"

lemma one_dir_fields [simp]:
  "ip_inum one_dir = 2" "ip_addrs one_dir = (\<lambda>_. 0)(0 := 47)" "ip_size one_dir = 16" "ip_dev one_dir = 1" "ip_type one_dir = 1"
  by (simp_all add: one_dir_def empty_file_def)

lemma length_one_entry [simp]: "length one_entry = 16"
  by (simp add: one_entry_def mk_dirent_def)

lemma dir_disk_ok: "length (dir_disk b) = BSIZE" "dir_disk 2 = replicate BSIZE 0"
  by (simp_all add: dir_disk_def small_disk_def)

lemmas dir_fs_fields = fs_on_fields [of dir_disk one_dir, OF dir_disk_ok]

lemma fblock_one_dir: "fblock one_dir dir_disk k = (if k = 0 then 47 else 0)"
  by (simp add: fblock_def)

lemma file_in_dir: "file_in (fs_on dir_disk one_dir) i dir_disk"
proof -
  have d: "dir_disk 45 = small_disk 45" by (simp add: dir_disk_def)
  have "bitmap_ok (fs_on dir_disk one_dir) dir_disk" by (rule bitmap_ok_small) (simp_all add: dir_fs_fields d)
  moreover have "claimed (fs_on dir_disk one_dir) dir_disk 32" "claimed (fs_on dir_disk one_dir) dir_disk 47"
    using small_BBLOCK by (simp_all add: claimed_def dir_fs_fields small_free [of dir_disk, OF d] small_log_area) (simp_all add: small_sb_def)
  ultimately show ?thesis
    using small_IBLOCK by (simp add: file_in_def dir_fs_fields file_ok_def no_holes_def mapped_def fblock_one_dir)
qed

theorem dirlookup_first_match_witness:
  "\<exists>s1. disk s1 = dir_disk \<and> dirlookup 0 [97, 0] (fs_on dir_disk one_dir) = bindM (iget 1 7) (\<lambda>i. retM (Some (i, 0))) s1"
proof -
  let ?s = "fs_on dir_disk one_dir"
  have "fbyte one_dir dir_disk k = one_entry ! k" if "k < 16" for k
    using that by (simp add: fbyte_def fblock_one_dir) (simp add: dir_disk_def nth_append)
  then have c: "one_entry = contents (itable ?s 0) (disk ?s)"
    by (intro nth_equalityI) (simp_all add: dir_fs_fields contents_def)
  have m: "entry_matches [97, 0] one_entry 0" "de_inum (dir_entry one_entry 0) = 7" by code_simp+
  have t: "ip_type (itable ?s 0) = T_DIR" "file_in ?s 0 (disk ?s)" "length one_entry mod 16 = 0"
    using file_in_dir by (simp_all add: dir_fs_fields)
  from dirlookup_first_match [OF dir_fs_fields(7) t(2,1) c t(3), of "[97, 0]"] m show ?thesis
    by (auto simp: dir_fs_fields)
qed

end
