(* ===== verification/Console.thy ===== *)
theory Console
  imports Fs
begin

text \<open>
  The console, \<^verbatim>\<open>kernel/console.c\<close>: the line discipline between the UART and the processes
  that read from it, \<open>uartintr\<close> of \<^verbatim>\<open>kernel/uart.c\<close> that feeds it, and \<open>procdump\<close> of
  \<^verbatim>\<open>kernel/proc.c\<close> that control-P calls. The input buffer with its three indices refines a
  pair of lists: the input that readers may take and the line being edited.
\<close>

section \<open>Model\<close>

abbreviation (input) INPUT_BUF_SIZE :: nat where "INPUT_BUF_SIZE \<equiv> 128"
abbreviation (input) ctrl_P :: u8 where "ctrl_P \<equiv> 16"
abbreviation (input) ctrl_U :: u8 where "ctrl_U \<equiv> 21"
abbreviation (input) ctrl_H :: u8 where "ctrl_H \<equiv> 8"
abbreviation (input) ctrl_D :: u8 where "ctrl_D \<equiv> 4"
abbreviation (input) DEL :: u8 where "DEL \<equiv> 127"
abbreviation (input) NL :: u8 where "NL \<equiv> 10"
abbreviation (input) CR :: u8 where "CR \<equiv> 13"

text \<open>
  \<open>devsw\<close> is the table of device functions; the only device whose functions are ever entered
  in it is the console.
\<close>

datatype device = Console_dev

record cons_state = fs_state +
  cons_buf :: "nat \<Rightarrow> u8"
  cons_r :: u32
  cons_w :: u32
  cons_e :: u32
  devsw :: "nat \<Rightarrow> device option"

fun state_name :: "procstate \<Rightarrow> string" where
  "state_name UNUSED = ''unused''"
| "state_name USED = ''used''"
| "state_name SLEEPING = ''sleep ''"
| "state_name RUNNABLE = ''runble''"
| "state_name RUNNING = ''run   ''"
| "state_name ZOMBIE = ''zombie''"

definition procdump :: "('a uart_state_scheme, unit) M" where
  "procdump =
     thenM (printf ''\<newline>'' [])
       (eachM (\<lambda>i s.
          let p = procs s i in
          if p_state p = UNUSED then Ret () s
          else thenM (printf ''%d %s %s'' [Num (of_int (p_pid p)), Str (str (state_name (p_state p))),
                        Str (takeWhile (\<lambda>c. c \<noteq> 0) (p_name p))])
                 (printf ''\<newline>'' []) s) [0..<NPROC])"

fun consolewrite_loop :: "src \<Rightarrow> int \<Rightarrow> nat \<Rightarrow> ('a cons_state_scheme, int) M" where
  "consolewrite_loop src i 0 s = Ret i s"
| "consolewrite_loop src i (Suc n) s =
     bindM (either_copyin src 1) (\<lambda>(r, c).
       if r = - 1 then retM i
       else thenM (uartputc (c ! 0)) (consolewrite_loop (src_plus src 1) (i + 1) n)) s"

definition consolewrite :: "src \<Rightarrow> int \<Rightarrow> ('a cons_state_scheme, int) M" where
  "consolewrite src n = consolewrite_loop src 0 (nat n)"

text \<open>
  The loop of \<open>consoleread\<close>, with \<open>n\<close> bytes still wanted out of \<open>target\<close>. Bytes for a local
  destination are returned with the result.
\<close>

fun consoleread_loop :: "dst \<Rightarrow> nat \<Rightarrow> nat \<Rightarrow> ('a cons_state_scheme, int \<times> u8 list) M" where
  "consoleread_loop dst target 0 s = Ret (int target, []) s"
| "consoleread_loop dst target (Suc n) s =
     (if cons_r s = cons_w s
      then (if p_killed (myproc s) \<noteq> 0 then Ret (- 1, []) s else Block Chan_cons s)
      else
        let c = cons_buf s (unat (cons_r s) mod INPUT_BUF_SIZE); s1 = s\<lparr>cons_r := cons_r s + 1\<rparr> in
        if c = ctrl_D
        then Ret (int target - int (Suc n), [])
               (if Suc n < target then s1\<lparr>cons_r := cons_r s1 - 1\<rparr> else s1)
        else bindM (either_copyout dst [c]) (\<lambda>(r, bs).
          if r = - 1 then retM (int target - int (Suc n), bs)
          else if c = NL then retM (int target - int n, bs)
          else bindM (consoleread_loop (dst_plus dst 1) target n) (\<lambda>(k, rest). retM (k, bs @ rest))) s1)"

definition consoleread :: "dst \<Rightarrow> int \<Rightarrow> ('a cons_state_scheme, int \<times> u8 list) M" where
  "consoleread dst n = consoleread_loop dst (nat n) (nat n)"

text \<open>
  The loop of control-U. The first argument bounds the iterations; it starts at \<open>cons.e - cons.w\<close>,
  after which \<open>cons.e\<close> has reached \<open>cons.w\<close>.
\<close>

fun kill_line :: "nat \<Rightarrow> ('a cons_state_scheme, unit) M" where
  "kill_line 0 s = Ret () s"
| "kill_line (Suc n) s =
     (if cons_e s \<noteq> cons_w s \<and> cons_buf s (unat (cons_e s - 1) mod INPUT_BUF_SIZE) \<noteq> NL
      then thenM (consputc BACKSPACE) (kill_line n) (s\<lparr>cons_e := cons_e s - 1\<rparr>)
      else Ret () s)"

definition cons_commit :: "'a cons_state_scheme \<Rightarrow> 'a cons_state_scheme" where
  "cons_commit s = wakeup Chan_cons (s\<lparr>cons_w := cons_e s\<rparr>)"

definition cons_store :: "u8 \<Rightarrow> 'a cons_state_scheme \<Rightarrow> 'a cons_state_scheme" where
  "cons_store c s =
     (let s1 = s\<lparr>cons_buf := (cons_buf s)(unat (cons_e s) mod INPUT_BUF_SIZE := c), cons_e := cons_e s + 1\<rparr> in
      if c = NL \<or> c = ctrl_D \<or> cons_e s1 - cons_r s1 = of_nat INPUT_BUF_SIZE then cons_commit s1 else s1)"

definition consoleintr :: "u8 \<Rightarrow> ('a cons_state_scheme, unit) M" where
  "consoleintr c s =
     (if c = ctrl_P then procdump s
      else if c = ctrl_U then kill_line (unat (cons_e s - cons_w s)) s
      else if c = ctrl_H \<or> c = DEL
      then (if cons_e s \<noteq> cons_w s then consputc BACKSPACE (s\<lparr>cons_e := cons_e s - 1\<rparr>) else Ret () s)
      else if c \<noteq> 0 \<and> cons_e s - cons_r s < of_nat INPUT_BUF_SIZE
      then let c = (if c = CR then NL else c) in
        thenM (consputc (uint c)) (modM (cons_store c)) s
      else Ret () s)"

definition consoleinit :: "('a cons_state_scheme, unit) M" where
  "consoleinit = thenM uartinit (modM (\<lambda>s. s\<lparr>devsw := (devsw s)(1 := Some Console_dev)\<rparr>))"

text \<open>The receive loop of \<open>uartintr\<close>, once per byte the receiver holds.\<close>

fun uartintr_loop :: "nat \<Rightarrow> ('a cons_state_scheme, unit) M" where
  "uartintr_loop 0 s = Ret () s"
| "uartintr_loop (Suc n) s =
     (case uartgetc s of
        (None, s1) \<Rightarrow> Ret () s1
      | (Some c, s1) \<Rightarrow> thenM (consoleintr c) (uartintr_loop n) s1)"

definition uartintr :: "('a cons_state_scheme, unit) M" where
  "uartintr s = thenM (uartintr_loop (length (uart_rx s))) (modM uartstart) s"

section \<open>The line discipline\<close>

text \<open>
  The specification: input that a reader may take, and the line the user is editing. Control-U
  drops the line, backspace its last character; a newline, control-D or a full buffer makes
  the line available.
\<close>

type_synonym tty = "u8 list \<times> u8 list"

definition tty_input :: "u8 \<Rightarrow> tty \<Rightarrow> tty" where
  "tty_input c t = (case t of (ready, line) \<Rightarrow>
     if c = ctrl_P then (ready, line)
     else if c = ctrl_U then (ready, [])
     else if c = ctrl_H \<or> c = DEL then (ready, butlast line)
     else if c = 0 \<or> length ready + length line \<ge> INPUT_BUF_SIZE then (ready, line)
     else let c = (if c = CR then NL else c); line = line @ [c] in
       if c = NL \<or> c = ctrl_D \<or> length ready + length line = INPUT_BUF_SIZE then (ready @ line, []) else (ready, line))"

fun tty_read :: "nat \<Rightarrow> bool \<Rightarrow> u8 list \<Rightarrow> (u8 list \<times> u8 list) option" where
  "tty_read 0 first ready = Some ([], ready)"
| "tty_read (Suc n) first [] = None"
| "tty_read (Suc n) first (c # cs) =
     (if c = ctrl_D then Some ([], if first then cs else c # cs)
      else if c = NL then Some ([c], cs)
      else case tty_read n False cs of Some (d, rest) \<Rightarrow> Some (c # d, rest) | None \<Rightarrow> None)"

definition cons_abs :: "'a cons_state_scheme \<Rightarrow> tty" where
  "cons_abs s = (ring_contents INPUT_BUF_SIZE (cons_buf s) (cons_r s) (cons_w s),
                 ring_contents INPUT_BUF_SIZE (cons_buf s) (cons_w s) (cons_e s))"

definition cons_ok :: "'a cons_state_scheme \<Rightarrow> bool" where
  "cons_ok s \<longleftrightarrow>
     unat (cons_w s - cons_r s) + unat (cons_e s - cons_w s) \<le> INPUT_BUF_SIZE \<and> NL \<notin> set (snd (cons_abs s))"


definition cons_same :: "'a cons_state_scheme \<Rightarrow> 'a cons_state_scheme \<Rightarrow> bool" where
  "cons_same s s' \<longleftrightarrow> cons_buf s' = cons_buf s \<and> cons_r s' = cons_r s \<and> cons_w s' = cons_w s \<and> cons_e s' = cons_e s \<and>
     panicked s' = panicked s \<and> procs s' = procs s \<and> cur s' = cur s"

lemma cons_same_abs: "cons_same s s' \<Longrightarrow> cons_abs s' = cons_abs s \<and> cons_ok s' = cons_ok s"
  by (simp add: cons_same_def cons_abs_def cons_ok_def)

lemma cons_same_trans: "cons_same s t \<Longrightarrow> cons_same t u \<Longrightarrow> cons_same s u"
  by (simp add: cons_same_def)

lemma consputc_same:
  assumes "\<not> panicked s"
  obtains s' where "consputc c s = Ret () s'" and "cons_same s s'"
proof -
  have "\<exists>s'. consputc c s = Ret () s' \<and> cons_same s s'"
    using assms by (simp add: consputc_def uartputc_sync_def write_thr_def WriteReg_def cons_same_def)
  with that show ?thesis by blast
qed

lemma eachM_consputc_same:
  assumes "\<not> panicked s"
  shows "\<exists>s'. eachM (\<lambda>c. consputc (uint c)) out s = Ret () s' \<and> cons_same s s'"
  using assms
proof (induction out arbitrary: s)
  case Nil
  then show ?case by (simp add: cons_same_def)
next
  case (Cons c out)
  obtain s1 where s1: "consputc (uint c) s = Ret () s1" "cons_same s s1"
    using Cons.prems by (rule consputc_same)
  then have "\<not> panicked s1" using Cons.prems by (simp add: cons_same_def)
  from Cons.IH [OF this] obtain s2 where "eachM (\<lambda>c. consputc (uint c)) out s1 = Ret () s2" "cons_same s1 s2" by blast
  with s1 show ?case by (auto intro: cons_same_trans)
qed

lemma printf_same:
  assumes "\<not> panicked s" and "format (str fmt) args \<noteq> None"
  shows "\<exists>s'. printf fmt args s = Ret () s' \<and> cons_same s s'"
  using assms eachM_consputc_same [OF assms(1)] by (auto simp: printf_def)

lemma procdump_same:
  assumes "\<not> panicked s"
  shows "\<exists>s'. procdump s = Ret () s' \<and> cons_same s s'"
proof -
  have nl: "format (str ''\<newline>'') [] \<noteq> None" by (simp add: format.simps str_def)
  have line: "format (str ''%d %s %s'') [Num (of_int k), Str a, Str b] \<noteq> None" for k a b
  proof -
    obtain out where "printint (int_slot (of_int k)) 10 True = Some out" using printint_int by blast
    then show ?thesis by (simp add: format.simps str_def conversion_def at0_def)
  qed
  obtain s1 where s1: "printf ''\<newline>'' [] s = Ret () s1" "cons_same s s1"
    using printf_same [OF assms nl] by blast
  let ?f = "\<lambda>i s :: 'a cons_state_scheme. let p = procs s i in
          if p_state p = UNUSED then Ret () s
          else thenM (printf ''%d %s %s'' [Num (of_int (p_pid p)), Str (str (state_name (p_state p))),
                        Str (takeWhile (\<lambda>c. c \<noteq> 0) (p_name p))])
                 (printf ''\<newline>'' []) s"
  have "\<exists>s'. eachM ?f is t = Ret () s' \<and> cons_same t s'" if "\<not> panicked t" for "is" t
    using that
  proof (induction "is" arbitrary: t)
    case Nil
    then show ?case by (simp add: cons_same_def)
  next
    case (Cons i "is")
    have "\<exists>u. ?f i t = Ret () u \<and> cons_same t u"
    proof (cases "p_state (procs t i) = UNUSED")
      case False
      obtain u where u: "printf ''%d %s %s'' [Num (of_int (p_pid (procs t i))), Str (str (state_name (p_state (procs t i)))),
                        Str (takeWhile (\<lambda>c. c \<noteq> 0) (p_name (procs t i)))] t = Ret () u" "cons_same t u"
        using printf_same [OF Cons.prems line] by blast
      have "\<not> panicked u" using u(2) Cons.prems by (simp add: cons_same_def)
      from printf_same [OF this nl] u show ?thesis using False by (auto intro: cons_same_trans)
    qed (simp add: cons_same_def)
    then obtain u where u: "?f i t = Ret () u" "cons_same t u" by blast
    then have "\<not> panicked u" using Cons.prems by (simp add: cons_same_def)
    from Cons.IH [OF this] u show ?case by (auto intro: cons_same_trans)
  qed
  from this [of s1] s1 assms show ?thesis
    unfolding procdump_def by (fastforce simp: cons_same_def)
qed


lemma kill_line_spec:
  assumes "\<not> panicked s" and "n = unat (cons_e s - cons_w s)" and "NL \<notin> set (snd (cons_abs s))"
  shows "\<exists>s'. kill_line n s = Ret () s' \<and> cons_same (s\<lparr>cons_e := cons_w s\<rparr>) s'"
  using assms
proof (induction n arbitrary: s)
  case 0
  then have "cons_e s = cons_w s" by (simp add: unat_eq_zero)
  then show ?case by (simp add: cons_same_def)
next
  case (Suc n)
  have ne: "cons_w s \<noteq> cons_e s" using Suc.prems(2) by auto
  note l = ring_last(1) [OF ne, of 128 "cons_buf s"] ring_last(2) [OF ne]
  let ?s = "s\<lparr>cons_e := cons_e s - 1\<rparr>"
  have nl: "cons_buf s (unat (cons_e s - 1) mod 128) \<noteq> NL" "NL \<notin> set (snd (cons_abs ?s))"
    using Suc.prems(3) l(1) by (auto simp: cons_abs_def)
  obtain s1 where s1: "consputc BACKSPACE ?s = Ret () s1" "cons_same ?s s1"
    by (rule consputc_same [of ?s BACKSPACE]) (use Suc.prems(1) in auto)
  have "\<exists>s'. kill_line n s1 = Ret () s' \<and> cons_same (s1\<lparr>cons_e := cons_w s1\<rparr>) s'"
    by (rule Suc.IH) (use s1(2) Suc.prems l(2) nl(2) cons_same_abs [OF s1(2)] in \<open>auto simp: cons_same_def\<close>)
  then show ?case using s1 nl(1) ne by (auto simp: cons_same_def)
qed

lemma butlast_ring: "butlast (ring_contents n d w e) = (if w = e then [] else ring_contents n d w (e - 1))"
proof (cases "w = e")
  case True
  then show ?thesis using ring_empty_iff [of n d w e] by simp
next
  case False
  then show ?thesis using ring_last(1) [OF False, of n d] by simp
qed

lemma cons_store_spec:
  assumes ok: "cons_ok s" and room: "unat (cons_w s - cons_r s) + unat (cons_e s - cons_w s) < INPUT_BUF_SIZE"
    and t: "t = cons_store c s"
  shows "cons_ok t" and "cons_abs t = (case cons_abs s of (ready, line) \<Rightarrow>
      let line = line @ [c] in if c = NL \<or> c = ctrl_D \<or> length ready + length line = INPUT_BUF_SIZE
      then (ready @ line, []) else (ready, line))"
proof -
  let ?w = "cons_w s" and ?r = "cons_r s" and ?e = "cons_e s" and ?d = "cons_buf s"
  define d' where "d' = ?d(unat ?e mod INPUT_BUF_SIZE := c)"
  have d: "(128 :: nat) dvd 2 ^ LENGTH(32)" by simp
  note st = ring_store [OF d room _ d'_def, simplified]
  have lt: "unat (?w - ?r) + unat (?e + 1 - ?w) < 2 ^ LENGTH(32)" using room st(3) by simp
  note ap = ring_append(1) [OF lt, of 128 d'] ring_append(2) [OF lt]
  have full: "?e + 1 - ?r = 128 \<longleftrightarrow> unat (?w - ?r) + unat (?e + 1 - ?w) = 128"
    unfolding ap(2) [symmetric] by (simp add: word_unat_eq_iff)
  show "cons_ok t" and "cons_abs t = (case cons_abs s of (ready, line) \<Rightarrow>
      let line = line @ [c] in if c = NL \<or> c = ctrl_D \<or> length ready + length line = INPUT_BUF_SIZE
      then (ready @ line, []) else (ready, line))"
    using ok st ap full room
    by (simp_all add: t cons_store_def cons_commit_def cons_ok_def cons_abs_def Let_def d'_def [symmetric] wakeup_def)
qed


text \<open>
  C18: The interrupt handler of the console implements the line discipline: on every input
  byte \<open>consoleintr\<close> returns, and the input buffer before and after represent terminal states
  related by \<open>tty_input\<close>. The indices never run over each other.
\<close>

theorem consoleintr_refines_tty:
  assumes ok: "cons_ok s" and np: "\<not> panicked s"
  shows "\<exists>s'. consoleintr c s = Ret () s' \<and> cons_ok s' \<and> cons_abs s' = tty_input c (cons_abs s)"
proof -
  let ?w = "cons_w s" and ?r = "cons_r s" and ?e = "cons_e s" and ?d = "cons_buf s"
  have nl: "NL \<notin> set (snd (cons_abs s))" and le: "unat (?w - ?r) + unat (?e - ?w) \<le> 128"
    using ok by (simp_all add: cons_ok_def)
  have "unat (?e - ?r) = unat (?w - ?r) + unat (?e - ?w)" by (rule ring_append(2)) (use le in simp)
  then have room: "?e - ?r < of_nat INPUT_BUF_SIZE \<longleftrightarrow> unat (?w - ?r) + unat (?e - ?w) < 128"
    by (simp add: word_less_nat_alt)
  consider "c = ctrl_P" | "c = ctrl_U" | "c = ctrl_H \<or> c = DEL"
    | "c \<notin> {ctrl_P, ctrl_U, ctrl_H, DEL}" "c = 0 \<or> \<not> unat (?w - ?r) + unat (?e - ?w) < 128"
    | "c \<notin> {ctrl_P, ctrl_U, ctrl_H, DEL}" "c \<noteq> 0" "unat (?w - ?r) + unat (?e - ?w) < 128" by blast
  then show ?thesis
  proof cases
    case 1
    then show ?thesis using procdump_same [OF np] ok cons_same_abs
      by (auto simp: consoleintr_def tty_input_def split: prod.split)
  next
    case 2
    obtain s' where "kill_line (unat (?e - ?w)) s = Ret () s'" "cons_same (s\<lparr>cons_e := ?w\<rparr>) s'"
      using kill_line_spec [OF np refl nl] by blast
    then show ?thesis using 2 le cons_same_abs by (fastforce simp: consoleintr_def tty_input_def cons_abs_def cons_ok_def)
  next
    case 3
    show ?thesis
    proof (cases "?e = ?w")
      case True
      then show ?thesis using 3 ok by (auto simp: consoleintr_def tty_input_def cons_abs_def)
    next
      case False
      let ?s = "s\<lparr>cons_e := ?e - 1\<rparr>"
      obtain s' where s': "consputc BACKSPACE ?s = Ret () s'" "cons_same ?s s'"
        by (rule consputc_same [of ?s BACKSPACE]) (use np in auto)
      have "cons_abs ?s = (fst (cons_abs s), butlast (snd (cons_abs s)))" "cons_ok ?s"
        using False ok ring_last(2) [of ?w ?e] ring_last(1) [of ?w ?e 128 ?d] by (auto simp: cons_abs_def cons_ok_def butlast_ring dest: in_set_butlastD)
      then show ?thesis using 3 s' False cons_same_abs [OF s'(2)]
        by (auto simp: consoleintr_def tty_input_def cons_abs_def)
    qed
  next
    case 4
    then have "consoleintr c s = Ret () s" using room by (auto simp: consoleintr_def)
    moreover have "tty_input c (cons_abs s) = cons_abs s" using 4 by (auto simp: tty_input_def cons_abs_def)
    ultimately show ?thesis using ok by simp
  next
    case 5
    let ?c = "if c = CR then NL else c"
    obtain s1 where s1: "consputc (uint ?c) s = Ret () s1" "cons_same s s1" using np by (rule consputc_same)
    have ok1: "cons_ok s1" and a1: "cons_abs s1 = cons_abs s" using cons_same_abs [OF s1(2)] ok by simp_all
    have "unat (cons_w s1 - cons_r s1) + unat (cons_e s1 - cons_w s1) < 128"
      using 5(3) s1(2) by (simp add: cons_same_def)
    note st = cons_store_spec [OF ok1 this refl, of ?c]
    have "consoleintr c s = Ret () (cons_store ?c s1)"
      using 5 s1(1) room by (simp add: consoleintr_def Let_def)
    moreover have "cons_abs (cons_store ?c s1) = tty_input c (cons_abs s)"
      using st(2) 5 unfolding a1 by (simp add: tty_input_def cons_abs_def Let_def)
    ultimately show ?thesis using st(1) by blast
  qed
qed

definition cons_boot :: cons_state where
  "cons_boot = fs_state.extend (uart_state.extend uart_boot
       \<lparr>sb = \<lparr>sb_magic = 0, sb_size = 0, sb_nblocks = 0, sb_ninodes = 0, sb_nlog = 0, sb_logstart = 0,
             sb_inodestart = 0, sb_bmapstart = 0\<rparr>,
        itable = (\<lambda>_. \<lparr>ip_dev = 0, ip_inum = 0, ip_ref = 0, ip_lock = initsleeplock, ip_valid = False,
          ip_type = 0, ip_major = 0, ip_minor = 0, ip_nlink = 0, ip_size = 0, ip_addrs = (\<lambda>_. 0)\<rparr>)\<rparr>)
     \<lparr>cons_buf = (\<lambda>_. 0), cons_r = 0, cons_w = 0, cons_e = 0, devsw = (\<lambda>_. None)\<rparr>"

lemma cons_boot_fields [simp]:
  "cons_buf cons_boot = (\<lambda>_. 0)" "cons_r cons_boot = 0" "cons_w cons_boot = 0" "cons_e cons_boot = 0"
  "\<not> panicked cons_boot"
  by (simp_all add: cons_boot_def fs_state.defs uart_state.defs uart_boot_def log_state.defs)

lemma cons_boot_ok: "cons_ok cons_boot" "cons_abs cons_boot = ([], [])"
  by (simp_all add: cons_ok_def cons_abs_def)

theorem consoleintr_refines_tty_witness:
  "\<exists>s'. consoleintr 97 cons_boot = Ret () s' \<and> cons_ok s' \<and> cons_abs s' = ([], [97])"
  using consoleintr_refines_tty [OF cons_boot_ok(1), of 97] by (simp add: cons_boot_ok tty_input_def)



end
