(* ===== verification/Vm_Map.thy ===== *)
theory Vm_Map
  imports Vm
begin

text \<open>
  What the page tables of \<^verbatim>\<open>kernel/vm.c\<close> mean: a function from virtual pages to page-table
  entries. A table in memory is well formed if its pages can be labelled with their level
  and the part of the address they serve; walks, mappings and unmappings are then shown to be
  lookups and updates of that function, which nothing else in memory disturbs.
\<close>

section \<open>Entries\<close>

definition entry :: "memory \<Rightarrow> u64 \<Rightarrow> u64 \<Rightarrow> u64" where
  "entry m t i = load64 m (pte_addr t i)"

abbreviation (input) pte_valid :: "u64 \<Rightarrow> bool" where
  "pte_valid e \<equiv> e AND PTE_V \<noteq> 0"

fun walk_ro :: "nat \<Rightarrow> memory \<Rightarrow> u64 \<Rightarrow> u64 \<Rightarrow> u64" where
  "walk_ro 0 m t va = pte_addr t (PX 0 va)"
| "walk_ro (Suc l) m t va =
     (let e = entry m t (PX (Suc l) va) in if pte_valid e then walk_ro l m (PTE2PA e) va else 0)"

fun pte_val :: "nat \<Rightarrow> memory \<Rightarrow> u64 \<Rightarrow> u64 \<Rightarrow> u64" where
  "pte_val 0 m t va = entry m t (PX 0 va)"
| "pte_val (Suc l) m t va =
     (let e = entry m t (PX (Suc l) va) in if pte_valid e then pte_val l m (PTE2PA e) va else 0)"

lemma walk_level_False: "walk_level l t va False s = Ret (walk_ro l (mem s) t va) s"
  by (induction l arbitrary: t) (auto simp: Let_def entry_def)

lemma walk_False: "va < MAXVA \<Longrightarrow> walk t va False s = Ret (walk_ro 2 (mem s) t va) s"
  by (simp add: walk_def walk_level_False)

lemma load64_store64_other:
  assumes "unat a mod 8 = 0" and "unat b mod 8 = 0" and "a \<noteq> b"
  shows "load64 (store64 m a w) b = load64 m b"
proof (rule load64_cong)
  fix i :: nat assume i: "i < 8"
  obtain p q where p: "unat a = 8 * p" and q: "unat b = 8 * q"
    using assms(1,2) by (auto elim!: dvdE)
  have "p \<noteq> q" using assms(3) p q by (auto simp: word_unat_eq_iff)
  have lt: "8 * p < 2 ^ 64" "8 * q < 2 ^ 64" using unat_less_pow [of a] unat_less_pow [of b] p q by simp_all
  have bi: "unat (b + word_of_nat i) = 8 * q + i"
    using lt(2) i by (simp add: unat_word_ariths unat_of_nat q)
  have "8 \<le> unat (b + word_of_nat i - a)"
    unfolding unat_sub_if_size bi p word_size using lt i \<open>p \<noteq> q\<close> by auto
  then show "store64 m a w (b + word_of_nat i) = m (b + word_of_nat i)" by (simp add: store64_apply)
qed

lemma unat_pte_addr:
  assumes "page_aligned t" and "unat i < 512"
  shows "unat (pte_addr t i) = unat t + 8 * unat i"
proof -
  obtain k where k: "unat t = 4096 * k" using assms(1) by (rule page_alignedE)
  have "4096 * k < 2 ^ 64" using unat_less_pow [of t] k by simp
  then have "4096 * k + 8 * unat i < 2 ^ 64" using assms(2) by simp
  moreover have "unat (8 * i) = 8 * unat i" using assms(2) by (simp add: unat_word_ariths)
  ultimately show ?thesis by (simp add: pte_addr_def unat_word_ariths k)
qed

lemma pte_addr_mod8: "page_aligned t \<Longrightarrow> unat i < 512 \<Longrightarrow> unat (pte_addr t i) mod 8 = 0"
  by (auto simp: unat_pte_addr elim!: page_alignedE)

lemma pte_addr_inj:
  assumes "page_aligned t" "page_aligned t'" "unat i < 512" "unat i' < 512" "pte_addr t i = pte_addr t' i'"
  shows "t = t'" and "i = i'"
proof -
  obtain k k' where k: "unat t = 4096 * k" "unat t' = 4096 * k'"
    using assms(1,2) by (metis page_alignedE)
  have "4096 * k + 8 * unat i = 4096 * k' + 8 * unat i'"
    using assms by (metis unat_pte_addr k)
  then have e: "512 * k + unat i = 512 * k' + unat i'" by simp
  have "k = k'" using arg_cong [OF e, of "\<lambda>x. x div 512"] assms(3,4) by simp
  then have "unat i = unat i'" using e by simp
  note \<open>k = k'\<close> this
  then show "t = t'" and "i = i'" using k by (simp_all add: word_unat_eq_iff)
qed

lemma pte_addr_nonzero: "page_aligned t \<Longrightarrow> t \<noteq> 0 \<Longrightarrow> unat i < 512 \<Longrightarrow> pte_addr t i \<noteq> 0"
  using unat_pte_addr [of t i] by (auto simp: unat_eq_zero)

lemma pte_addr_in_page: "page_aligned t \<Longrightarrow> unat i < 512 \<Longrightarrow> k < 8 \<Longrightarrow> in_page t (pte_addr t i + of_nat k)"
proof -
  assume "page_aligned t" and i: "unat i < 512" and k: "k < 8"
  have "pte_addr t i + of_nat k - t = of_nat (8 * unat i + k)"
    by (simp add: pte_addr_def)
  then have "unat (pte_addr t i + of_nat k - t) = (8 * unat i + k) mod 2 ^ 64"
    by (simp only: unat_of_nat) simp
  then show ?thesis using i k by (simp add: in_page_def)
qed

lemma entry_store64:
  assumes "page_aligned t" "page_aligned t'" "unat i < 512" "unat i' < 512"
  shows "entry (store64 m (pte_addr t i) e) t' i' = (if t' = t \<and> i' = i then e else entry m t' i')"
proof (cases "pte_addr t' i' = pte_addr t i")
  case True
  then show ?thesis using pte_addr_inj [OF assms] by (simp add: entry_def)
next
  case False
  have "load64 (store64 m (pte_addr t i) e) (pte_addr t' i') = load64 m (pte_addr t' i')"
    using False pte_addr_mod8 [OF assms(1,3)] pte_addr_mod8 [OF assms(2,4)] by (intro load64_store64_other) auto
  then show ?thesis using False by (auto simp: entry_def)
qed

lemma entry_frame:
  assumes "page_aligned t" "unat i < 512" and "\<And>x. in_page t x \<Longrightarrow> m' x = m x"
  shows "entry m' t i = entry m t i"
  unfolding entry_def by (rule load64_cong) (use assms pte_addr_in_page in blast)

lemma entry_memset_zero:
  assumes "page_aligned t" "unat i < 512"
  shows "entry (memset m t 0 4096) t i = 0"
proof -
  have "load_bytes (memset m t 0 4096) (pte_addr t i) 8 = replicate 8 0"
    by (rule nth_equalityI) (use pte_addr_in_page [OF assms] in \<open>auto simp: memset_page\<close>)
  then have "entry (memset m t 0 4096) t i = word_of_bytes (replicate 8 0)" by (simp add: entry_def load64_def)
  also have "\<dots> = (0 :: u64)" by (simp add: eval_nat_numeral)
  finally show ?thesis .
qed

section \<open>Well-formed tables\<close>

text \<open>
  \<open>lab t = Some (l, p)\<close>: page \<open>t\<close> is a table of level \<open>l\<close>, for the addresses whose index digits
  above level \<open>l\<close> are \<open>p\<close>. Since \<open>lab\<close> is a function, no two entries lead to the same table.
\<close>

definition pt_ok :: "memory \<Rightarrow> (u64 \<Rightarrow> (nat \<times> nat) option) \<Rightarrow> u64 \<Rightarrow> bool" where
  "pt_ok m lab root \<longleftrightarrow>
     lab root = Some (2, 0) \<and>
     (\<forall>t\<in>dom lab. page_aligned t \<and> t \<noteq> 0) \<and>
     (\<forall>t l p i. lab t = Some (Suc l, p) \<longrightarrow> unat i < 512 \<longrightarrow> pte_valid (entry m t i) \<longrightarrow>
        lab (PTE2PA (entry m t i)) = Some (l, p * 512 + unat i))"

lemma pt_okD:
  assumes "pt_ok m lab root"
  shows "lab root = Some (2, 0)" and "lab t = Some x \<Longrightarrow> page_aligned t \<and> t \<noteq> 0"
    and "lab t = Some (Suc l, p) \<Longrightarrow> unat i < 512 \<Longrightarrow> pte_valid (entry m t i) \<Longrightarrow>
      lab (PTE2PA (entry m t i)) = Some (l, p * 512 + unat i)"
  using assms by (auto simp: pt_ok_def dom_def)

definition vprefix :: "nat \<Rightarrow> u64 \<Rightarrow> nat" where
  "vprefix l va = unat va div 2 ^ (21 + 9 * l)"

lemma vprefix_step: "vprefix l va = vprefix (Suc l) va * 512 + unat (PX (Suc l) va)"
proof -
  have "vprefix (Suc l) va = vprefix l va div 512"
    by (simp add: vprefix_def div_mult2_eq [symmetric] power_add)
  moreover have "unat (PX (Suc l) va) = vprefix l va mod 512" by (simp add: unat_PX vprefix_def)
  ultimately show ?thesis by simp
qed

lemma vprefix_root: "va < MAXVA \<Longrightarrow> vprefix 2 va = 0"
  by (simp add: vprefix_def word_less_nat_alt)

lemma walk_ro_lab:
  assumes ok: "pt_ok m lab root" and "lab t = Some (l, vprefix l va)"
  shows "walk_ro l m t va = 0 \<or>
    (\<exists>t0. lab t0 = Some (0, vprefix 0 va) \<and> walk_ro l m t va = pte_addr t0 (PX 0 va))"
  using assms(2)
proof (induction l arbitrary: t)
  case 0
  then show ?case by auto
next
  case (Suc l)
  show ?case
  proof (cases "pte_valid (entry m t (PX (Suc l) va))")
    case True
    have "lab (PTE2PA (entry m t (PX (Suc l) va))) = Some (l, vprefix l va)"
      using pt_okD(3) [OF ok Suc.prems PX_less True] vprefix_step [of l va] by simp
    then show ?thesis using Suc.IH True by (simp add: Let_def)
  qed (simp add: Let_def)
qed

lemma pte_val_walk:
  assumes ok: "pt_ok m lab root" and "lab t = Some (l, vprefix l va)"
  shows "pte_val l m t va = (if walk_ro l m t va = 0 then 0 else load64 m (walk_ro l m t va))"
  using assms(2)
proof (induction l arbitrary: t)
  case 0
  then have "page_aligned t \<and> t \<noteq> 0" using pt_okD(2) [OF ok] by blast
  then show ?case using pte_addr_nonzero [OF _ _ PX_less] by (simp add: entry_def)
next
  case (Suc l)
  show ?case
  proof (cases "pte_valid (entry m t (PX (Suc l) va))")
    case True
    have "lab (PTE2PA (entry m t (PX (Suc l) va))) = Some (l, vprefix l va)"
      using pt_okD(3) [OF ok Suc.prems PX_less True] vprefix_step [of l va] by simp
    then show ?thesis using Suc.IH True by (simp add: Let_def)
  qed (simp add: Let_def)
qed

lemma pt_frame:
  assumes ok: "pt_ok m lab root" and same: "\<And>t x. t \<in> dom lab \<Longrightarrow> in_page t x \<Longrightarrow> m' x = m x"
  shows "pt_ok m' lab root" and "lab t = Some (l, vprefix l va) \<Longrightarrow> pte_val l m' t va = pte_val l m t va"
    and "lab t = Some (l, vprefix l va) \<Longrightarrow> walk_ro l m' t va = walk_ro l m t va"
proof -
  have e: "entry m' t i = entry m t i" if "lab t = Some x" "unat i < 512" for t i x
    using entry_frame [of t i m' m] pt_okD(2) [OF ok that(1)] same that by blast
  show "pt_ok m' lab root" using ok e unfolding pt_ok_def by (auto simp: dom_def)
  have lower: "lab (PTE2PA (entry m t (PX (Suc l) va))) = Some (l, vprefix l va)"
    if "lab t = Some (Suc l, vprefix (Suc l) va)" "pte_valid (entry m t (PX (Suc l) va))" for t l
    using pt_okD(3) [OF ok that(1) PX_less that(2)] vprefix_step [of l va] by simp
  show "lab t = Some (l, vprefix l va) \<Longrightarrow> pte_val l m' t va = pte_val l m t va"
  proof (induction l arbitrary: t)
    case (Suc l)
    then show ?case using lower [OF Suc.prems] e [OF Suc.prems PX_less] by (auto simp: Let_def)
  qed (simp add: e [OF _ PX_less])
  show "lab t = Some (l, vprefix l va) \<Longrightarrow> walk_ro l m' t va = walk_ro l m t va"
  proof (induction l arbitrary: t)
    case (Suc l)
    then show ?case using lower [OF Suc.prems] e [OF Suc.prems PX_less] by (auto simp: Let_def)
  qed simp
qed

definition same_page :: "u64 \<Rightarrow> u64 \<Rightarrow> bool" where
  "same_page va va' \<longleftrightarrow> unat va div 4096 = unat va' div 4096"

lemma PX_same_page: "same_page va va' \<Longrightarrow> PX l va = PX l va'"
proof -
  assume "same_page va va'"
  moreover have "unat x div 2 ^ (12 + 9 * l) = unat x div 4096 div 2 ^ (9 * l)" for x :: u64
    by (simp add: div_mult2_eq power_add)
  ultimately have "unat (PX l va) = unat (PX l va')" by (simp add: unat_PX same_page_def)
  then show ?thesis by (simp add: word_unat_eq_iff)
qed

lemma walk_ro_same_page: "same_page va va' \<Longrightarrow> walk_ro l m t va = walk_ro l m t va'"
  by (induction l arbitrary: t) (simp_all add: PX_same_page Let_def)

lemma pte_val_same_page: "same_page va va' \<Longrightarrow> pte_val l m t va = pte_val l m t va'"
  by (induction l arbitrary: t) (simp_all add: PX_same_page Let_def)

lemma same_page_iff:
  "same_page va va' \<longleftrightarrow> vprefix 0 va = vprefix 0 va' \<and> PX 0 va = PX 0 va'"
proof
  assume s: "same_page va va'"
  have "unat x div 2 ^ 21 = unat x div 4096 div 512" for x :: u64
    by (simp add: div_mult2_eq [symmetric])
  then show "vprefix 0 va = vprefix 0 va' \<and> PX 0 va = PX 0 va'"
    using s PX_same_page [OF s] by (simp add: vprefix_def same_page_def)
next
  assume a: "vprefix 0 va = vprefix 0 va' \<and> PX 0 va = PX 0 va'"
  have "unat x div 4096 = vprefix 0 x * 512 + unat (PX 0 x)" for x :: u64
  proof -
    have "vprefix 0 x = unat x div 4096 div 512" by (simp add: vprefix_def div_mult2_eq [symmetric])
    moreover have "unat (PX 0 x) = unat x div 4096 mod 512" by (simp add: unat_PX)
    ultimately show ?thesis by simp
  qed
  then show "same_page va va'" using a by (simp add: same_page_def)
qed

text \<open>Writing a leaf entry changes the map at one page and keeps the tables.\<close>

lemma set_leaf:
  assumes ok: "pt_ok m lab root" and va: "va < MAXVA" and a: "walk_ro 2 m root va \<noteq> 0"
    and m'_def: "m' = store64 m (walk_ro 2 m root va) e"
  shows "pt_ok m' lab root"
    and "va' < MAXVA \<Longrightarrow> walk_ro 2 m' root va' = walk_ro 2 m root va'"
    and "va' < MAXVA \<Longrightarrow> pte_val 2 m' root va' = (if same_page va va' then e else pte_val 2 m root va')"
proof -
  have root: "lab root = Some (2, vprefix 2 x)" if "x < MAXVA" for x
    using pt_okD(1) [OF ok] vprefix_root [OF that] by simp
  obtain t0 where t0: "lab t0 = Some (0, vprefix 0 va)" "walk_ro 2 m root va = pte_addr t0 (PX 0 va)"
    using walk_ro_lab [OF ok root [OF va]] a by blast
  have al: "page_aligned t" if "lab t = Some x" for t x using pt_okD(2) [OF ok that] by blast
  have e: "entry m' t i = (if t = t0 \<and> i = PX 0 va then e else entry m t i)" if "lab t = Some x" "unat i < 512" for t i x
    unfolding m'_def t0(2) using entry_store64 al that t0(1) PX_less by blast
  have ne: "t \<noteq> t0" if "lab t = Some (Suc l, p)" for t l p using that t0(1) by auto
  show ok': "pt_ok m' lab root"
    unfolding pt_ok_def
  proof (intro conjI allI impI)
    show "lab root = Some (2, 0)" using pt_okD(1) [OF ok] .
    show "\<forall>t\<in>dom lab. page_aligned t \<and> t \<noteq> 0" using ok by (simp add: pt_ok_def)
    fix t l p i assume t: "lab t = Some (Suc l, p)" and i: "unat i < 512" and v: "pte_valid (entry m' t i)"
    have "entry m' t i = entry m t i" using e [OF t i] ne [OF t] by simp
    then show "lab (PTE2PA (entry m' t i)) = Some (l, p * 512 + unat i)"
      using pt_okD(3) [OF ok t i] v by simp
  qed
  have walk: "walk_ro l m' t va' = walk_ro l m t va'" if "lab t = Some (l, vprefix l va')" for l t va'
    using that
  proof (induction l arbitrary: t)
    case (Suc l)
    have same: "entry m' t (PX (Suc l) va') = entry m t (PX (Suc l) va')"
      using e [OF Suc.prems PX_less] ne [OF Suc.prems] by simp
    have "lab (PTE2PA (entry m t (PX (Suc l) va'))) = Some (l, vprefix l va')" if "pte_valid (entry m t (PX (Suc l) va'))"
      using pt_okD(3) [OF ok Suc.prems PX_less that] vprefix_step [of l va'] by simp
    then show ?case using Suc.IH by (simp add: same Let_def)
  qed simp
  show w: "walk_ro 2 m' root va' = walk_ro 2 m root va'" if "va' < MAXVA" for va'
    using walk [OF root [OF that]] .
  assume va': "va' < MAXVA"
  show "pte_val 2 m' root va' = (if same_page va va' then e else pte_val 2 m root va')"
  proof (cases "same_page va va'")
    case True
    then have "walk_ro 2 m root va' = walk_ro 2 m root va" using walk_ro_same_page by metis
    then show ?thesis using True a w [OF va'] pte_val_walk [OF ok' root [OF va']] by (simp add: m'_def)
  next
    case False
    show ?thesis
    proof (cases "walk_ro 2 m root va' = 0")
      case True
      then show ?thesis using False w [OF va'] pte_val_walk [OF ok' root [OF va']] pte_val_walk [OF ok root [OF va']] by simp
    next
      case nz: False
      obtain t1 where t1: "lab t1 = Some (0, vprefix 0 va')" "walk_ro 2 m root va' = pte_addr t1 (PX 0 va')"
        using walk_ro_lab [OF ok root [OF va']] nz by blast
      have "\<not> (t1 = t0 \<and> PX 0 va' = PX 0 va)"
        using False t0(1) t1(1) by (auto simp: same_page_iff)
      then have "entry m' t1 (PX 0 va') = entry m t1 (PX 0 va')" using e [OF t1(1) PX_less] by auto
      then show ?thesis
        using False nz w [OF va'] pte_val_walk [OF ok' root [OF va']] pte_val_walk [OF ok root [OF va']] t1(2)
        by (simp add: entry_def)
    qed
  qed
qed

text \<open>Hanging a new, zeroed table below an empty entry does not change the map.\<close>

lemma table_entry_valid: "pte_valid (PA2PTE r OR PTE_V)"
proof
  assume "(PA2PTE r OR PTE_V) AND PTE_V = 0"
  then have "\<not> bit ((PA2PTE r OR PTE_V) AND PTE_V) 0" by simp
  then show False by (simp add: bit_and_iff bit_or_iff)
qed

lemma add_table:
  assumes ok: "pt_ok m lab root" and t: "lab t = Some (Suc l, p)" and i: "unat i < 512" "\<not> pte_valid (entry m t i)"
    and r: "page_aligned r" "r \<noteq> 0" "r \<notin> dom lab"
    and m': "\<And>t' i' x. lab t' = Some x \<Longrightarrow> unat i' < 512 \<Longrightarrow>
      entry m' t' i' = (if t' = t \<and> i' = i then PA2PTE r OR PTE_V else entry m t' i')"
    and zero: "\<And>i'. unat i' < 512 \<Longrightarrow> entry m' r i' = 0"
  defines "lab' \<equiv> lab(r \<mapsto> (l, p * 512 + unat i))"
  shows "pt_ok m' lab' root"
    and "lab t' = Some (l', vprefix l' va') \<Longrightarrow> pte_val l' m' t' va' = pte_val l' m t' va'"
proof -
  have target: "PTE2PA (PA2PTE r OR PTE_V) = r"
    by (rule PTE2PA_PA2PTE [OF r(1)]) (simp add: flag_bits_def)
  have keep: "lab' t = Some x" if "lab t = Some x" for t x using that r(3) by (auto simp: lab'_def)
  show "pt_ok m' lab' root"
    unfolding pt_ok_def
  proof (intro conjI allI impI)
    show "lab' root = Some (2, 0)" using keep pt_okD(1) [OF ok] by blast
    show "\<forall>t\<in>dom lab'. page_aligned t \<and> t \<noteq> 0" using ok r by (auto simp: pt_ok_def lab'_def)
    fix t1 l1 p1 i1 assume t1: "lab' t1 = Some (Suc l1, p1)" and i1: "unat i1 < 512" and v: "pte_valid (entry m' t1 i1)"
    have "t1 \<noteq> r" using v zero [OF i1] by auto
    then have t1': "lab t1 = Some (Suc l1, p1)" using t1 by (simp add: lab'_def)
    show "lab' (PTE2PA (entry m' t1 i1)) = Some (l1, p1 * 512 + unat i1)"
    proof (cases "t1 = t \<and> i1 = i")
      case True
      then show ?thesis using m' [OF t1' i1] target t t1' by (simp add: lab'_def)
    next
      case False
      then have same: "entry m' t1 i1 = entry m t1 i1" using m' [OF t1' i1] by auto
      show ?thesis unfolding same by (rule keep) (use pt_okD(3) [OF ok t1' i1] v same in simp)
    qed
  qed
  have new0: "pte_val k m' r va' = 0" for k
    using zero [OF PX_less] by (cases k) (simp_all add: Let_def)
  show "lab t' = Some (l', vprefix l' va') \<Longrightarrow> pte_val l' m' t' va' = pte_val l' m t' va'"
  proof (induction l' arbitrary: t')
    case 0
    then have "t' \<noteq> t" using t by auto
    then show ?case using m' [OF 0 PX_less] by simp
  next
    case (Suc k)
    note m1 = m' [OF Suc.prems PX_less [of "Suc k" va']]
    show ?case
    proof (cases "t' = t \<and> PX (Suc k) va' = i")
      case True
      then have "entry m' t' (PX (Suc k) va') = PA2PTE r OR PTE_V" using m1 by simp
      moreover have "\<not> pte_valid (entry m t' (PX (Suc k) va'))" using True i(2) by simp
      ultimately show ?thesis using table_entry_valid [of r] target new0 by (simp add: Let_def)
    next
      case False
      then have same: "entry m' t' (PX (Suc k) va') = entry m t' (PX (Suc k) va')" using m1 by auto
      have "lab (PTE2PA (entry m t' (PX (Suc k) va'))) = Some (k, vprefix k va')" if "pte_valid (entry m t' (PX (Suc k) va'))"
        using pt_okD(3) [OF ok Suc.prems PX_less that] vprefix_step [of k va'] by simp
      then show ?thesis using Suc.IH by (simp add: same Let_def)
    qed
  qed
qed

section \<open>Walks that allocate\<close>

definition aspace :: "'a kmem_state_scheme \<Rightarrow> (u64 \<Rightarrow> (nat \<times> nat) option) \<Rightarrow> u64 \<Rightarrow> bool" where
  "aspace s lab root \<longleftrightarrow> pt_ok (mem s) lab root \<and> kmem_ok s \<and> dom lab \<inter> free_pages s = {}"

text \<open>
  \<open>grows s lab s' lab' root\<close>: from \<open>s\<close> to \<open>s'\<close> the tables have gained the pages of \<open>lab'\<close>
  that are not in \<open>lab\<close>, taken from the free list; the map from addresses to entries is the
  same, valid entries are kept, and memory outside the tables is untouched.
\<close>

definition grows :: "'a kmem_state_scheme \<Rightarrow> (u64 \<Rightarrow> (nat \<times> nat) option) \<Rightarrow>
    'a kmem_state_scheme \<Rightarrow> (u64 \<Rightarrow> (nat \<times> nat) option) \<Rightarrow> u64 \<Rightarrow> bool" where
  "grows s lab s' lab' root \<longleftrightarrow>
     aspace s' lab' root \<and> lab \<subseteq>\<^sub>m lab' \<and> dom lab' \<subseteq> dom lab \<union> free_pages s \<and>
     free_pages s' = free_pages s - dom lab' \<and>
     s' = s\<lparr>mem := mem s', freelist := freelist s'\<rparr> \<and>
     (\<forall>t l va. lab t = Some (l, vprefix l va) \<longrightarrow> pte_val l (mem s') t va = pte_val l (mem s) t va) \<and>
     (\<forall>t x i. lab t = Some x \<longrightarrow> unat i < 512 \<longrightarrow> pte_valid (entry (mem s) t i) \<longrightarrow>
        entry (mem s') t i = entry (mem s) t i) \<and>
     (\<forall>x. (\<forall>q\<in>dom lab'. \<not> in_page q x) \<longrightarrow> mem s' x = mem s x)"

lemma growsD:
  assumes "grows s lab s' lab' root"
  shows "aspace s' lab' root" and "lab \<subseteq>\<^sub>m lab'" and "dom lab' \<subseteq> dom lab \<union> free_pages s"
    and "free_pages s' = free_pages s - dom lab'" and "s' = s\<lparr>mem := mem s', freelist := freelist s'\<rparr>"
    and "lab t = Some (l, vprefix l va) \<Longrightarrow> pte_val l (mem s') t va = pte_val l (mem s) t va"
    and "lab t = Some x \<Longrightarrow> unat i < 512 \<Longrightarrow> pte_valid (entry (mem s) t i) \<Longrightarrow> entry (mem s') t i = entry (mem s) t i"
    and "(\<And>q. q \<in> dom lab' \<Longrightarrow> \<not> in_page q y) \<Longrightarrow> mem s' y = mem s y"
    and "dom lab \<subseteq> dom lab'" and "lab t = Some x \<Longrightarrow> lab' t = Some x"
proof -
  note g = assms [unfolded grows_def]
  show "aspace s' lab' root" using g by (elim conjE)
  show le: "lab \<subseteq>\<^sub>m lab'" using g by (elim conjE)
  show "dom lab' \<subseteq> dom lab \<union> free_pages s" using g by (elim conjE)
  show "free_pages s' = free_pages s - dom lab'" using g by (elim conjE)
  show "s' = s\<lparr>mem := mem s', freelist := freelist s'\<rparr>" using g by (elim conjE)
  show "dom lab \<subseteq> dom lab'" by (rule map_le_implies_dom_le [OF le])
  show "lab t = Some x \<Longrightarrow> lab' t = Some x" using le by (auto simp: map_le_def dom_def)
  show "lab t = Some (l, vprefix l va) \<Longrightarrow> pte_val l (mem s') t va = pte_val l (mem s) t va"
    using g by (elim conjE) blast
  show "lab t = Some x \<Longrightarrow> unat i < 512 \<Longrightarrow> pte_valid (entry (mem s) t i) \<Longrightarrow> entry (mem s') t i = entry (mem s) t i"
    using g by (elim conjE) blast
  show "(\<And>q. q \<in> dom lab' \<Longrightarrow> \<not> in_page q y) \<Longrightarrow> mem s' y = mem s y"
    using g by (elim conjE) blast
qed

lemma grows_refl: "aspace s lab root \<Longrightarrow> grows s lab s lab root"
  by (auto simp: grows_def aspace_def)

lemma grows_trans:
  assumes 1: "grows s lab s1 lab1 root" and 2: "grows s1 lab1 s2 lab2 root"
  shows "grows s lab s2 lab2 root"
  unfolding grows_def
proof (intro conjI allI impI)
  note d1 = growsD [OF 1] and d2 = growsD [OF 2]
  show "aspace s2 lab2 root" by (rule d2(1))
  show "lab \<subseteq>\<^sub>m lab2" by (rule map_le_trans [OF d1(2) d2(2)])
  show "dom lab2 \<subseteq> dom lab \<union> free_pages s" using d1(3,4) d2(3) by blast
  show "free_pages s2 = free_pages s - dom lab2" using d1(4) d2(4,9) by blast
  have "s2 = s1\<lparr>mem := mem s2, freelist := freelist s2\<rparr>" by (rule d2(5))
  also have "\<dots> = (s\<lparr>mem := mem s1, freelist := freelist s1\<rparr>)\<lparr>mem := mem s2, freelist := freelist s2\<rparr>"
    using d1(5) by metis
  finally show "s2 = s\<lparr>mem := mem s2, freelist := freelist s2\<rparr>" by simp
  show "pte_val l (mem s2) t va = pte_val l (mem s) t va" if "lab t = Some (l, vprefix l va)" for t l va
    using d1(6) [OF that] d2(6) [OF d1(10) [OF that]] by simp
  show "entry (mem s2) t i = entry (mem s) t i"
    if "lab t = Some x" "unat i < 512" "pte_valid (entry (mem s) t i)" for t x i
    using d1(7) [OF that] d2(7) [OF d1(10) [OF that(1)] that(2)] that(3) by simp
  show "mem s2 x = mem s x" if "\<forall>q\<in>dom lab2. \<not> in_page q x" for x
  proof -
    have "mem s2 x = mem s1 x" by (rule d2(8)) (use that in blast)
    also have "\<dots> = mem s x" by (rule d1(8)) (use that d2(9) in blast)
    finally show ?thesis .
  qed
qed

lemma kmem_frame:
  assumes "kmem_ok s" and "\<And>p x. p \<in> free_pages s \<Longrightarrow> in_page p x \<Longrightarrow> m x = mem s x"
  shows "kmem_ok (s\<lparr>mem := m\<rparr>)" and "free_pages (s\<lparr>mem := m\<rparr>) = free_pages s"
proof -
  from assms(1) obtain ps where ps: "free_list s ps" and e: "KERNBASE \<le> kend s" by (auto simp: kmem_ok_def)
  have "linked m (freelist s) ps = linked (mem s) (freelist s) ps"
    by (rule linked_frame) (use assms(2) free_pages_eq [OF ps] in blast)
  then have "free_list (s\<lparr>mem := m\<rparr>) ps" using ps by (simp add: free_list_def)
  then show "kmem_ok (s\<lparr>mem := m\<rparr>)" and "free_pages (s\<lparr>mem := m\<rparr>) = free_pages s"
    using e ps by (auto simp: kmem_ok_def free_pages_eq)
qed

lemma store64_pte:
  assumes "page_aligned t" and "unat i < 512" and "\<not> in_page t x"
  shows "store64 m (pte_addr t i) w x = m x"
proof -
  have "\<not> unat (x - pte_addr t i) < 8"
  proof
    assume "unat (x - pte_addr t i) < 8"
    from pte_addr_in_page [OF assms(1,2) this] assms(3) show False by simp
  qed
  then show ?thesis by (simp add: store64_apply)
qed

lemma free_page_aligned: "kmem_ok s \<Longrightarrow> p \<in> free_pages s \<Longrightarrow> page_aligned p"
  using pages.avail_pool [of s] by (auto simp: heap_pages_def)

lemma walk_alloc_step:
  assumes sp: "aspace s lab root" and t: "lab t = Some (Suc l, vprefix (Suc l) va)"
    and e: "\<not> pte_valid (entry (mem s) t (PX (Suc l) va))" and k: "kalloc s = Ret r s1" and r: "r \<noteq> 0"
  defines "m2 \<equiv> store64 (memset (mem s1) r 0 4096) (pte_addr t (PX (Suc l) va)) (PA2PTE r OR PTE_V)"
  defines "lab' \<equiv> lab(r \<mapsto> (l, vprefix l va))"
  shows "grows s lab (s1\<lparr>mem := m2\<rparr>) lab' root" and "entry m2 t (PX (Suc l) va) = PA2PTE r OR PTE_V"
    and "r \<notin> dom lab" and "page_aligned r"
proof -
  have ok: "pt_ok (mem s) lab root" and km: "kmem_ok s" and dj: "dom lab \<inter> free_pages s = {}"
    using sp by (auto simp: aspace_def)
  obtain m f where s1: "s1 = s\<lparr>freelist := f, mem := m\<rparr>" "kmem_ok s1" "r \<in> free_pages s" "r \<in> heap_pages s"
    "free_pages s1 = free_pages s - {r}" "\<And>x. m x = (if in_page r x then 5 else mem s x)"
    using km k r by (cases rule: kalloc_cases) auto
  show ra: "page_aligned r" using s1(4) by (simp add: heap_pages_def)
  show rn: "r \<notin> dom lab" using s1(3) dj by blast
  have al: "page_aligned t'" if "lab t' = Some x" for t' x using pt_okD(2) [OF ok that] by blast
  have tr: "t' \<noteq> r" if "lab t' = Some x" for t' x using that rn by auto
  have out: "memset (mem s1) r 0 4096 x = mem s x" if "\<not> in_page r x" for x
    using that by (simp add: memset_page s1(1,6))
  have old: "entry (memset (mem s1) r 0 4096) t' i = entry (mem s) t' i" if "lab t' = Some x" "unat i < 512" for t' x i
    by (rule entry_frame [OF al [OF that(1)] that(2)])
      (use out pages_disjoint [OF al [OF that(1)] ra] tr [OF that(1)] in blast)
  have new: "entry m2 t' i' = (if t' = t \<and> i' = PX (Suc l) va then PA2PTE r OR PTE_V else entry (mem s) t' i')"
    if "lab t' = Some x" "unat i' < 512" for t' x i'
    unfolding m2_def using entry_store64 [OF al [OF t] al [OF that(1)] PX_less that(2)] old [OF that] by simp
  show "entry m2 t (PX (Suc l) va) = PA2PTE r OR PTE_V" using new [OF t PX_less] by simp
  have zero: "entry m2 r i' = 0" if "unat i' < 512" for i'
    unfolding m2_def using entry_store64 [OF al [OF t] ra PX_less that] tr [OF t] entry_memset_zero [OF ra that] by simp
  have lab': "lab(r \<mapsto> (l, vprefix (Suc l) va * 512 + unat (PX (Suc l) va))) = lab'"
    using vprefix_step [of l va] by (simp add: lab'_def)
  have add1: "pt_ok m2 lab' root" unfolding lab' [symmetric]
    by (rule add_table(1) [OF ok t PX_less e ra r rn]) (erule (1) new, erule zero)
  have add2: "pte_val l' m2 t' va' = pte_val l' (mem s) t' va'" if "lab t' = Some (l', vprefix l' va')" for t' l' va'
    by (rule add_table(2) [OF ok t PX_less e ra r rn]) (erule (1) new, erule zero, rule that)
  have m2out: "m2 x = mem s x" if "\<not> in_page r x" "\<not> in_page t x" for x
    using store64_pte [OF al [OF t] PX_less that(2)] out [OF that(1)] by (simp add: m2_def)
  have fr: "m2 x = mem s1 x" if q: "q \<in> free_pages s1" "in_page q x" for q x
  proof -
    have "page_aligned q" "q \<noteq> r" "q \<noteq> t"
      using free_page_aligned [OF s1(2) q(1)] q(1) s1(5) dj t by auto
    then have "\<not> in_page r x" "\<not> in_page t x"
      using q(2) pages_disjoint [of q r x] pages_disjoint [of q t x] ra al [OF t] by auto
    then show ?thesis using m2out by (simp add: s1(1,6))
  qed
  have fp: "free_pages (s1\<lparr>mem := m2\<rparr>) = free_pages s1" by (rule kmem_frame(2) [OF s1(2)]) (rule fr)
  have km': "kmem_ok (s1\<lparr>mem := m2\<rparr>)" by (rule kmem_frame(1) [OF s1(2)]) (rule fr)
  show "grows s lab (s1\<lparr>mem := m2\<rparr>) lab' root"
    unfolding grows_def aspace_def
  proof (intro conjI allI impI)
    show "pt_ok (mem (s1\<lparr>mem := m2\<rparr>)) lab' root" using add1 by simp
    show "kmem_ok (s1\<lparr>mem := m2\<rparr>)" by (rule km')
    show "dom lab' \<inter> free_pages (s1\<lparr>mem := m2\<rparr>) = {}" using dj by (auto simp: fp s1(5) lab'_def)
    show "lab \<subseteq>\<^sub>m lab'" using rn by (auto simp: lab'_def map_le_def)
    show "dom lab' \<subseteq> dom lab \<union> free_pages s" using s1(3) by (auto simp: lab'_def)
    show "free_pages (s1\<lparr>mem := m2\<rparr>) = free_pages s - dom lab'" using dj by (auto simp: fp s1(5) lab'_def)
    show "s1\<lparr>mem := m2\<rparr> = s\<lparr>mem := mem (s1\<lparr>mem := m2\<rparr>), freelist := freelist (s1\<lparr>mem := m2\<rparr>)\<rparr>" by (simp add: s1(1))
    show "pte_val l' (mem (s1\<lparr>mem := m2\<rparr>)) t' va' = pte_val l' (mem s) t' va'" if "lab t' = Some (l', vprefix l' va')" for t' l' va'
      using add2 [OF that] by simp
    show "entry (mem (s1\<lparr>mem := m2\<rparr>)) t' i = entry (mem s) t' i"
      if "lab t' = Some x" "unat i < 512" "pte_valid (entry (mem s) t' i)" for t' x i
      using new [OF that(1,2)] e that(3) by auto
    show "mem (s1\<lparr>mem := m2\<rparr>) x = mem s x" if "\<forall>q\<in>dom lab'. \<not> in_page q x" for x
    proof -
      have "\<not> in_page r x" "\<not> in_page t x" using that t rn by (auto simp: lab'_def dom_def)
      then show ?thesis using m2out by simp
    qed
  qed
qed

lemma walk_level_alloc:
  assumes "aspace s lab root" and "lab t = Some (l, vprefix l va)"
  shows "\<exists>a s' lab'. walk_level l t va True s = Ret a s' \<and> grows s lab s' lab' root \<and>
    (a = 0 \<or> a = walk_ro l (mem s') t va \<and> a \<noteq> 0)"
  using assms
proof (induction l arbitrary: t s lab)
  case 0
  have "page_aligned t \<and> t \<noteq> 0" using 0 pt_okD(2) [of "mem s" lab root t] by (simp add: aspace_def)
  then have "pte_addr t (PX 0 va) \<noteq> 0" using pte_addr_nonzero [OF _ _ PX_less] by blast
  moreover have "grows s lab s lab root" using grows_refl [OF 0(1)] .
  ultimately show ?case by auto
next
  case (Suc l)
  let ?i = "PX (Suc l) va"
  let ?e = "entry (mem s) t ?i"
  have ok: "pt_ok (mem s) lab root" and km: "kmem_ok s" using Suc.prems(1) by (auto simp: aspace_def)
  show ?case
  proof (cases "pte_valid ?e")
    case True
    have "lab (PTE2PA ?e) = Some (l, vprefix l va)"
      using pt_okD(3) [OF ok Suc.prems(2) PX_less True] vprefix_step [of l va] by simp
    from Suc.IH [OF Suc.prems(1) this] obtain a s' lab' where
      r: "walk_level l (PTE2PA ?e) va True s = Ret a s'" "grows s lab s' lab' root"
      "a = 0 \<or> a = walk_ro l (mem s') (PTE2PA ?e) va \<and> a \<noteq> 0" by blast
    have "entry (mem s') t ?i = ?e" using growsD(7) [OF r(2) Suc.prems(2) PX_less True] .
    then have "walk_ro (Suc l) (mem s') t va = walk_ro l (mem s') (PTE2PA ?e) va" using True by (simp add: Let_def)
    moreover have "walk_level (Suc l) t va True s = Ret a s'" using True r(1) by (simp add: Let_def entry_def)
    ultimately show ?thesis using r(2,3) by auto
  next
    case False
    show ?thesis
    proof (cases "free_pages s = {}")
      case True
      have "kalloc s = Ret 0 s" using km by (cases rule: kalloc_cases) (use True in auto)
      then have "walk_level (Suc l) t va True s = Ret 0 s" using False by (simp add: Let_def entry_def)
      then show ?thesis using grows_refl [OF Suc.prems(1)] by blast
    next
      case free: False
      obtain r s1 where k: "kalloc s = Ret r s1" "r \<noteq> 0" using km
      proof (cases rule: kalloc_cases)
        case 1
        then show ?thesis using free by simp
      next
        case (2 p m f)
        then show ?thesis using that by blast
      qed
      let ?m2 = "store64 (memset (mem s1) r 0 4096) (pte_addr t ?i) (PA2PTE r OR PTE_V)"
      let ?s2 = "s1\<lparr>mem := ?m2\<rparr>" and ?lab2 = "lab(r \<mapsto> (l, vprefix l va))"
      note st = walk_alloc_step [OF Suc.prems False k]
      have target: "PTE2PA (PA2PTE r OR PTE_V) = r"
        by (rule PTE2PA_PA2PTE [OF st(4)]) (simp add: flag_bits_def)
      have "?lab2 r = Some (l, vprefix l va)" by simp
      from Suc.IH [OF growsD(1) [OF st(1)] this] obtain a s' lab' where
        r: "walk_level l r va True ?s2 = Ret a s'" "grows ?s2 ?lab2 s' lab' root"
        "a = 0 \<or> a = walk_ro l (mem s') r va \<and> a \<noteq> 0" by blast
      have "entry (mem s') t ?i = PA2PTE r OR PTE_V"
        using growsD(7) [OF r(2) growsD(10) [OF st(1) Suc.prems(2)] PX_less [of "Suc l" va]] st(2) table_entry_valid [of r]
        by simp
      then have "walk_ro (Suc l) (mem s') t va = walk_ro l (mem s') r va"
        using target table_entry_valid [of r] by (simp add: Let_def)
      moreover have "walk_level (Suc l) t va True s = Ret a s'"
        using False k r(1) by (simp add: Let_def entry_def)
      ultimately show ?thesis using r(3) grows_trans [OF st(1) r(2)] by auto
    qed
  qed
qed

lemma aspace_root: "aspace s lab root \<Longrightarrow> va < MAXVA \<Longrightarrow> lab root = Some (2, vprefix 2 va)"
  by (simp add: aspace_def pt_ok_def vprefix_root)

text \<open>The entry of a user address; entries are looked up at level 2, the root.\<close>

definition vm_pte :: "'a kmem_state_scheme \<Rightarrow> u64 \<Rightarrow> u64 \<Rightarrow> u64" where
  "vm_pte s root va = pte_val 2 (mem s) root va"

lemma walk_alloc:
  assumes "aspace s lab root" and "va < MAXVA"
  obtains a s' lab' where "walk root va True s = Ret a s'" and "grows s lab s' lab' root"
    and "a = 0 \<or> a = walk_ro 2 (mem s') root va \<and> a \<noteq> 0"
    and "\<And>va'. va' < MAXVA \<Longrightarrow> vm_pte s' root va' = vm_pte s root va'"
proof -
  from walk_level_alloc [OF assms(1) aspace_root [OF assms]] obtain a s' lab' where
    r: "walk_level 2 root va True s = Ret a s'" "grows s lab s' lab' root"
    "a = 0 \<or> a = walk_ro 2 (mem s') root va \<and> a \<noteq> 0" by blast
  then have "walk root va True s = Ret a s'" using assms(2) by (simp add: walk_def not_le)
  moreover have "vm_pte s' root va' = vm_pte s root va'" if "va' < MAXVA" for va'
    using growsD(6) [OF r(2) aspace_root [OF assms(1) that]] by (simp add: vm_pte_def)
  ultimately show ?thesis using that r by blast
qed

section \<open>Mapping and unmapping\<close>

text \<open>\<open>tables s lab s' lab' root\<close>: as \<open>grows\<close>, but leaf entries may have changed.\<close>

definition tables :: "'a kmem_state_scheme \<Rightarrow> (u64 \<Rightarrow> (nat \<times> nat) option) \<Rightarrow>
    'a kmem_state_scheme \<Rightarrow> (u64 \<Rightarrow> (nat \<times> nat) option) \<Rightarrow> u64 \<Rightarrow> bool" where
  "tables s lab s' lab' root \<longleftrightarrow>
     aspace s' lab' root \<and> lab \<subseteq>\<^sub>m lab' \<and> dom lab' \<subseteq> dom lab \<union> free_pages s \<and>
     free_pages s' = free_pages s - dom lab' \<and>
     s' = s\<lparr>mem := mem s', freelist := freelist s'\<rparr> \<and>
     (\<forall>x. (\<forall>q\<in>dom lab'. \<not> in_page q x) \<longrightarrow> mem s' x = mem s x)"

lemma tables_grows: "grows s lab s' lab' root \<Longrightarrow> tables s lab s' lab' root"
  unfolding grows_def tables_def by (elim conjE; intro conjI; assumption)

lemma tablesD:
  assumes "tables s lab s' lab' root"
  shows "aspace s' lab' root" and "lab \<subseteq>\<^sub>m lab'" and "dom lab' \<subseteq> dom lab \<union> free_pages s"
    and "free_pages s' = free_pages s - dom lab'" and "s' = s\<lparr>mem := mem s', freelist := freelist s'\<rparr>"
    and "(\<And>q. q \<in> dom lab' \<Longrightarrow> \<not> in_page q y) \<Longrightarrow> mem s' y = mem s y" and "dom lab \<subseteq> dom lab'"
proof -
  note g = assms [unfolded tables_def]
  show "aspace s' lab' root" using g by (elim conjE)
  show le: "lab \<subseteq>\<^sub>m lab'" using g by (elim conjE)
  show "dom lab' \<subseteq> dom lab \<union> free_pages s" using g by (elim conjE)
  show "free_pages s' = free_pages s - dom lab'" using g by (elim conjE)
  show "s' = s\<lparr>mem := mem s', freelist := freelist s'\<rparr>" using g by (elim conjE)
  show "dom lab \<subseteq> dom lab'" by (rule map_le_implies_dom_le [OF le])
  show "(\<And>q. q \<in> dom lab' \<Longrightarrow> \<not> in_page q y) \<Longrightarrow> mem s' y = mem s y"
    using g by (elim conjE) blast
qed

lemma tables_trans:
  assumes 1: "tables s lab s1 lab1 root" and 2: "tables s1 lab1 s2 lab2 root"
  shows "tables s lab s2 lab2 root"
  unfolding tables_def
proof (intro conjI allI impI)
  note d1 = tablesD [OF 1] and d2 = tablesD [OF 2]
  show "aspace s2 lab2 root" by (rule d2(1))
  show "lab \<subseteq>\<^sub>m lab2" by (rule map_le_trans [OF d1(2) d2(2)])
  show "dom lab2 \<subseteq> dom lab \<union> free_pages s" using d1(3,4) d2(3) by blast
  show "free_pages s2 = free_pages s - dom lab2" using d1(4) d2(4,7) by blast
  have "s2 = s1\<lparr>mem := mem s2, freelist := freelist s2\<rparr>" by (rule d2(5))
  also have "\<dots> = (s\<lparr>mem := mem s1, freelist := freelist s1\<rparr>)\<lparr>mem := mem s2, freelist := freelist s2\<rparr>"
    using d1(5) by metis
  finally show "s2 = s\<lparr>mem := mem s2, freelist := freelist s2\<rparr>" by simp
  show "mem s2 x = mem s x" if "\<forall>q\<in>dom lab2. \<not> in_page q x" for x
  proof -
    have "mem s2 x = mem s1 x" by (rule d2(6)) (use that in blast)
    also have "\<dots> = mem s x" by (rule d1(6)) (use that d2(7) in blast)
    finally show ?thesis .
  qed
qed

lemma set_pte:
  assumes sp: "aspace s lab root" and va: "va < MAXVA" and a: "a = walk_ro 2 (mem s) root va" "a \<noteq> 0"
    and s'_def: "s' = s\<lparr>mem := store64 (mem s) a e\<rparr>"
  shows "tables s lab s' lab root"
    and "\<And>va'. va' < MAXVA \<Longrightarrow> vm_pte s' root va' = (if same_page va va' then e else vm_pte s root va')"
proof -
  have ok: "pt_ok (mem s) lab root" and km: "kmem_ok s" and dj: "dom lab \<inter> free_pages s = {}"
    using sp by (auto simp: aspace_def)
  obtain t0 where t0: "lab t0 = Some (0, vprefix 0 va)" "a = pte_addr t0 (PX 0 va)"
    using walk_ro_lab [OF ok aspace_root [OF sp va]] a by blast
  have al: "page_aligned t0" using pt_okD(2) [OF ok t0(1)] by blast
  have out: "mem s' x = mem s x" if "\<not> in_page t0 x" for x
    using store64_pte [OF al PX_less that] by (simp add: s'_def t0(2))
  have fr: "store64 (mem s) a e x = mem s x" if "q \<in> free_pages s" "in_page q x" for q x
  proof -
    have "q \<noteq> t0" using that(1) dj t0(1) by auto
    then have "\<not> in_page t0 x"
      using pages_disjoint [OF free_page_aligned [OF km that(1)] al that(2)] by blast
    then show ?thesis using out by (simp add: s'_def)
  qed
  have km': "kmem_ok s'" unfolding s'_def by (rule kmem_frame(1) [OF km]) (rule fr)
  have fp: "free_pages s' = free_pages s" unfolding s'_def by (rule kmem_frame(2) [OF km]) (rule fr)
  have m': "mem s' = store64 (mem s) (walk_ro 2 (mem s) root va) e" by (simp add: s'_def a(1))
  note sl = set_leaf [OF ok va a(2) [unfolded a(1)] m']
  show "\<And>va'. va' < MAXVA \<Longrightarrow> vm_pte s' root va' = (if same_page va va' then e else vm_pte s root va')"
    using sl(3) by (simp add: vm_pte_def)
  show "tables s lab s' lab root"
    unfolding tables_def aspace_def
  proof (intro conjI allI impI)
    show "pt_ok (mem s') lab root" by (rule sl(1))
    show "dom lab \<inter> free_pages s' = {}" "free_pages s' = free_pages s - dom lab" using dj fp by auto
    show "s' = s\<lparr>mem := mem s', freelist := freelist s'\<rparr>" by (simp add: s'_def)
    show "mem s' x = mem s x" if "\<forall>q\<in>dom lab. \<not> in_page q x" for x using out that t0(1) by blast
  qed (use km' in auto)
qed

abbreviation (input) vpn :: "u64 \<Rightarrow> nat" where
  "vpn va \<equiv> unat va div 4096"

text \<open>The map after \<open>n\<close> pages from page number \<open>A\<close> on have been mapped to \<open>pa\<close> and following.\<close>

definition map_range :: "nat \<Rightarrow> nat \<Rightarrow> u64 \<Rightarrow> u64 \<Rightarrow> (u64 \<Rightarrow> u64) \<Rightarrow> u64 \<Rightarrow> u64" where
  "map_range A n pa perm f va =
     (if A \<le> vpn va \<and> vpn va < A + n
      then PA2PTE (pa + of_nat (4096 * (vpn va - A))) OR perm OR PTE_V else f va)"

lemma map_range_Cons:
  assumes "\<And>va. va < MAXVA \<Longrightarrow> g va = (if vpn va = A then PA2PTE pa OR perm OR PTE_V else f va)" and "va < MAXVA"
  shows "map_range (Suc A) n (pa + PGSIZE) perm g va = map_range A (Suc n) pa perm f va"
proof (cases "vpn va = A")
  case True
  then show ?thesis using assms by (simp add: map_range_def)
next
  case False
  show ?thesis
  proof (cases "Suc A \<le> vpn va \<and> vpn va < Suc A + n")
    case True
    then have "vpn va - A = Suc (vpn va - Suc A)" by linarith
    then have "of_nat (4096 * (vpn va - A)) = (PGSIZE + of_nat (4096 * (vpn va - Suc A)) :: u64)" by simp
    then show ?thesis using True by (simp add: map_range_def add.assoc)
  next
    case out: False
    then show ?thesis using False assms by (auto simp: map_range_def)
  qed
qed

lemma map_one:
  assumes sp: "aspace s lab root" and a: "a < MAXVA" "\<not> pte_valid (vm_pte s root a)"
  obtains (full) s1 lab1 where "walk root a True s = Ret 0 s1" and "tables s lab s1 lab1 root"
      and "\<And>va. va < MAXVA \<Longrightarrow> vm_pte s1 root va = vm_pte s root va"
  | (mapped) r s1 s2 lab2 where "walk root a True s = Ret r s1" and "r \<noteq> 0"
      and "\<not> pte_valid (load64 (mem s1) r)" and "s2 = s1\<lparr>mem := store64 (mem s1) r e\<rparr>"
      and "tables s lab s2 lab2 root"
      and "\<And>va. va < MAXVA \<Longrightarrow> vm_pte s2 root va = (if vpn va = vpn a then e else vm_pte s root va)"
proof -
  obtain r s1 lab1 where w: "walk root a True s = Ret r s1" "grows s lab s1 lab1 root"
    "r = 0 \<or> r = walk_ro 2 (mem s1) root a \<and> r \<noteq> 0" "\<And>va. va < MAXVA \<Longrightarrow> vm_pte s1 root va = vm_pte s root va"
    using walk_alloc [OF sp a(1)] by blast
  note g = growsD(1) [OF w(2)]
  show ?thesis
  proof (cases "r = 0")
    case True
    then show ?thesis using full w tables_grows by blast
  next
    case False
    then have r: "r = walk_ro 2 (mem s1) root a" using w(3) by blast
    have "load64 (mem s1) r = vm_pte s1 root a"
      using pte_val_walk [of "mem s1" lab1 root root 2 a] g aspace_root [OF g a(1)] False
      by (simp add: vm_pte_def r aspace_def)
    then have inv: "\<not> pte_valid (load64 (mem s1) r)" using w(4) [OF a(1)] a(2) by simp
    note sp2 = set_pte [OF g a(1) r False refl, where e = e]
    show ?thesis
    proof (rule mapped [OF w(1) False inv refl])
      show "tables s lab (s1\<lparr>mem := store64 (mem s1) r e\<rparr>) lab1 root"
        by (rule tables_trans [OF tables_grows [OF w(2)] sp2(1)])
      show "vm_pte (s1\<lparr>mem := store64 (mem s1) r e\<rparr>) root va = (if vpn va = vpn a then e else vm_pte s root va)"
        if "va < MAXVA" for va
        using sp2(2) [OF that] w(4) [OF that] by (auto simp: same_page_def)
    qed
  qed
qed

lemma mappages_loop_spec:
  assumes "aspace s lab root" and "page_aligned a" and "unat a + 4096 * Suc n \<le> 0x4000000000"
    and "\<And>va. va < MAXVA \<Longrightarrow> vpn a \<le> vpn va \<Longrightarrow> vpn va \<le> vpn a + n \<Longrightarrow> \<not> pte_valid (vm_pte s root va)"
  shows "\<exists>r s' lab'. mappages_loop root a (a + of_nat (4096 * n)) pa perm s = Ret r s' \<and> tables s lab s' lab' root \<and>
    (r = 0 \<and> (\<forall>va<MAXVA. vm_pte s' root va = map_range (vpn a) (Suc n) pa perm (vm_pte s root) va) \<or>
     r = - 1 \<and> (\<exists>j\<le>n. \<forall>va<MAXVA. vm_pte s' root va = map_range (vpn a) j pa perm (vm_pte s root) va))"
  using assms
proof (induction n arbitrary: s lab a pa)
  case 0
  have am: "a < MAXVA" using 0(3) by (simp add: word_less_nat_alt)
  have "\<not> pte_valid (vm_pte s root a)" using 0(4) [OF am] by simp
  with 0(1) am show ?case
  proof (cases rule: map_one [where e = "PA2PTE pa OR perm OR PTE_V"])
    case (full s1 lab1)
    then show ?thesis by (auto simp: mappages_loop.simps map_range_def)
  next
    case (mapped r s1 s2 lab2)
    then have "mappages_loop root a a pa perm s = Ret 0 s2" by (simp add: mappages_loop.simps Let_def)
    moreover have "vm_pte s2 root va = map_range (vpn a) (Suc 0) pa perm (vm_pte s root) va" if "va < MAXVA" for va
      using mapped(6) [OF that] by (auto simp: map_range_def)
    ultimately show ?thesis using mapped(5) by auto
  qed
next
  case (Suc n)
  have am: "a < MAXVA" using Suc.prems(3) by (simp add: word_less_nat_alt)
  have nx: "unat (a + PGSIZE) = unat a + 4096" using next_page_below(1) [OF am] .
  have vn: "vpn (a + PGSIZE) = Suc (vpn a)" by (simp add: nx)
  have al: "page_aligned (a + PGSIZE)" using Suc.prems(2) nx by (simp add: page_aligned_nat)
  have lst: "a + PGSIZE + of_nat (4096 * n) = a + of_nat (4096 * Suc n)" by simp
  have ne: "a \<noteq> a + of_nat (4096 * Suc n)"
  proof -
    have "unat (of_nat (4096 * Suc n) :: u64) = 4096 * Suc n"
      using Suc.prems(3) by (simp only: unat_of_nat) simp
    then have "(of_nat (4096 * Suc n) :: u64) \<noteq> 0" by (metis nat.distinct(1) mult_is_0 unat_0 zero_neq_numeral)
    then show ?thesis by simp
  qed
  have "\<not> pte_valid (vm_pte s root a)" using Suc.prems(4) [OF am] by simp
  with Suc.prems(1) am show ?case
  proof (cases rule: map_one [where e = "PA2PTE pa OR perm OR PTE_V"])
    case (full s1 lab1)
    then have "mappages_loop root a (a + of_nat (4096 * Suc n)) pa perm s = Ret (- 1) s1" by (simp add: mappages_loop.simps)
    moreover have "\<forall>va<MAXVA. vm_pte s1 root va = map_range (vpn a) 0 pa perm (vm_pte s root) va"
      using full(3) by (auto simp: map_range_def)
    ultimately show ?thesis using full(2) by blast
  next
    case (mapped r s1 s2 lab2)
    have step: "mappages_loop root a (a + of_nat (4096 * Suc n)) pa perm s
        = mappages_loop root (a + PGSIZE) (a + PGSIZE + of_nat (4096 * n)) (pa + PGSIZE) perm s2"
      using mapped(1-4) ne unfolding lst by (subst mappages_loop.simps) (simp add: Let_def del: of_nat_Suc of_nat_mult)
    have "\<not> pte_valid (vm_pte s2 root va)" if "va < MAXVA" "vpn (a + PGSIZE) \<le> vpn va" "vpn va \<le> vpn (a + PGSIZE) + n" for va
      using mapped(6) [OF that(1)] Suc.prems(4) [OF that(1)] that vn by simp
    from Suc.IH [OF tablesD(1) [OF mapped(5)] al _ this, of "pa + PGSIZE"] Suc.prems(3) nx
    obtain r' s' lab' where r': "mappages_loop root (a + PGSIZE) (a + PGSIZE + of_nat (4096 * n)) (pa + PGSIZE) perm s2 = Ret r' s'"
      "tables s2 lab2 s' lab' root"
      "r' = 0 \<and> (\<forall>va<MAXVA. vm_pte s' root va = map_range (Suc (vpn a)) (Suc n) (pa + PGSIZE) perm (vm_pte s2 root) va) \<or>
       r' = - 1 \<and> (\<exists>j\<le>n. \<forall>va<MAXVA. vm_pte s' root va = map_range (Suc (vpn a)) j (pa + PGSIZE) perm (vm_pte s2 root) va)"
      unfolding vn by auto
    have cons: "map_range (Suc (vpn a)) j (pa + PGSIZE) perm (vm_pte s2 root) va = map_range (vpn a) (Suc j) pa perm (vm_pte s root) va"
      if "va < MAXVA" for j va
      by (rule map_range_Cons [OF mapped(6) that])
    show ?thesis
      using r'(1,3) step cons tables_trans [OF mapped(5) r'(2)] by (metis Suc_le_mono)
  qed
qed

end
