(* ===== verification/Vm_Copy.thy ===== *)
theory Vm_Copy
  imports Vm_Map
begin

text \<open>
  Copies between the kernel and user memory, \<open>copyout\<close> and \<open>copyin\<close> of \<^verbatim>\<open>kernel/vm.c\<close>: for
  every address and length a user program can pass they return, they touch no byte outside the
  pages the program may write, and what one copies out the other reads back.
\<close>

section \<open>User memory\<close>

abbreviation (input) user_pte :: "u64 \<Rightarrow> bool" where
  "user_pte e \<equiv> pte_valid e \<and> e AND PTE_U \<noteq> 0"

abbreviation (input) writable_pte :: "u64 \<Rightarrow> bool" where
  "writable_pte e \<equiv> user_pte e \<and> e AND PTE_W \<noteq> 0"

text \<open>
  A user address space: the tables are well formed, the pages mapped for the user are not null
  and not tables, and no page is mapped at two user addresses.
\<close>

definition user_space :: "'a kmem_state_scheme \<Rightarrow> (u64 \<Rightarrow> (nat \<times> nat) option) \<Rightarrow> u64 \<Rightarrow> bool" where
  "user_space s lab root \<longleftrightarrow>
     pt_ok (mem s) lab root \<and>
     (\<forall>va<MAXVA. user_pte (vm_pte s root va) \<longrightarrow>
        PTE2PA (vm_pte s root va) \<notin> dom lab \<and> PTE2PA (vm_pte s root va) \<noteq> 0) \<and>
     (\<forall>va<MAXVA. \<forall>va'<MAXVA. user_pte (vm_pte s root va) \<longrightarrow> user_pte (vm_pte s root va') \<longrightarrow>
        PTE2PA (vm_pte s root va) = PTE2PA (vm_pte s root va') \<longrightarrow> same_page va va')"

text \<open>The physical address and the byte at a user address.\<close>

definition uaddr :: "'a kmem_state_scheme \<Rightarrow> u64 \<Rightarrow> u64 \<Rightarrow> u64" where
  "uaddr s root va = PTE2PA (vm_pte s root va) + (va - PGROUNDDOWN va)"

definition umem :: "'a kmem_state_scheme \<Rightarrow> u64 \<Rightarrow> u64 \<Rightarrow> u8" where
  "umem s root va = mem s (uaddr s root va)"

lemma PTE2PA_aligned [simp]: "page_aligned (PTE2PA e)"
  by (simp add: page_aligned_bits bit_PTE2PA)

lemma uaddr_in_page: "in_page (PTE2PA (vm_pte s root va)) (uaddr s root va)"
  by (simp add: in_page_def uaddr_def offset_in_page)

lemma vm_pte_same_page: "same_page va va' \<Longrightarrow> vm_pte s root va = vm_pte s root va'"
  by (simp add: vm_pte_def pte_val_same_page)

lemma same_page_down: "same_page (PGROUNDDOWN va) va"
  by (simp add: same_page_def unat_PGROUNDDOWN)

lemma down_below: "va < MAXVA \<longleftrightarrow> PGROUNDDOWN va < MAXVA"
  by (simp add: word_less_nat_alt unat_PGROUNDDOWN) linarith

lemma walk_vm_pte:
  assumes "pt_ok (mem s) lab root" and "va < MAXVA"
  shows "vm_pte s root va = (if walk_ro 2 (mem s) root va = 0 then 0 else load64 (mem s) (walk_ro 2 (mem s) root va))"
  using pte_val_walk [OF assms(1), of root 2 va] pt_okD(1) [OF assms(1)] vprefix_root [OF assms(2)]
  by (simp add: vm_pte_def)

lemma walkaddr_vm_pte:
  assumes "pt_ok (mem s) lab root" and "va < MAXVA"
  shows "walkaddr root va s = Ret (if user_pte (vm_pte s root va) then PTE2PA (vm_pte s root va) else 0) s"
proof -
  have "\<not> MAXVA \<le> va" using assms(2) by (simp only: not_le)
  then show ?thesis using walk_vm_pte [OF assms] assms(2) by (simp add: walkaddr_def walk_False Let_def)
qed

lemma unat_plus_below:
  "unat a + n \<le> 0x4000000000 \<Longrightarrow> i < n \<Longrightarrow> unat (a + of_nat i :: u64) = unat a + i"
  by (simp add: unat_word_ariths unat_of_nat)

lemma below_MAXVA: "unat a + n \<le> 0x4000000000 \<Longrightarrow> i < n \<Longrightarrow> (a + of_nat i :: u64) < MAXVA"
  using unat_plus_below [of a n i] by (simp add: word_less_nat_alt)

text \<open>Bytes of one page.\<close>

lemma uaddr_offset:
  assumes "unat a mod 4096 + i < 4096"
  shows "same_page (a + of_nat i) a" and "uaddr s root (a + of_nat i) = PTE2PA (vm_pte s root a) + (a - PGROUNDDOWN a) + of_nat i"
proof -
  define q r where qr: "q = unat a div 4096" "r = unat a mod 4096"
  have a: "unat a = 4096 * q + r" by (simp add: qr)
  have "q < 2 ^ 52" using unat_less_pow [of a] by (simp add: qr less_mult_imp_div_less)
  moreover have ri: "r + i < 4096" using assms by (simp add: qr)
  ultimately have lt: "unat a + i < 2 ^ 64" unfolding a by simp
  then have u: "unat (a + of_nat i) = unat a + i" by (simp add: unat_word_ariths unat_of_nat)
  have "(unat a + i) div 4096 = q" using ri unfolding a by simp
  then have "(unat a + i) div 4096 = unat a div 4096" by (simp add: qr)
  then show sp: "same_page (a + of_nat i) a" by (simp add: same_page_def u)
  then have "PGROUNDDOWN (a + of_nat i) = PGROUNDDOWN a"
    by (simp add: word_unat_eq_iff unat_PGROUNDDOWN same_page_def)
  then show "uaddr s root (a + of_nat i) = PTE2PA (vm_pte s root a) + (a - PGROUNDDOWN a) + of_nat i"
    by (simp add: uaddr_def vm_pte_same_page [OF sp])
qed

lemma next_piece:
  assumes "piece a n < n"
  shows "PGROUNDDOWN a + PGSIZE = a + of_nat (piece a n)"
proof -
  have k: "piece a n = 4096 - unat a mod 4096" using assms by (auto simp: piece_eq)
  have "a - PGROUNDDOWN a = of_nat (unat a mod 4096)"
    by (simp add: word_unat_eq_iff offset_in_page unat_of_nat)
  then have a: "PGROUNDDOWN a + of_nat (unat a mod 4096) = a" by (simp add: algebra_simps)
  have "unat a mod 4096 + piece a n = 4096" unfolding k by simp
  then have "PGROUNDDOWN a + PGSIZE = PGROUNDDOWN a + of_nat (unat a mod 4096 + piece a n)" by simp
  also have "\<dots> = (PGROUNDDOWN a + of_nat (unat a mod 4096)) + of_nat (piece a n)" by (simp only: of_nat_add add.assoc)
  finally show ?thesis unfolding a .
qed

lemma piece_le: "piece a n \<le> n" "i < piece a n \<Longrightarrow> unat a mod 4096 + i < 4096"
  by (auto simp: piece_eq)

section \<open>Reading\<close>

lemma copyin_user:
  assumes ok: "pt_ok (mem s) lab root"
    and "unat a + n \<le> 0x4000000000"
    and "\<And>i. i < n \<Longrightarrow> user_pte (vm_pte s root (a + of_nat i)) \<and> PTE2PA (vm_pte s root (a + of_nat i)) \<noteq> 0"
  shows "copyin root a n s = Ret (0, map (\<lambda>i. umem s root (a + of_nat i)) [0..<n]) s"
  using assms(2,3)
proof (induction n arbitrary: a rule: less_induct)
  case (less n a)
  show ?case
  proof (cases "n = 0")
    case True
    then show ?thesis by (simp add: copyin.simps)
  next
    case False
    let ?k = "piece a n" and ?va = "PGROUNDDOWN a" and ?e = "vm_pte s root a"
    have k: "0 < ?k" "?k \<le> n" using False by (simp_all add: piece_pos piece_le)
    have a: "a < MAXVA" using below_MAXVA [OF less.prems(1), of 0] False by simp
    have pte: "vm_pte s root ?va = ?e" by (rule vm_pte_same_page [OF same_page_down])
    have e: "user_pte ?e" "PTE2PA ?e \<noteq> 0" using less.prems(2) [of 0] False by auto
    have va: "?va < MAXVA" using a down_below by blast
    have w: "walkaddr root ?va s = Ret (PTE2PA ?e) s"
      using walkaddr_vm_pte [OF ok va] e(1) unfolding pte by simp
    have bs: "load_bytes (mem s) (PTE2PA ?e + (a - ?va)) ?k = map (\<lambda>i. umem s root (a + of_nat i)) [0..<?k]"
      by (rule nth_equalityI) (simp_all add: umem_def uaddr_offset(2) [OF piece_le(2) [where n = n]])
    have rest: "copyin root (?va + PGSIZE) (n - ?k) s = Ret (0, map (\<lambda>i. umem s root (a + of_nat i)) [?k..<n]) s"
    proof (cases "?k < n")
      case True
      have nx: "?va + PGSIZE = a + of_nat ?k" by (rule next_piece [OF True])
      have u: "unat (a + of_nat ?k) = unat a + ?k" by (rule unat_plus_below [OF less.prems(1) True])
      have "copyin root (a + of_nat ?k) (n - ?k) s = Ret (0, map (\<lambda>i. umem s root (a + of_nat ?k + of_nat i)) [0..<n - ?k]) s"
      proof (rule less.IH)
        show "n - ?k < n" using k False by simp
        show "unat (a + of_nat ?k) + (n - ?k) \<le> 0x4000000000" using less.prems(1) u k by simp
        show "user_pte (vm_pte s root (a + of_nat ?k + of_nat i)) \<and> PTE2PA (vm_pte s root (a + of_nat ?k + of_nat i)) \<noteq> 0"
          if "i < n - ?k" for i using less.prems(2) [of "?k + i"] that by (simp add: add.assoc)
      qed
      moreover have "map (\<lambda>i. umem s root (a + of_nat ?k + of_nat i)) [0..<n - ?k] = map (\<lambda>i. umem s root (a + of_nat i)) [?k..<n]"
        by (rule nth_equalityI) (auto simp: add.assoc)
      ultimately show ?thesis unfolding nx by simp
    next
      case False
      then show ?thesis using k by (simp add: copyin.simps)
    qed
    have "[0..<n] = [0..<?k] @ [?k..<n]" using k upt_add_eq_append [of 0 ?k "n - ?k"] by simp
    then show ?thesis using False w e(2) bs rest by (simp add: copyin.simps [of root a n] Let_def)
  qed
qed

section \<open>Writing\<close>

text \<open>Memory writes inside the user's pages leave the tables, and so the address space, as they are.\<close>

lemma user_space_write:
  assumes us: "user_space s lab root" and e: "va < MAXVA" "user_pte (vm_pte s root va)"
    and out: "\<And>x. \<not> in_page (PTE2PA (vm_pte s root va)) x \<Longrightarrow> m x = mem s x"
  shows "user_space (s\<lparr>mem := m\<rparr>) lab root" and "\<And>v. v < MAXVA \<Longrightarrow> vm_pte (s\<lparr>mem := m\<rparr>) root v = vm_pte s root v"
    and "\<And>v. v < MAXVA \<Longrightarrow> uaddr (s\<lparr>mem := m\<rparr>) root v = uaddr s root v"
proof -
  let ?p = "PTE2PA (vm_pte s root va)"
  have ok: "pt_ok (mem s) lab root" and np: "?p \<notin> dom lab" using us e by (auto simp: user_space_def)
  have same: "m x = mem s x" if "t \<in> dom lab" "in_page t x" for t x
  proof (rule out)
    have "page_aligned t" using that(1) pt_okD(2) [OF ok] by auto
    then show "\<not> in_page ?p x" using pages_disjoint [OF _ PTE2PA_aligned that(2)] np that(1) by blast
  qed
  note fr = pt_frame [OF ok, of m, OF same]
  show v: "vm_pte (s\<lparr>mem := m\<rparr>) root v = vm_pte s root v" if "v < MAXVA" for v
    using fr(2) [where t = root and l = 2 and va = v] pt_okD(1) [OF ok] vprefix_root [OF that] by (simp add: vm_pte_def)
  then show "\<And>v. v < MAXVA \<Longrightarrow> uaddr (s\<lparr>mem := m\<rparr>) root v = uaddr s root v" by (simp add: uaddr_def)
  show "user_space (s\<lparr>mem := m\<rparr>) lab root" using us fr(1) v unfolding user_space_def by auto
qed

lemma uaddr_inj:
  assumes us: "user_space s lab root" and "va < MAXVA" "user_pte (vm_pte s root va)"
    and "va' < MAXVA" "user_pte (vm_pte s root va')" and eq: "uaddr s root va = uaddr s root va'"
  shows "va = va'"
proof -
  have "in_page (PTE2PA (vm_pte s root va')) (uaddr s root va)"
    using uaddr_in_page [of s root va'] eq by simp
  then have "PTE2PA (vm_pte s root va) = PTE2PA (vm_pte s root va')"
    by (rule pages_disjoint [OF PTE2PA_aligned PTE2PA_aligned uaddr_in_page])
  then have sp: "same_page va va'" using us assms by (simp add: user_space_def)
  then have "PGROUNDDOWN va = PGROUNDDOWN va'" by (simp add: word_unat_eq_iff unat_PGROUNDDOWN same_page_def)
  then show ?thesis using eq unfolding uaddr_def vm_pte_same_page [OF sp] by simp
qed

lemma copyout_step:
  assumes ok: "pt_ok (mem s) lab root" and ne: "src \<noteq> []"
  shows "copyout root a src s =
    (if a < MAXVA \<and> writable_pte (vm_pte s root a)
     then copyout root (PGROUNDDOWN a + PGSIZE) (drop (piece a (length src)) src)
            (s\<lparr>mem := store_bytes (mem s) (uaddr s root a) (take (piece a (length src)) src)\<rparr>)
     else Ret (- 1) s)"
proof (cases "a < MAXVA")
  case True
  then have va: "PGROUNDDOWN a < MAXVA" using down_below by blast
  have pte: "vm_pte s root a = vm_pte s root (PGROUNDDOWN a)" by (rule vm_pte_same_page [OF same_page_down, symmetric])
  have "\<not> MAXVA \<le> PGROUNDDOWN a" using va by (simp only: not_le)
  moreover have "PTE2PA (vm_pte s root (PGROUNDDOWN a)) + (a - PGROUNDDOWN a) = uaddr s root a"
    by (simp add: uaddr_def pte)
  ultimately show ?thesis
    using True ne walk_vm_pte [OF ok va] va unfolding pte
    by (subst copyout.simps) (auto simp: walk_False Let_def)
next
  case False
  then have "\<not> PGROUNDDOWN a < MAXVA" using down_below by blast
  then have "MAXVA \<le> PGROUNDDOWN a" by (simp only: not_less)
  then show ?thesis using False ne by (simp add: copyout.simps)
qed

lemma store_piece:
  fixes s :: "'a kmem_state_scheme"
  assumes "unat a mod 4096 + length bs \<le> 4096" and m_def: "m = store_bytes (mem s) (uaddr s root a) bs"
  shows "\<And>x. \<not> in_page (PTE2PA (vm_pte s root a)) x \<Longrightarrow> m x = mem s x"
    and "\<And>i. i < length bs \<Longrightarrow> m (uaddr s root (a + of_nat i)) = bs ! i"
    and "\<And>x. (\<And>i. i < length bs \<Longrightarrow> x \<noteq> uaddr s root (a + of_nat i)) \<Longrightarrow> m x = mem s x"
proof -
  let ?b = "uaddr s root a"
  have off: "uaddr s root (a + of_nat i) = ?b + of_nat i" if "i < length bs" for i
    using uaddr_offset(2) [of a i s root] assms(1) that by (simp add: uaddr_def)
  have ap: "m x = (if unat (x - ?b) < length bs then bs ! unat (x - ?b) else mem s x)" for x
    using assms(1) by (simp add: m_def store_bytes_apply)
  show "m (uaddr s root (a + of_nat i)) = bs ! i" if "i < length bs" for i
    using that assms(1) by (simp add: ap off unat_of_nat)
  show 3: "m x = mem s x" if "\<And>i. i < length bs \<Longrightarrow> x \<noteq> uaddr s root (a + of_nat i)" for x
  proof (rule ccontr)
    assume "m x \<noteq> mem s x"
    then have lt: "unat (x - ?b) < length bs" by (auto simp: ap split: if_splits)
    then show False using that [OF lt] off [OF lt] by simp
  qed
  show "m x = mem s x" if "\<not> in_page (PTE2PA (vm_pte s root a)) x" for x
  proof (rule 3)
    fix i assume i: "i < length bs"
    then have "same_page (a + of_nat i) a" using uaddr_offset(1) [of a i] assms(1) by simp
    then show "x \<noteq> uaddr s root (a + of_nat i)"
      using that uaddr_in_page [of s root "a + of_nat i"] vm_pte_same_page by metis
  qed
qed

text \<open>
  C16: No system call argument makes the kernel write outside the caller's memory: for every
  destination address and length, \<open>copyout\<close> returns 0 or -1 without a panic, and every byte of
  physical memory it changes lies in a page that the page table maps valid, user-accessible and writable.
\<close>

theorem copyout_stays_in_user_memory:
  assumes "user_space s lab root"
  shows "\<exists>r m. copyout root dstva src s = Ret r (s\<lparr>mem := m\<rparr>) \<and> (r = 0 \<or> r = - 1) \<and>
    (\<forall>x. m x \<noteq> mem s x \<longrightarrow>
       (\<exists>va<MAXVA. writable_pte (vm_pte s root va) \<and> in_page (PTE2PA (vm_pte s root va)) x))"
  using assms
proof (induction "length src" arbitrary: s dstva src rule: less_induct)
  case (less src s dstva)
  have ok: "pt_ok (mem s) lab root" using less.prems by (simp add: user_space_def)
  let ?k = "piece dstva (length src)" and ?e = "vm_pte s root dstva"
  show ?case
  proof (cases "src \<noteq> [] \<and> dstva < MAXVA \<and> writable_pte ?e")
    case False
    then have "copyout root dstva src s = Ret (if src = [] then 0 else - 1) s"
      using copyout_step [OF ok, of src dstva] by (auto simp: copyout.simps [of root dstva "[]"])
    then show ?thesis by (intro exI [of _ "if src = [] then 0 else - 1"] exI [of _ "mem s"]) simp
  next
    case True
    define m1 where "m1 = store_bytes (mem s) (uaddr s root dstva) (take ?k src)"
    define s1 where "s1 = s\<lparr>mem := m1\<rparr>"
    have k: "0 < ?k" using True by (simp add: piece_pos)
    have "unat dstva mod 4096 + length (take ?k src) \<le> 4096" by (auto simp: piece_eq)
    note st = store_piece(1) [OF this m1_def]
    have us: "user_space s1 lab root" unfolding s1_def
      by (rule user_space_write(1) [OF less.prems, of dstva]) (use True st in auto)
    have v: "vm_pte s1 root va = vm_pte s root va" if "va < MAXVA" for va unfolding s1_def
      by (rule user_space_write(2) [OF less.prems, of dstva]) (use True st that in auto)
    have "length (drop ?k src) < length src" using True k by simp
    from less.hyps [OF this us] obtain r m where
      r: "copyout root (PGROUNDDOWN dstva + PGSIZE) (drop ?k src) s1 = Ret r (s1\<lparr>mem := m\<rparr>)" "r = 0 \<or> r = - 1"
      "\<forall>x. m x \<noteq> mem s1 x \<longrightarrow> (\<exists>va<MAXVA. writable_pte (vm_pte s1 root va) \<and> in_page (PTE2PA (vm_pte s1 root va)) x)"
      by blast
    have "copyout root dstva src s = Ret r (s\<lparr>mem := m\<rparr>)"
      using copyout_step [OF ok, of src dstva] True r(1) by (simp add: s1_def m1_def)
    moreover have "\<exists>va<MAXVA. writable_pte (vm_pte s root va) \<and> in_page (PTE2PA (vm_pte s root va)) x"
      if "m x \<noteq> mem s x" for x
    proof (cases "m x = m1 x")
      case same: True
      then have "in_page (PTE2PA ?e) x" using st [of x] that by auto
      then show ?thesis using True by blast
    next
      case False
      then obtain va where "va < MAXVA" "writable_pte (vm_pte s1 root va) \<and> in_page (PTE2PA (vm_pte s1 root va)) x"
        using r(3) by (auto simp: s1_def)
      then show ?thesis using v [of va] by auto
    qed
    ultimately show ?thesis using r(2) by blast
  qed
qed

lemma copyout_user:
  assumes us: "user_space s lab root" and le: "unat a + length src \<le> 0x4000000000"
    and wr: "\<And>i. i < length src \<Longrightarrow> writable_pte (vm_pte s root (a + of_nat i))"
  shows "\<exists>m. copyout root a src s = Ret 0 (s\<lparr>mem := m\<rparr>) \<and>
    (\<forall>i < length src. m (uaddr s root (a + of_nat i)) = src ! i) \<and>
    (\<forall>x. (\<forall>i < length src. x \<noteq> uaddr s root (a + of_nat i)) \<longrightarrow> m x = mem s x)"
  using assms
proof (induction "length src" arbitrary: s a src rule: less_induct)
  case (less src s a)
  have ok: "pt_ok (mem s) lab root" using less.prems(1) by (simp add: user_space_def)
  show ?case
  proof (cases "src = []")
    case True
    then show ?thesis by (intro exI [of _ "mem s"]) (simp add: copyout.simps)
  next
    case False
    let ?n = "length src" and ?k = "piece a (length src)"
    have k: "0 < ?k" "?k \<le> ?n" using False by (simp_all add: piece_pos piece_le)
    have am: "a < MAXVA" using below_MAXVA [OF less.prems(2), of 0] False by simp
    have we: "writable_pte (vm_pte s root a)" using less.prems(3) [of 0] False by simp
    define m1 where "m1 = store_bytes (mem s) (uaddr s root a) (take ?k src)"
    define s1 where "s1 = s\<lparr>mem := m1\<rparr>"
    have "unat a mod 4096 + length (take ?k src) \<le> 4096" by (auto simp: piece_eq)
    note st = store_piece [OF this m1_def]
    have us1: "user_space s1 lab root" unfolding s1_def
      by (rule user_space_write(1) [OF less.prems(1), of a]) (use am we st(1) in auto)
    have v: "vm_pte s1 root va = vm_pte s root va" "uaddr s1 root va = uaddr s root va" if "va < MAXVA" for va
      unfolding s1_def
      by (rule user_space_write(2,3) [OF less.prems(1), of a]; use am we st(1) that in auto)+
    have bel: "a + of_nat i < MAXVA" if "i < ?n" for i by (rule below_MAXVA [OF less.prems(2) that])
    have "\<exists>m. copyout root (PGROUNDDOWN a + PGSIZE) (drop ?k src) s1 = Ret 0 (s1\<lparr>mem := m\<rparr>) \<and>
      (\<forall>i < ?n - ?k. m (uaddr s root (a + of_nat (?k + i))) = src ! (?k + i)) \<and>
      (\<forall>x. (\<forall>i < ?n - ?k. x \<noteq> uaddr s root (a + of_nat (?k + i))) \<longrightarrow> m x = m1 x)"
    proof (cases "?k < ?n")
      case True
      have nx: "PGROUNDDOWN a + PGSIZE = a + of_nat ?k" by (rule next_piece [OF True])
      have u: "unat (a + of_nat ?k) = unat a + ?k" by (rule unat_plus_below [OF less.prems(2) True])
      have e: "a + of_nat ?k + of_nat i = a + of_nat (?k + i)" for i by (simp add: add.assoc)
      have "\<exists>m. copyout root (a + of_nat ?k) (drop ?k src) s1 = Ret 0 (s1\<lparr>mem := m\<rparr>) \<and>
        (\<forall>i < length (drop ?k src). m (uaddr s1 root (a + of_nat ?k + of_nat i)) = drop ?k src ! i) \<and>
        (\<forall>x. (\<forall>i < length (drop ?k src). x \<noteq> uaddr s1 root (a + of_nat ?k + of_nat i)) \<longrightarrow> m x = mem s1 x)"
      proof (rule less.hyps [OF _ us1])
        show "length (drop ?k src) < ?n" using k by simp
        show "unat (a + of_nat ?k) + length (drop ?k src) \<le> 0x4000000000" using u less.prems(2) k by simp
        show "writable_pte (vm_pte s1 root (a + of_nat ?k + of_nat i))" if "i < length (drop ?k src)" for i
          unfolding e using less.prems(3) [of "?k + i"] v(1) bel [of "?k + i"] that by simp
      qed
      moreover have "uaddr s1 root (a + of_nat (?k + i)) = uaddr s root (a + of_nat (?k + i))" if "i < ?n - ?k" for i
        by (rule v(2), rule bel) (use that in simp)
      ultimately show ?thesis unfolding nx e by (simp add: s1_def del: of_nat_add cong: conj_cong)
    next
      case False
      then show ?thesis using k by (intro exI [of _ m1]) (simp add: copyout.simps s1_def)
    qed
    then obtain m where m: "copyout root (PGROUNDDOWN a + PGSIZE) (drop ?k src) s1 = Ret 0 (s1\<lparr>mem := m\<rparr>)"
      "\<And>i. i < ?n - ?k \<Longrightarrow> m (uaddr s root (a + of_nat (?k + i))) = src ! (?k + i)"
      "\<And>x. (\<And>i. i < ?n - ?k \<Longrightarrow> x \<noteq> uaddr s root (a + of_nat (?k + i))) \<Longrightarrow> m x = m1 x" by blast
    have inj: "uaddr s root (a + of_nat i) \<noteq> uaddr s root (a + of_nat j)" if "i < ?n" "j < ?n" "i \<noteq> j" for i j
      using uaddr_inj [OF less.prems(1) bel _ bel _, of i j] less.prems(3) that
        unat_plus_below [OF less.prems(2), of i] unat_plus_below [OF less.prems(2), of j] by fastforce
    have "copyout root a src s = Ret 0 (s\<lparr>mem := m\<rparr>)"
      using copyout_step [OF ok False, of a] am we m(1) by (simp add: s1_def m1_def)
    moreover have "m (uaddr s root (a + of_nat i)) = src ! i" if "i < ?n" for i
    proof (cases "i < ?k")
      case True
      have "m (uaddr s root (a + of_nat i)) = m1 (uaddr s root (a + of_nat i))"
        by (rule m(3), rule inj) (use that True k in auto)
      then show ?thesis using st(2) [of i] True k by simp
    next
      case False
      then show ?thesis using m(2) [of "i - ?k"] that by simp
    qed
    moreover have "m x = mem s x" if "\<And>i. i < ?n \<Longrightarrow> x \<noteq> uaddr s root (a + of_nat i)" for x
    proof -
      have "m x = m1 x" by (rule m(3), rule that) (use k in auto)
      also have "\<dots> = mem s x" by (rule st(3)) (use that k in auto)
      finally show ?thesis .
    qed
    ultimately show ?thesis by blast
  qed
qed

text \<open>
  C17: What the kernel copies out to user memory is what it reads back: if the user's pages from
  \<open>a\<close> on are writable, \<open>copyout\<close> succeeds, \<open>copyin\<close> of the same range then returns exactly the
  bytes, and every byte of memory that is not one of the destination bytes keeps its value.
\<close>

theorem copyout_copyin_roundtrip:
  assumes us: "user_space s lab root" and le: "unat a + length src \<le> 0x4000000000"
    and wr: "\<forall>i < length src. writable_pte (vm_pte s root (a + of_nat i))"
  shows "\<exists>m. copyout root a src s = Ret 0 (s\<lparr>mem := m\<rparr>) \<and>
    copyin root a (length src) (s\<lparr>mem := m\<rparr>) = Ret (0, src) (s\<lparr>mem := m\<rparr>) \<and>
    (\<forall>x. (\<forall>i < length src. x \<noteq> uaddr s root (a + of_nat i)) \<longrightarrow> m x = mem s x)"
proof -
  obtain m where m: "copyout root a src s = Ret 0 (s\<lparr>mem := m\<rparr>)"
    "\<And>i. i < length src \<Longrightarrow> m (uaddr s root (a + of_nat i)) = src ! i"
    "\<And>x. (\<And>i. i < length src \<Longrightarrow> x \<noteq> uaddr s root (a + of_nat i)) \<Longrightarrow> m x = mem s x"
    using copyout_user [OF us le] wr by blast
  let ?s = "s\<lparr>mem := m\<rparr>"
  have ok: "pt_ok (mem s) lab root" using us by (simp add: user_space_def)
  have bel: "a + of_nat i < MAXVA" if "i < length src" for i by (rule below_MAXVA [OF le that])
  have same: "m x = mem s x" if t: "t \<in> dom lab" "in_page t x" for t x
  proof (rule m(3))
    fix i assume i: "i < length src"
    have "PTE2PA (vm_pte s root (a + of_nat i)) \<notin> dom lab" using us bel [OF i] wr i by (simp add: user_space_def)
    then show "x \<noteq> uaddr s root (a + of_nat i)"
      using pages_disjoint [OF _ PTE2PA_aligned t(2)] pt_okD(2) [OF ok] t(1) uaddr_in_page by fastforce
  qed
  note fr = pt_frame [OF ok, of m, OF same]
  have v: "vm_pte ?s root va = vm_pte s root va" if "va < MAXVA" for va
    using fr(2) [where t = root and l = 2 and va = va] pt_okD(1) [OF ok] vprefix_root [OF that] by (simp add: vm_pte_def)
  have "copyin root a (length src) ?s = Ret (0, map (\<lambda>i. umem ?s root (a + of_nat i)) [0..<length src]) ?s"
  proof (rule copyin_user [OF _ le])
    show "pt_ok (mem ?s) lab root" using fr(1) by simp
    show "user_pte (vm_pte ?s root (a + of_nat i)) \<and> PTE2PA (vm_pte ?s root (a + of_nat i)) \<noteq> 0" if "i < length src" for i
      using us wr bel [OF that] that by (simp add: v user_space_def)
  qed
  moreover have "map (\<lambda>i. umem ?s root (a + of_nat i)) [0..<length src] = src"
    by (rule nth_equalityI) (use m(2) v bel in \<open>simp_all add: umem_def uaddr_def\<close>)
  ultimately show ?thesis using m(1,3) by auto
qed

section \<open>An example address space\<close>

text \<open>
  Three page-table pages and one user page at address 0, readable and writable by the user, for
  the concrete instances of the theorems.
\<close>

definition ex_mem :: memory where
  "ex_mem = store64 (store64 (store64 (\<lambda>_. 0) (pte_addr 0x80001000 0) (PA2PTE 0x80002000 OR PTE_V))
     (pte_addr 0x80002000 0) (PA2PTE 0x80003000 OR PTE_V))
     (pte_addr 0x80003000 0) (PA2PTE 0x80004000 OR 0x17)"

definition ex_lab :: "u64 \<Rightarrow> (nat \<times> nat) option" where
  "ex_lab = [0x80001000 \<mapsto> (2, 0), 0x80002000 \<mapsto> (1, 0), 0x80003000 \<mapsto> (0, 0)]"

lemma entry_zero [simp]: "entry (\<lambda>_. 0) t i = 0"
  by (simp add: entry_def load64_def load_bytes_def eval_nat_numeral)

lemma ex_entry:
  assumes "unat i < 512"
  shows "entry ex_mem 0x80001000 i = (if i = 0 then PA2PTE 0x80002000 OR PTE_V else 0)"
    and "entry ex_mem 0x80002000 i = (if i = 0 then PA2PTE 0x80003000 OR PTE_V else 0)"
    and "entry ex_mem 0x80003000 i = (if i = 0 then PA2PTE 0x80004000 OR 0x17 else 0)"
  unfolding ex_mem_def using assms
  by (simp_all add: entry_store64 page_aligned_def)

lemma ex_PTE2PA:
  "PTE2PA (PA2PTE 0x80002000 OR PTE_V) = 0x80002000" "PTE2PA (PA2PTE 0x80003000 OR PTE_V) = 0x80003000"
  "PTE2PA (PA2PTE 0x80004000 OR 0x17) = 0x80004000"
  by (simp_all add: PTE2PA_def PA2PTE_def)

lemma ex_pt_ok: "pt_ok ex_mem ex_lab 0x80001000"
  by (auto simp: pt_ok_def ex_lab_def ex_entry page_aligned_def ex_PTE2PA simp del: One_nat_def split: if_splits)

lemma ex_vm_pte:
  assumes m: "mem s = ex_mem" and va: "va < MAXVA"
  shows "vm_pte s 0x80001000 va = (if unat va < 4096 then PA2PTE 0x80004000 OR 0x17 else 0)"
proof -
  have v: "pte_valid (PA2PTE 0x80002000 OR PTE_V)" "pte_valid (PA2PTE 0x80003000 OR PTE_V)" "\<not> pte_valid 0"
    by (simp_all add: table_entry_valid)
  have "vm_pte s 0x80001000 va =
      (if PX 2 va = 0 \<and> PX 1 va = 0 \<and> PX 0 va = 0 then PA2PTE 0x80004000 OR 0x17 else 0)"
    using v by (simp add: vm_pte_def m numeral_2_eq_2 Let_def ex_entry PX_less ex_PTE2PA)
  also have "(PX 2 va = 0 \<and> PX 1 va = 0 \<and> PX 0 va = 0) \<longleftrightarrow> unat va < 4096"
  proof
    assume "PX 2 va = 0 \<and> PX 1 va = 0 \<and> PX 0 va = 0"
    then have "unat va = unat va mod 4096" using unat_va_PX [OF va] by simp
    then show "unat va < 4096" using mod_less_divisor [of 4096 "unat va"] by linarith
  next
    assume "unat va < 4096"
    then have "PX l va = PX l 0" for l by (intro PX_same_page) (simp add: same_page_def)
    moreover have "PX l 0 = 0" for l by (simp add: PX_def)
    ultimately show "PX 2 va = 0 \<and> PX 1 va = 0 \<and> PX 0 va = 0" by simp
  qed
  finally show ?thesis .
qed

lemma ex_user_space:
  assumes m: "mem s = ex_mem"
  shows "user_space s ex_lab 0x80001000"
    and "va < MAXVA \<Longrightarrow> unat va < 4096 \<Longrightarrow> writable_pte (vm_pte s 0x80001000 va)"
proof -
  have f: "pte_valid (PA2PTE 0x80004000 OR 0x17)" "(PA2PTE 0x80004000 OR 0x17) AND PTE_U \<noteq> 0"
    "(PA2PTE 0x80004000 OR 0x17) AND PTE_W \<noteq> 0" by (simp_all add: PA2PTE_def)
  show "user_space s ex_lab 0x80001000"
    using f ex_pt_ok
    by (auto simp: user_space_def m ex_vm_pte [OF m] ex_PTE2PA same_page_def ex_lab_def [THEN fun_cong] split: if_splits)
  show "writable_pte (vm_pte s 0x80001000 va)" if "va < MAXVA" "unat va < 4096"
    using f that by (simp add: ex_vm_pte [OF m])
qed

definition ex_state :: kmem_state where
  "ex_state = \<lparr>mem = ex_mem, freelist = 0, kend = 0x80001000\<rparr>"

theorem copyout_stays_in_user_memory_witness:
  "\<exists>r m. copyout 0x80001000 4094 [1, 2, 3] ex_state = Ret r (ex_state\<lparr>mem := m\<rparr>) \<and> (r = 0 \<or> r = - 1) \<and>
     (\<forall>x. m x \<noteq> ex_mem x \<longrightarrow> in_page 0x80004000 x)"
proof -
  have m: "mem ex_state = ex_mem" by (simp add: ex_state_def)
  obtain r m where r: "copyout 0x80001000 4094 [1, 2, 3] ex_state = Ret r (ex_state\<lparr>mem := m\<rparr>)" "r = 0 \<or> r = - 1"
    and p: "m x \<noteq> ex_mem x \<Longrightarrow> \<exists>va<MAXVA. writable_pte (vm_pte ex_state 0x80001000 va) \<and>
      in_page (PTE2PA (vm_pte ex_state 0x80001000 va)) x" for x
    using copyout_stays_in_user_memory [OF ex_user_space(1) [OF m], of 4094 "[1, 2, 3]"] m by auto
  have "in_page 0x80004000 x" if "m x \<noteq> ex_mem x" for x
    using p [OF that] by (auto simp: ex_vm_pte [OF m] ex_PTE2PA split: if_splits)
  then show ?thesis using r by blast
qed

theorem copyout_copyin_roundtrip_witness:
  "\<exists>m. copyout 0x80001000 4 [1, 2, 3] ex_state = Ret 0 (ex_state\<lparr>mem := m\<rparr>) \<and>
    copyin 0x80001000 4 3 (ex_state\<lparr>mem := m\<rparr>) = Ret (0, [1, 2, 3]) (ex_state\<lparr>mem := m\<rparr>)"
proof -
  have m: "mem ex_state = ex_mem" by (simp add: ex_state_def)
  have u: "unat (4 :: u64) = 4" by simp
  have w: "writable_pte (vm_pte ex_state 0x80001000 (4 + of_nat i))" if "i < 3" for i
  proof (rule ex_user_space(2) [OF m])
    show "(4 :: u64) + of_nat i < MAXVA" by (rule below_MAXVA [of _ 3]) (use that in simp_all)
    have "unat ((4 :: u64) + of_nat i) = 4 + i" using unat_plus_below [of 4 3 i] that u by simp
    then show "unat ((4 :: u64) + of_nat i) < 4096" using that by simp
  qed
  have "\<exists>m. copyout 0x80001000 4 [1, 2, 3] ex_state = Ret 0 (ex_state\<lparr>mem := m\<rparr>) \<and>
    copyin 0x80001000 4 (length [1, 2, 3 :: u8]) (ex_state\<lparr>mem := m\<rparr>) = Ret (0, [1, 2, 3]) (ex_state\<lparr>mem := m\<rparr>) \<and>
    (\<forall>x. (\<forall>i < length [1, 2, 3 :: u8]. x \<noteq> uaddr ex_state 0x80001000 (4 + of_nat i)) \<longrightarrow> m x = mem ex_state x)"
    by (rule copyout_copyin_roundtrip [OF ex_user_space(1) [OF m]]) (use w in auto)
  moreover have "length [1, 2, 3 :: u8] = 3" by simp
  ultimately show ?thesis by (simp only:) blast
qed

end
