(* ===== verification/Pipe.thy ===== *)
theory Pipe
  imports Console Vm_Copy
begin

text \<open>
  Pipes, \<^verbatim>\<open>kernel/pipe.c\<close> (all but \<open>pipealloc\<close>, which needs the file table and is in theory
  \<open>File\<close>). A pipe is a \<open>struct pipe\<close> at the start of a page from \<open>kalloc\<close>; \<open>pipes\<close> gives the
  structure at each page address. Its buffer is a ring with free-running 32-bit counters.
\<close>

section \<open>Model\<close>

abbreviation (input) PIPESIZE :: nat where "PIPESIZE \<equiv> 512"

record pipe =
  pi_data :: "nat \<Rightarrow> u8"
  pi_nread :: u32
  pi_nwrite :: u32
  pi_readopen :: bool
  pi_writeopen :: bool

record pipe_state = cons_state +
  pipes :: "u64 \<Rightarrow> pipe"

definition upd_pipe :: "u64 \<Rightarrow> (pipe \<Rightarrow> pipe) \<Rightarrow> 'a pipe_state_scheme \<Rightarrow> 'a pipe_state_scheme" where
  "upd_pipe pi f s = s\<lparr>pipes := (pipes s)(pi := f (pipes s pi))\<rparr>"

definition pipe_put :: "u8 \<Rightarrow> pipe \<Rightarrow> pipe" where
  "pipe_put c p = p\<lparr>pi_data := (pi_data p)(unat (pi_nwrite p) mod PIPESIZE := c), pi_nwrite := pi_nwrite p + 1\<rparr>"

definition pipe_get :: "pipe \<Rightarrow> u8 \<times> pipe" where
  "pipe_get p = (pi_data p (unat (pi_nread p) mod PIPESIZE), p\<lparr>pi_nread := pi_nread p + 1\<rparr>)"

definition pipe_full :: "pipe \<Rightarrow> bool" where
  "pipe_full p \<longleftrightarrow> pi_nwrite p = pi_nread p + of_nat PIPESIZE"

definition pipe_empty :: "pipe \<Rightarrow> bool" where
  "pipe_empty p \<longleftrightarrow> pi_nread p = pi_nwrite p"

definition pipeclose :: "u64 \<Rightarrow> bool \<Rightarrow> ('a pipe_state_scheme, unit) M" where
  "pipeclose pi writable s =
     (let s1 = (if writable
                then wakeup (Chan_pipe_read pi) (upd_pipe pi (\<lambda>p. p\<lparr>pi_writeopen := False\<rparr>) s)
                else wakeup (Chan_pipe_write pi) (upd_pipe pi (\<lambda>p. p\<lparr>pi_readopen := False\<rparr>) s)) in
      if \<not> pi_readopen (pipes s1 pi) \<and> \<not> pi_writeopen (pipes s1 pi) then kfree pi s1 else Ret () s1)"

text \<open>\<open>k\<close> is the number of bytes still to be written, \<open>i\<close> the number written.\<close>

fun pipewrite_loop :: "u64 \<Rightarrow> u64 \<Rightarrow> nat \<Rightarrow> nat \<Rightarrow> ('a pipe_state_scheme, int) M" where
  "pipewrite_loop pi addr i 0 s = Ret (int i) (wakeup (Chan_pipe_read pi) s)"
| "pipewrite_loop pi addr i (Suc k) s =
     (if \<not> pi_readopen (pipes s pi) \<or> p_killed (myproc s) \<noteq> 0 then Ret (- 1) s
      else if pipe_full (pipes s pi) then Block (Chan_pipe_write pi) (wakeup (Chan_pipe_read pi) s)
      else bindM (copyin (p_pagetable (myproc s)) (addr + of_nat i) 1) (\<lambda>(r, ch) s.
        if r = - 1 then Ret (int i) (wakeup (Chan_pipe_read pi) s)
        else pipewrite_loop pi addr (Suc i) k (upd_pipe pi (pipe_put (ch ! 0)) s)) s)"

definition pipewrite :: "u64 \<Rightarrow> u64 \<Rightarrow> int \<Rightarrow> ('a pipe_state_scheme, int) M" where
  "pipewrite pi addr n = pipewrite_loop pi addr 0 (nat n)"

fun piperead_loop :: "u64 \<Rightarrow> u64 \<Rightarrow> nat \<Rightarrow> nat \<Rightarrow> ('a pipe_state_scheme, int) M" where
  "piperead_loop pi addr i 0 s = Ret (int i) s"
| "piperead_loop pi addr i (Suc k) s =
     (if pipe_empty (pipes s pi) then Ret (int i) s
      else let (ch, p) = pipe_get (pipes s pi) in
        bindM (copyout (p_pagetable (myproc s)) (addr + of_nat i) [ch]) (\<lambda>r.
          if r = - 1 then retM (int i) else piperead_loop pi addr (Suc i) k)
        (upd_pipe pi (\<lambda>_. p) s))"

definition piperead :: "u64 \<Rightarrow> u64 \<Rightarrow> int \<Rightarrow> ('a pipe_state_scheme, int) M" where
  "piperead pi addr n s =
     (if pipe_empty (pipes s pi) \<and> pi_writeopen (pipes s pi)
      then (if p_killed (myproc s) \<noteq> 0 then Ret (- 1) s else Block (Chan_pipe_read pi) s)
      else bindM (piperead_loop pi addr 0 (nat n)) (\<lambda>i. thenM (modM (wakeup (Chan_pipe_write pi))) (retM i)) s)"

section \<open>The buffer is a queue\<close>

definition pipe_bytes :: "pipe \<Rightarrow> u8 list" where
  "pipe_bytes p = ring_contents PIPESIZE (pi_data p) (pi_nread p) (pi_nwrite p)"

definition pipe_ok :: "pipe \<Rightarrow> bool" where
  "pipe_ok p \<longleftrightarrow> unat (pi_nwrite p - pi_nread p) \<le> PIPESIZE"

lemma pipe_full_iff: "pipe_full p \<longleftrightarrow> unat (pi_nwrite p - pi_nread p) = PIPESIZE"
proof -
  have "pi_nwrite p = pi_nread p + 512 \<longleftrightarrow> pi_nwrite p - pi_nread p = 512" by (auto simp: algebra_simps)
  also have "\<dots> \<longleftrightarrow> unat (pi_nwrite p - pi_nread p) = 512" by (simp add: word_unat_eq_iff)
  finally show ?thesis by (simp add: pipe_full_def)
qed

interpretation pipeq: fifo pipe_put pipe_get pipe_full pipe_empty pipe_bytes PIPESIZE pipe_ok
proof
  fix p :: pipe and c
  assume ok: "pipe_ok p"
  show "pipe_full p \<longleftrightarrow> length (pipe_bytes p) = PIPESIZE" by (simp add: pipe_full_iff pipe_bytes_def)
  show "pipe_empty p \<longleftrightarrow> pipe_bytes p = []" by (simp add: pipe_empty_def pipe_bytes_def ring_empty_iff)
  show "length (pipe_bytes p) \<le> PIPESIZE" using ok by (simp add: pipe_ok_def pipe_bytes_def)
  show "pipe_ok (pipe_put c p) \<and> pipe_bytes (pipe_put c p) = pipe_bytes p @ [c]" if "\<not> pipe_full p"
  proof -
    have "unat (pi_nwrite p - pi_nread p) < 512" using ok that by (simp add: pipe_ok_def pipe_full_iff)
    then show ?thesis
      using ring_put [of 512 "pi_nwrite p" "pi_nread p"] by (simp add: pipe_ok_def pipe_bytes_def pipe_put_def)
  qed
  show "pipe_ok (snd (pipe_get p)) \<and> pipe_bytes p = fst (pipe_get p) # pipe_bytes (snd (pipe_get p))"
    if "\<not> pipe_empty p"
  proof -
    have ne: "pi_nread p \<noteq> pi_nwrite p" using that by (simp add: pipe_empty_def)
    show ?thesis using ok ring_get [OF ne, of 512 "pi_data p"] ring_get_length [OF ne]
      by (simp add: pipe_ok_def pipe_bytes_def pipe_get_def)
  qed
qed



section \<open>Writers and readers\<close>

text \<open>The \<open>n\<close> bytes a process sees at user address \<open>a\<close>, and that the kernel can read them.\<close>

definition ubytes :: "'a kmem_state_scheme \<Rightarrow> u64 \<Rightarrow> u64 \<Rightarrow> nat \<Rightarrow> u8 list" where
  "ubytes s root a n = map (\<lambda>i. umem s root (a + of_nat i)) [0..<n]"

definition ureadable :: "'a kmem_state_scheme \<Rightarrow> u64 \<Rightarrow> u64 \<Rightarrow> nat \<Rightarrow> bool" where
  "ureadable s root a n \<longleftrightarrow> unat a + n \<le> 0x4000000000 \<and>
     (\<forall>i<n. user_pte (vm_pte s root (a + of_nat i)) \<and> PTE2PA (vm_pte s root (a + of_nat i)) \<noteq> 0)"

lemma ubytes_mem: "mem s = mem t \<Longrightarrow> ubytes s root a n = ubytes t root a n"
  by (simp add: ubytes_def umem_def uaddr_def vm_pte_def)

lemma ureadable_mem: "mem s = mem t \<Longrightarrow> ureadable s root a n = ureadable t root a n"
  by (simp add: ureadable_def vm_pte_def)

lemma copyin_byte:
  assumes ok: "pt_ok (mem s) lab root" and rd: "ureadable s root a n" and i: "i < n"
  shows "copyin root (a + of_nat i) 1 s = Ret (0, [ubytes s root a n ! i]) s"
proof -
  have "copyin root (a + of_nat i) 1 s = Ret (0, map (\<lambda>j. umem s root (a + of_nat i + of_nat j)) [0..<1]) s"
    by (rule copyin_user [OF ok]) (use rd i unat_plus_below [of a n i] in \<open>auto simp: ureadable_def\<close>)
  then show ?thesis using i by (simp add: ubytes_def)
qed

lemma pipewrite_loop_appends:
  assumes "pipe_ok (pipes s pi)" and "pi_readopen (pipes s pi)" and "p_killed (myproc s) = 0"
    and "length (pipe_bytes (pipes s pi)) + k \<le> PIPESIZE"
    and "pt_ok (mem s) lab (p_pagetable (myproc s))" and "ureadable s (p_pagetable (myproc s)) addr (i + k)"
  shows "\<exists>p. pipewrite_loop pi addr i k s =
      Ret (int (i + k)) (wakeup (Chan_pipe_read pi) (s\<lparr>pipes := (pipes s)(pi := p)\<rparr>)) \<and>
    pipe_ok p \<and> pipe_bytes p = pipe_bytes (pipes s pi) @ drop i (ubytes s (p_pagetable (myproc s)) addr (i + k))"
  using assms
proof (induction k arbitrary: s i)
  case 0
  then show ?case by (intro exI [of _ "pipes s pi"]) (simp add: ubytes_def)
next
  case (Suc k)
  let ?u = "ubytes s (p_pagetable (myproc s)) addr (i + Suc k)"
  have nf: "\<not> pipe_full (pipes s pi)" using Suc.prems(1,4) pipeq.full_iff by auto
  note put = pipeq.put_law [OF Suc.prems(1) nf, of "?u ! i"]
  have c: "copyin (p_pagetable (myproc s)) (addr + of_nat i) 1 s = Ret (0, [?u ! i]) s"
    by (rule copyin_byte [OF Suc.prems(5,6)]) simp
  define s1 where "s1 = upd_pipe pi (pipe_put (?u ! i)) s"
  have same: "mem s1 = mem s" "myproc s1 = myproc s" by (simp_all add: s1_def upd_pipe_def myproc_def)
  have "\<exists>p. pipewrite_loop pi addr (Suc i) k s1 =
      Ret (int (Suc i + k)) (wakeup (Chan_pipe_read pi) (s1\<lparr>pipes := (pipes s1)(pi := p)\<rparr>)) \<and>
    pipe_ok p \<and> pipe_bytes p = pipe_bytes (pipes s1 pi) @ drop (Suc i) (ubytes s1 (p_pagetable (myproc s1)) addr (Suc i + k))"
    by (rule Suc.IH)
      (use Suc.prems put same ureadable_mem [OF same(1)] in \<open>auto simp: s1_def upd_pipe_def pipe_put_def\<close>)
  then obtain p where p: "pipewrite_loop pi addr (Suc i) k s1 =
      Ret (int (Suc i + k)) (wakeup (Chan_pipe_read pi) (s1\<lparr>pipes := (pipes s1)(pi := p)\<rparr>))"
    "pipe_ok p" "pipe_bytes p = pipe_bytes (pipes s pi) @ ?u ! i # drop (Suc i) ?u"
    using put ubytes_mem [OF same(1)] same by (auto simp: s1_def upd_pipe_def)
  have "?u ! i # drop (Suc i) ?u = drop i ?u" by (rule Cons_nth_drop_Suc) (simp add: ubytes_def)
  moreover have "pipewrite_loop pi addr i (Suc k) s = pipewrite_loop pi addr (Suc i) k s1"
    using Suc.prems(2,3) nf c by (simp add: s1_def)
  moreover have "s1\<lparr>pipes := (pipes s1)(pi := p)\<rparr> = s\<lparr>pipes := (pipes s)(pi := p)\<rparr>" by (simp add: s1_def upd_pipe_def)
  ultimately show ?case using p by (intro exI [of _ p]) (simp add: fun_upd_def)
qed

text \<open>
  C23: While a reader is open and the buffer has room for \<open>n\<close> bytes, \<open>pipewrite\<close> of \<open>n\<close> readable
  bytes of the caller's memory returns \<open>n\<close>, puts exactly these bytes behind the bytes already in the
  pipe, and touches nothing else but the readers it wakes.
\<close>

theorem pipewrite_appends:
  assumes "pipe_ok (pipes s pi)" and "pi_readopen (pipes s pi)" and "p_killed (myproc s) = 0"
    and "length (pipe_bytes (pipes s pi)) + n \<le> PIPESIZE"
    and "pt_ok (mem s) lab (p_pagetable (myproc s))" and "ureadable s (p_pagetable (myproc s)) addr n"
  shows "\<exists>p. pipewrite pi addr (int n) s =
      Ret (int n) (wakeup (Chan_pipe_read pi) (s\<lparr>pipes := (pipes s)(pi := p)\<rparr>)) \<and>
    pipe_ok p \<and> pipe_bytes p = pipe_bytes (pipes s pi) @ ubytes s (p_pagetable (myproc s)) addr n"
  using pipewrite_loop_appends [of s pi n lab addr 0] assms by (simp add: pipewrite_def)

definition pipe_boot :: pipe_state where
  "pipe_boot = cons_state.extend (cons_boot\<lparr>mem := ex_mem, procs := (\<lambda>_. zero_proc\<lparr>p_pagetable := 0x80001000\<rparr>)\<rparr>)
     \<lparr>pipes = (\<lambda>_. \<lparr>pi_data = (\<lambda>_. 0), pi_nread = 0, pi_nwrite = 0, pi_readopen = True, pi_writeopen = True\<rparr>)\<rparr>"

lemma pipe_boot_fields [simp]:
  "mem pipe_boot = ex_mem" "p_pagetable (myproc pipe_boot) = 0x80001000" "p_killed (myproc pipe_boot) = 0"
  "pipes pipe_boot pi = \<lparr>pi_data = (\<lambda>_. 0), pi_nread = 0, pi_nwrite = 0, pi_readopen = True, pi_writeopen = True\<rparr>"
  by (simp_all add: pipe_boot_def cons_state.defs myproc_def zero_proc_def)

lemma ex_ureadable:
  assumes m: "mem s = ex_mem" and le: "n \<le> 4096"
  shows "ureadable s 0x80001000 0 n"
proof -
  have "user_pte (vm_pte s 0x80001000 (of_nat i)) \<and> PTE2PA (vm_pte s 0x80001000 (of_nat i)) \<noteq> 0" if "i < n" for i
  proof -
    have u: "unat (of_nat i :: u64) = i" using that le by (simp add: unat_of_nat)
    then have va: "(of_nat i :: u64) < MAXVA" using that le by (simp add: word_less_nat_alt)
    show ?thesis using ex_user_space [OF m] va u that le by (simp add: user_space_def)
  qed
  then show ?thesis using le by (simp add: ureadable_def)
qed

theorem pipewrite_appends_witness:
  "\<exists>p. pipewrite 0x80005000 0 3 pipe_boot =
      Ret 3 (wakeup (Chan_pipe_read 0x80005000) (pipe_boot\<lparr>pipes := (pipes pipe_boot)(0x80005000 := p)\<rparr>)) \<and>
    pipe_ok p \<and> pipe_bytes p = ubytes pipe_boot 0x80001000 0 3"
proof -
  have "pipe_bytes (pipes pipe_boot 0x80005000) = []" "pipe_ok (pipes pipe_boot 0x80005000)"
    by (simp_all add: pipe_bytes_def pipe_ok_def)
  then show ?thesis
    using pipewrite_appends [of pipe_boot "0x80005000" 3 ex_lab 0] ex_pt_ok ex_ureadable [of pipe_boot 3] by simp
qed

end
