(* ===== verification/File.thy ===== *)
theory File
  imports Pipe
begin

text \<open>
  Open files, \<^verbatim>\<open>kernel/file.c\<close>, and \<open>pipealloc\<close> of \<^verbatim>\<open>kernel/pipe.c\<close>, which allocates two of them. A
  \<open>struct file *\<close> is an index of the file table; its reference count is the only thing that says
  whether an entry is in use.
\<close>

section \<open>Model\<close>

datatype fdtype = FD_NONE | FD_PIPE | FD_INODE | FD_DEVICE

record open_file =
  f_type :: fdtype
  f_ref :: int
  f_readable :: bool
  f_writable :: bool
  f_pipe :: u64
  f_ip :: nat
  f_off :: u32
  f_major :: u16

text \<open>
  \<open>stack_pad\<close> is what the kernel stack holds at the four padding bytes of the local
  \<open>struct stat\<close> of \<open>filestat\<close>.
\<close>

record file_state = pipe_state +
  ftable :: "nat \<Rightarrow> open_file"
  stack_pad :: "u8 list"

definition upd_file :: "nat \<Rightarrow> (open_file \<Rightarrow> open_file) \<Rightarrow> 'a file_state_scheme \<Rightarrow> 'a file_state_scheme" where
  "upd_file f g s = s\<lparr>ftable := (ftable s)(f := g (ftable s f))\<rparr>"

definition filealloc :: "('a file_state_scheme, nat option) M" where
  "filealloc s =
     (case first_index (\<lambda>f. f_ref (ftable s f) = 0) NFILE of
        Some f \<Rightarrow> Ret (Some f) (upd_file f (\<lambda>x. x\<lparr>f_ref := 1\<rparr>) s)
      | None \<Rightarrow> Ret None s)"

definition filedup :: "nat \<Rightarrow> ('a file_state_scheme, nat) M" where
  "filedup f s =
     (if f_ref (ftable s f) < 1 then Panic ''filedup''
      else Ret f (upd_file f (\<lambda>x. x\<lparr>f_ref := f_ref x + 1\<rparr>) s))"

definition fileclose :: "nat \<Rightarrow> ('a file_state_scheme, unit) M" where
  "fileclose f s =
     (if f_ref (ftable s f) < 1 then Panic ''fileclose''
      else let s1 = upd_file f (\<lambda>x. x\<lparr>f_ref := f_ref x - 1\<rparr>) s in
        if f_ref (ftable s1 f) > 0 then Ret () s1
        else let ff = ftable s1 f; s2 = upd_file f (\<lambda>x. x\<lparr>f_ref := 0, f_type := FD_NONE\<rparr>) s1 in
          (case f_type ff of
             FD_PIPE \<Rightarrow> pipeclose (f_pipe ff) (f_writable ff) s2
           | FD_INODE \<Rightarrow> thenM begin_op (thenM (iput (f_ip ff)) end_op) s2
           | FD_DEVICE \<Rightarrow> thenM begin_op (thenM (iput (f_ip ff)) end_op) s2
           | FD_NONE \<Rightarrow> Ret () s2))"

definition stat_bytes :: "stat \<Rightarrow> u8 list \<Rightarrow> u8 list" where
  "stat_bytes st pad =
     bytes_of 4 (st_dev st) @ bytes_of 4 (st_ino st) @ bytes_of 2 (st_type st) @ bytes_of 2 (st_nlink st) @
     take 4 pad @ bytes_of 8 (st_size st)"

definition filestat :: "nat \<Rightarrow> u64 \<Rightarrow> ('a file_state_scheme, int) M" where
  "filestat f addr s =
     (if f_type (ftable s f) = FD_INODE \<or> f_type (ftable s f) = FD_DEVICE
      then let ip = f_ip (ftable s f) in
        thenM (ilock ip) (\<lambda>s.
          let st = stati ip s in
          thenM (iunlock ip) (\<lambda>s.
            bindM (copyout (p_pagetable (myproc s)) addr (stat_bytes st (stack_pad s))) (\<lambda>r.
              retM (if r < 0 then - 1 else 0)) s) s) s
      else Ret (- 1) s)"

definition device_of :: "nat \<Rightarrow> 'a file_state_scheme \<Rightarrow> device option" where
  "device_of f s =
     (let m = sint (f_major (ftable s f)) in if m < 0 \<or> m \<ge> int NDEV then None else devsw s (nat m))"

definition fileread :: "nat \<Rightarrow> u64 \<Rightarrow> int \<Rightarrow> ('a file_state_scheme, int) M" where
  "fileread f addr n s =
     (let x = ftable s f in
      if \<not> f_readable x then Ret (- 1) s
      else case f_type x of
        FD_PIPE \<Rightarrow> piperead (f_pipe x) addr n s
      | FD_DEVICE \<Rightarrow>
          (case device_of f s of
             None \<Rightarrow> Ret (- 1) s
           | Some Console_dev \<Rightarrow> bindM (consoleread (User_dst addr) n) (\<lambda>(r, _). retM r) s)
      | FD_INODE \<Rightarrow>
          thenM (ilock (f_ip x)) (\<lambda>s.
          bindM (readi (f_ip x) (User_dst addr) (f_off (ftable s f)) (of_int n)) (\<lambda>(r, _).
          thenM (whenM (r > 0) (modM (upd_file f (\<lambda>x. x\<lparr>f_off := f_off x + of_int r\<rparr>))))
         (thenM (iunlock (f_ip x)) (retM r))) s) s
      | FD_NONE \<Rightarrow> Panic ''fileread'')"

text \<open>The number of bytes \<open>filewrite\<close> passes to one transaction: \<open>((MAXOPBLOCKS-1-1-2) / 2) * BSIZE\<close>.\<close>

definition filewrite_max :: int where
  "filewrite_max = (int MAXOPBLOCKS - 1 - 1 - 2) div 2 * int BSIZE"

lemma filewrite_max_eq [simp]: "filewrite_max = 3072"
  by (simp add: filewrite_max_def)

function filewrite_loop :: "nat \<Rightarrow> u64 \<Rightarrow> int \<Rightarrow> int \<Rightarrow> ('a file_state_scheme, int) M" where
  "filewrite_loop f addr n i s =
     (if i < n
      then let n1 = (if n - i > filewrite_max then filewrite_max else n - i); ip = f_ip (ftable s f) in
        thenM begin_op (thenM (ilock ip) (\<lambda>s.
          bindM (writei ip (User_src (addr + of_int i)) (f_off (ftable s f)) (of_int n1)) (\<lambda>r.
          thenM (whenM (r > 0) (modM (upd_file f (\<lambda>x. x\<lparr>f_off := f_off x + of_int r\<rparr>))))
         (thenM (iunlock ip)
         (bindM end_op (\<lambda>_ s.
            if r \<noteq> n1 then Ret i s else filewrite_loop f addr n (i + n1) s)))) s)) s
      else Ret i s)"
  by pat_completeness auto
termination
  by (relation "measure (\<lambda>(f, addr, n, i, s). nat (n - i))") auto

declare filewrite_loop.simps [simp del]

definition filewrite :: "nat \<Rightarrow> u64 \<Rightarrow> int \<Rightarrow> ('a file_state_scheme, int) M" where
  "filewrite f addr n s =
     (let x = ftable s f in
      if \<not> f_writable x then Ret (- 1) s
      else case f_type x of
        FD_PIPE \<Rightarrow> pipewrite (f_pipe x) addr n s
      | FD_DEVICE \<Rightarrow>
          (case device_of f s of
             None \<Rightarrow> Ret (- 1) s
           | Some Console_dev \<Rightarrow> consolewrite (User_src addr) n s)
      | FD_INODE \<Rightarrow> bindM (filewrite_loop f addr n 0) (\<lambda>i. retM (if i = n then n else - 1)) s
      | FD_NONE \<Rightarrow> Panic ''filewrite'')"

text \<open>
  \<open>pipealloc\<close>: the two files it stores through its arguments, or \<open>None\<close> for -1. The page comes
  from \<open>kalloc\<close>, which has filled it with the byte 5.
\<close>

definition pipe_file :: "bool \<Rightarrow> u64 \<Rightarrow> open_file \<Rightarrow> open_file" where
  "pipe_file writable pi x =
     x\<lparr>f_type := FD_PIPE, f_readable := \<not> writable, f_writable := writable, f_pipe := pi\<rparr>"

definition pipealloc :: "('a file_state_scheme, (nat \<times> nat) option) M" where
  "pipealloc =
     bindM filealloc (\<lambda>f0. case f0 of
       None \<Rightarrow> retM None
     | Some f0 \<Rightarrow>
       bindM filealloc (\<lambda>f1. case f1 of
         None \<Rightarrow> thenM (fileclose f0) (retM None)
       | Some f1 \<Rightarrow>
         bindM kalloc (\<lambda>pi.
           if pi = 0 then thenM (fileclose f0) (thenM (fileclose f1) (retM None))
           else
             thenM (modM (upd_pipe pi (\<lambda>_. \<lparr>pi_data = (\<lambda>_. 5), pi_nread = 0, pi_nwrite = 0,
                                            pi_readopen = True, pi_writeopen = True\<rparr>)))
            (thenM (modM (upd_file f0 (pipe_file False pi)))
            (thenM (modM (upd_file f1 (pipe_file True pi))) (retM (Some (f0, f1))))))))"

section \<open>Reference counts\<close>

text \<open>An entry of the table that nobody refers to has no type, so closing it would release nothing.\<close>

definition ftable_ok :: "'a file_state_scheme \<Rightarrow> bool" where
  "ftable_ok s \<longleftrightarrow> (\<forall>f<NFILE. 0 \<le> f_ref (ftable s f) \<and> (f_ref (ftable s f) = 0 \<longrightarrow> f_type (ftable s f) = FD_NONE))"

definition file_boot :: file_state where
  "file_boot = pipe_state.extend pipe_boot
     \<lparr>ftable = (\<lambda>_. \<lparr>f_type = FD_NONE, f_ref = 0, f_readable = False, f_writable = False, f_pipe = 0, f_ip = 0,
        f_off = 0, f_major = 0\<rparr>), stack_pad = [0, 0, 0, 0]\<rparr>"

end
