(* ===== verification/Proc.thy ===== *)
theory Proc
  imports File
begin

text \<open>
  Processes, \<^verbatim>\<open>kernel/proc.c\<close>: creation, memory growth, \<open>fork\<close>, \<open>exit\<close>, \<open>wait\<close>, \<open>kill\<close>. Each
  function is what one process does while no other changes the table under it; switching between
  processes is in theory \<open>Sched\<close>. A sleep is a \<open>Block\<close>, and so is the end of \<open>exit\<close>, where the
  process enters the scheduler for the last time.
\<close>

section \<open>Trap frames\<close>

text \<open>The fields of \<open>struct trapframe\<close>, by name, and their offsets.\<close>

datatype tf_field =
    TF_kernel_satp | TF_kernel_sp | TF_kernel_trap | TF_epc | TF_kernel_hartid
  | TF_ra | TF_sp | TF_gp | TF_tp | TF_t nat | TF_s nat | TF_a nat

fun tf_off :: "tf_field \<Rightarrow> u64" where
  "tf_off TF_kernel_satp = 0"
| "tf_off TF_kernel_sp = 8"
| "tf_off TF_kernel_trap = 16"
| "tf_off TF_epc = 24"
| "tf_off TF_kernel_hartid = 32"
| "tf_off TF_ra = 40"
| "tf_off TF_sp = 48"
| "tf_off TF_gp = 56"
| "tf_off TF_tp = 64"
| "tf_off (TF_t i) = (if i < 3 then 72 + 8 * of_nat i else 256 + 8 * of_nat (i - 3))"
| "tf_off (TF_s i) = (if i < 2 then 96 + 8 * of_nat i else 176 + 8 * of_nat (i - 2))"
| "tf_off (TF_a i) = 112 + 8 * of_nat i"

definition get_tf :: "proc \<Rightarrow> tf_field \<Rightarrow> 'a kmem_state_scheme \<Rightarrow> u64" where
  "get_tf p r s = load64 (mem s) (p_trapframe p + tf_off r)"

definition set_tf :: "proc \<Rightarrow> tf_field \<Rightarrow> u64 \<Rightarrow> 'a kmem_state_scheme \<Rightarrow> 'a kmem_state_scheme" where
  "set_tf p r v s = s\<lparr>mem := store64 (mem s) (p_trapframe p + tf_off r) v\<rparr>"

section \<open>Process table\<close>

text \<open>\<open>forkret_addr\<close> is the address of \<open>forkret\<close>, \<open>first\<close> its static variable.\<close>

record kproc_state = file_state +
  forkret_addr :: u64
  first :: bool

definition procinit :: "('a kproc_state_scheme, unit) M" where
  "procinit =
     eachM (\<lambda>i. modM (upd_proc i (\<lambda>p. p\<lparr>p_state := UNUSED, p_kstack := KSTACK i\<rparr>))) [0..<NPROC]"

definition allocpid :: "('a proc_state_scheme, int) M" where
  "allocpid s = Ret (nextpid s) (s\<lparr>nextpid := nextpid s + 1\<rparr>)"

definition proc_pagetable :: "nat \<Rightarrow> ('a proc_state_scheme, u64) M" where
  "proc_pagetable i =
     bindM uvmcreate (\<lambda>pagetable.
       if pagetable = 0 then retM 0
       else bindM (\<lambda>s. mappages pagetable TRAMPOLINE PGSIZE (trampoline s) (PTE_R OR PTE_X) s) (\<lambda>r.
         if r < 0 then thenM (uvmfree pagetable 0) (retM 0)
         else bindM (\<lambda>s. mappages pagetable TRAPFRAME PGSIZE (p_trapframe (procs s i)) (PTE_R OR PTE_W) s) (\<lambda>r.
           if r < 0
           then thenM (uvmunmap pagetable TRAMPOLINE 1 False) (thenM (uvmfree pagetable 0) (retM 0))
           else retM pagetable)))"

definition proc_freepagetable :: "u64 \<Rightarrow> u64 \<Rightarrow> ('a kmem_state_scheme, unit) M" where
  "proc_freepagetable pagetable sz =
     thenM (uvmunmap pagetable TRAMPOLINE 1 False)
    (thenM (uvmunmap pagetable TRAPFRAME 1 False) (uvmfree pagetable sz))"

definition freeproc :: "nat \<Rightarrow> ('a proc_state_scheme, unit) M" where
  "freeproc i s =
     thenM (whenM (p_trapframe (procs s i) \<noteq> 0) (kfree (p_trapframe (procs s i))))
    (thenM (modM (upd_proc i (\<lambda>p. p\<lparr>p_trapframe := 0\<rparr>)))
    (thenM (whenM (p_pagetable (procs s i) \<noteq> 0) (proc_freepagetable (p_pagetable (procs s i)) (p_sz (procs s i))))
       (modM (upd_proc i (\<lambda>p. p\<lparr>p_pagetable := 0, p_sz := 0, p_pid := 0, p_parent := None,
          p_name := (p_name p)[0 := 0], p_chan := Chan_none, p_killed := 0, p_xstate := 0, p_state := UNUSED\<rparr>))))) s"

definition allocproc :: "('a kproc_state_scheme, nat option) M" where
  "allocproc s =
     (case first_index (\<lambda>i. p_state (procs s i) = UNUSED) NPROC of
        None \<Rightarrow> Ret None s
      | Some i \<Rightarrow>
          bindM allocpid (\<lambda>pid.
          thenM (modM (upd_proc i (\<lambda>p. p\<lparr>p_pid := pid, p_state := USED\<rparr>)))
         (bindM kalloc (\<lambda>tf.
          thenM (modM (upd_proc i (\<lambda>p. p\<lparr>p_trapframe := tf\<rparr>)))
         (if tf = 0 then thenM (freeproc i) (retM None)
          else bindM (proc_pagetable i) (\<lambda>pt.
            thenM (modM (upd_proc i (\<lambda>p. p\<lparr>p_pagetable := pt\<rparr>)))
           (if pt = 0 then thenM (freeproc i) (retM None)
            else thenM (modM (\<lambda>s. upd_proc i (\<lambda>p. p\<lparr>p_context :=
                   \<lparr>c_ra = forkret_addr s, c_sp = p_kstack p + PGSIZE, c_s = (\<lambda>_. 0)\<rparr>\<rparr>) s))
                (retM (Some i)))))))) s)"

definition initcode :: "u8 list" where
  "initcode =
     [0x17, 0x05, 0x00, 0x00, 0x13, 0x05, 0x45, 0x02,
      0x97, 0x05, 0x00, 0x00, 0x93, 0x85, 0x35, 0x02,
      0x93, 0x08, 0x70, 0x00, 0x73, 0x00, 0x00, 0x00,
      0x93, 0x08, 0x20, 0x00, 0x73, 0x00, 0x00, 0x00,
      0xef, 0xf0, 0x9f, 0xff, 0x2f, 0x69, 0x6e, 0x69,
      0x74, 0x00, 0x00, 0x24, 0x00, 0x00, 0x00, 0x00,
      0x00, 0x00, 0x00, 0x00]"

definition set_name :: "u8 list \<Rightarrow> proc \<Rightarrow> proc" where
  "set_name src p = p\<lparr>p_name := patch (p_name p) 0 (safestrcpy (arr_ptr src) 16)\<rparr>"

definition userinit :: "('a kproc_state_scheme, unit) M" where
  "userinit =
     bindM allocproc (\<lambda>r. case r of
       None \<Rightarrow> panicM ''kerneltrap''
     | Some i \<Rightarrow>
         thenM (modM (\<lambda>s. s\<lparr>initproc := i\<rparr>))
        (thenM (\<lambda>s. uvmfirst (p_pagetable (procs s i)) initcode s)
        (thenM (modM (upd_proc i (\<lambda>p. p\<lparr>p_sz := PGSIZE\<rparr>)))
        (thenM (modM (\<lambda>s. set_tf (procs s i) TF_epc 0 s))
        (thenM (modM (\<lambda>s. set_tf (procs s i) TF_sp PGSIZE s))
        (thenM (modM (upd_proc i (set_name (str ''initcode''))))
        (bindM (namei [slash]) (\<lambda>cwd.
           modM (upd_proc i (\<lambda>p. p\<lparr>p_cwd := cwd, p_state := RUNNABLE\<rparr>))))))))))"

definition growproc :: "int \<Rightarrow> ('a proc_state_scheme, int) M" where
  "growproc n s =
     (let p = myproc s; i = cur s in
      if n > 0
      then bindM (uvmalloc (p_pagetable p) (p_sz p) (p_sz p + of_int n) PTE_W) (\<lambda>sz.
        if sz = 0 then retM (- 1)
        else thenM (modM (upd_proc i (\<lambda>p. p\<lparr>p_sz := sz\<rparr>))) (retM 0)) s
      else if n < 0
      then bindM (uvmdealloc (p_pagetable p) (p_sz p) (p_sz p + of_int n)) (\<lambda>sz.
        thenM (modM (upd_proc i (\<lambda>p. p\<lparr>p_sz := sz\<rparr>))) (retM 0)) s
      else Ret 0 s)"

section \<open>Fork, exit, wait, kill\<close>

definition dup_ofile :: "nat \<Rightarrow> nat \<Rightarrow> ('a kproc_state_scheme, unit) M" where
  "dup_ofile np i s =
     (case p_ofile (myproc s) i of
        None \<Rightarrow> Ret () s
      | Some f \<Rightarrow> bindM (filedup f) (\<lambda>f. modM (upd_proc np (\<lambda>p. p\<lparr>p_ofile := (p_ofile p)(i := Some f)\<rparr>))) s)"

definition fork :: "('a kproc_state_scheme, int) M" where
  "fork =
     bindM allocproc (\<lambda>r. case r of
       None \<Rightarrow> retM (- 1)
     | Some np \<Rightarrow> (\<lambda>s.
         bindM (uvmcopy (p_pagetable (myproc s)) (p_pagetable (procs s np)) (p_sz (myproc s))) (\<lambda>r.
           if r < 0 then thenM (freeproc np) (retM (- 1))
           else
             thenM (modM (\<lambda>s. upd_proc np (\<lambda>p. p\<lparr>p_sz := p_sz (myproc s)\<rparr>) s))
            (thenM (modM (\<lambda>s. s\<lparr>mem := memmove (mem s) (p_trapframe (procs s np)) (p_trapframe (myproc s)) 288\<rparr>))
            (thenM (modM (\<lambda>s. set_tf (procs s np) (TF_a 0) 0 s))
            (thenM (eachM (dup_ofile np) [0..<NOFILE])
            (thenM (\<lambda>s. case p_cwd (myproc s) of
                 None \<Rightarrow> Panic ''kerneltrap''
               | Some c \<Rightarrow> bindM (idup c) (\<lambda>c. modM (upd_proc np (\<lambda>p. p\<lparr>p_cwd := Some c\<rparr>))) s)
            (thenM (modM (\<lambda>s. upd_proc np (set_name (p_name (myproc s))) s))
            (thenM (modM (\<lambda>s. upd_proc np (\<lambda>p. p\<lparr>p_parent := Some (cur s)\<rparr>) s))
            (thenM (modM (upd_proc np (\<lambda>p. p\<lparr>p_state := RUNNABLE\<rparr>)))
               (getM (\<lambda>s. p_pid (procs s np))))))))))) s))"

definition reparent :: "nat \<Rightarrow> ('a proc_state_scheme, unit) M" where
  "reparent p =
     eachM (\<lambda>pp s.
       if p_parent (procs s pp) = Some p
       then Ret () (wakeup (Chan_proc (initproc s)) (upd_proc pp (\<lambda>x. x\<lparr>p_parent := Some (initproc s)\<rparr>) s))
       else Ret () s) [0..<NPROC]"

definition parent_chan :: "proc \<Rightarrow> chan" where
  "parent_chan p = (case p_parent p of None \<Rightarrow> Chan_none | Some i \<Rightarrow> Chan_proc i)"

definition close_fd :: "nat \<Rightarrow> ('a file_state_scheme, unit) M" where
  "close_fd fd s =
     (case p_ofile (myproc s) fd of
        None \<Rightarrow> Ret () s
      | Some f \<Rightarrow> thenM (fileclose f) (modM (\<lambda>s. upd_proc (cur s) (\<lambda>p. p\<lparr>p_ofile := (p_ofile p)(fd := None)\<rparr>) s)) s)"

definition exit :: "int \<Rightarrow> ('a kproc_state_scheme, unit) M" where
  "exit status s =
     (if cur s = initproc s then Panic ''init exiting''
      else
        thenM (eachM close_fd [0..<NOFILE])
       (thenM begin_op
       (thenM (\<lambda>s. case p_cwd (myproc s) of None \<Rightarrow> Panic ''kerneltrap'' | Some c \<Rightarrow> iput c s)
       (thenM end_op
       (thenM (modM (\<lambda>s. upd_proc (cur s) (\<lambda>p. p\<lparr>p_cwd := None\<rparr>) s))
       (thenM (reparent (cur s))
       (thenM (modM (\<lambda>s. wakeup (parent_chan (myproc s)) s))
       (thenM (modM (\<lambda>s. upd_proc (cur s) (\<lambda>p. p\<lparr>p_xstate := status, p_state := ZOMBIE\<rparr>) s))
          (blockM Chan_exit)))))))) s)"

definition killed :: "nat \<Rightarrow> 'a proc_state_scheme \<Rightarrow> int" where
  "killed i s = p_killed (procs s i)"

definition setkilled :: "nat \<Rightarrow> ('a proc_state_scheme, unit) M" where
  "setkilled i = modM (upd_proc i (\<lambda>p. p\<lparr>p_killed := 1\<rparr>))"

definition wait :: "u64 \<Rightarrow> ('a kproc_state_scheme, int) M" where
  "wait addr s =
     (case first_index (\<lambda>i. p_parent (procs s i) = Some (cur s) \<and> p_state (procs s i) = ZOMBIE) NPROC of
        Some pp \<Rightarrow>
          let pid = p_pid (procs s pp) in
          bindM (if addr \<noteq> 0 then copyout (p_pagetable (myproc s)) addr (bytes_of 4 (of_int (p_xstate (procs s pp)) :: u32))
                 else retM 0) (\<lambda>r.
            if r < 0 then retM (- 1) else thenM (freeproc pp) (retM pid)) s
      | None \<Rightarrow>
          if first_index (\<lambda>i. p_parent (procs s i) = Some (cur s)) NPROC = None \<or> killed (cur s) s \<noteq> 0
          then Ret (- 1) s
          else Block (Chan_proc (cur s)) s)"

definition kill :: "int \<Rightarrow> ('a proc_state_scheme, int) M" where
  "kill pid s =
     (case first_index (\<lambda>i. p_pid (procs s i) = pid) NPROC of
        None \<Rightarrow> Ret (- 1) s
      | Some i \<Rightarrow> Ret 0 (upd_proc i (\<lambda>p. p\<lparr>p_killed := 1,
          p_state := (if p_state p = SLEEPING then RUNNABLE else p_state p)\<rparr>) s))"

definition kproc_boot :: kproc_state where
  "kproc_boot = file_state.extend file_boot \<lparr>forkret_addr = 0x80002000, first = True\<rparr>"

end
