(* ===== verification/Exec.thy ===== *)
theory Exec
  imports Proc
begin

text \<open>
  Replacing the program of a process, \<^verbatim>\<open>kernel/exec.c\<close>. The structures of \<^verbatim>\<open>kernel/elf.h\<close> are read as
  bytes of the file; the argument strings, which live in kernel pages of their own, are passed by value.
\<close>

section \<open>Model\<close>

abbreviation (input) ELF_MAGIC :: u32 where "ELF_MAGIC \<equiv> 0x464C457F"
abbreviation (input) ELF_PROG_LOAD :: u32 where "ELF_PROG_LOAD \<equiv> 1"

definition get64 :: "u8 list \<Rightarrow> nat \<Rightarrow> u64" where
  "get64 d off = word_of_bytes (take 8 (drop off d))"

record elfhdr =
  eh_magic :: u32
  eh_entry :: u64
  eh_phoff :: u64
  eh_phnum :: u16

definition get_elfhdr :: "u8 list \<Rightarrow> elfhdr" where
  "get_elfhdr d = \<lparr>eh_magic = get32 d 0, eh_entry = get64 d 24, eh_phoff = get64 d 32, eh_phnum = get16 d 56\<rparr>"

record proghdr =
  ph_type :: u32
  ph_flags :: u32
  ph_off :: u64
  ph_vaddr :: u64
  ph_filesz :: u64
  ph_memsz :: u64

definition get_proghdr :: "u8 list \<Rightarrow> proghdr" where
  "get_proghdr d =
     \<lparr>ph_type = get32 d 0, ph_flags = get32 d 4, ph_off = get64 d 8, ph_vaddr = get64 d 16,
      ph_filesz = get64 d 32, ph_memsz = get64 d 40\<rparr>"

definition flags2perm :: "u32 \<Rightarrow> u64" where
  "flags2perm flags =
     (let perm = (if flags AND 1 \<noteq> 0 then PTE_X else 0) in if flags AND 2 \<noteq> 0 then perm OR PTE_W else perm)"

text \<open>The list holds the values of \<open>i\<close>: \<open>0, PGSIZE, ...\<close> below \<open>sz\<close>.\<close>

fun loadseg_loop :: "u64 \<Rightarrow> u64 \<Rightarrow> nat \<Rightarrow> u32 \<Rightarrow> nat \<Rightarrow> nat list \<Rightarrow> ('a fs_state_scheme, int) M" where
  "loadseg_loop pagetable va ip offset sz [] s = Ret 0 s"
| "loadseg_loop pagetable va ip offset sz (i # is) s =
     bindM (walkaddr pagetable (va + of_nat i)) (\<lambda>pa.
       if pa = 0 then panicM ''loadseg: address should exist''
       else let n = min (sz - i) 4096 in
         bindM (readi ip (Kernel_dst pa) (offset + of_nat i) (of_nat n)) (\<lambda>(r, _).
           if r \<noteq> int n then retM (- 1) else loadseg_loop pagetable va ip offset sz is)) s"

definition loadseg :: "u64 \<Rightarrow> u64 \<Rightarrow> nat \<Rightarrow> u32 \<Rightarrow> u32 \<Rightarrow> ('a fs_state_scheme, int) M" where
  "loadseg pagetable va ip offset sz =
     loadseg_loop pagetable va ip offset (unat sz) (map ((*) 4096) [0..<(unat sz + 4095) div 4096])"

text \<open>The loop over the program headers: whether it got to the end, and the size so far.\<close>

fun exec_load :: "u64 \<Rightarrow> nat \<Rightarrow> u32 \<Rightarrow> nat list \<Rightarrow> u64 \<Rightarrow> ('a fs_state_scheme, bool \<times> u64) M" where
  "exec_load pagetable ip off [] sz s = Ret (True, sz) s"
| "exec_load pagetable ip off (i # is) sz s =
     bindM (readi ip Local_dst (off + 56 * of_nat i) 56) (\<lambda>(r, d).
       let ph = get_proghdr d in
       if r \<noteq> 56 then retM (False, sz)
       else if ph_type ph \<noteq> ELF_PROG_LOAD then exec_load pagetable ip off is sz
       else if ph_memsz ph < ph_filesz ph then retM (False, sz)
       else if ph_vaddr ph + ph_memsz ph < ph_vaddr ph then retM (False, sz)
       else if ph_vaddr ph mod PGSIZE \<noteq> 0 then retM (False, sz)
       else bindM (uvmalloc pagetable sz (ph_vaddr ph + ph_memsz ph) (flags2perm (ph_flags ph))) (\<lambda>sz1.
         if sz1 = 0 then retM (False, sz)
         else bindM (loadseg pagetable (ph_vaddr ph) ip (ucast (ph_off ph)) (ucast (ph_filesz ph))) (\<lambda>r.
           if r < 0 then retM (False, sz1) else exec_load pagetable ip off is sz1))) s"

text \<open>
  The loop that pushes the argument strings: the stack pointer after it and \<open>ustack\<close> so far, or
  \<open>None\<close> for \<open>goto bad\<close>.
\<close>

definition align16 :: "u64 \<Rightarrow> u64" where
  "align16 sp = sp - sp mod 16"

fun push_args :: "u64 \<Rightarrow> u64 \<Rightarrow> u64 \<Rightarrow> u64 list \<Rightarrow> u8 list list \<Rightarrow> ('a kmem_state_scheme, (u64 \<times> u64 list) option) M" where
  "push_args pagetable stackbase sp ustack [] s = Ret (Some (sp, ustack)) s"
| "push_args pagetable stackbase sp ustack (arg # args) s =
     (if length ustack \<ge> MAXARG then Ret None s
      else let sp = align16 (sp - (of_nat (length arg) + 1)) in
        if sp < stackbase then Ret None s
        else bindM (copyout pagetable sp (arg @ [0])) (\<lambda>r.
          if r < 0 then retM None else push_args pagetable stackbase sp (ustack @ [sp]) args) s)"

definition push_ustack :: "u64 \<Rightarrow> u64 \<Rightarrow> u64 \<Rightarrow> u64 list \<Rightarrow> ('a kmem_state_scheme, u64 option) M" where
  "push_ustack pagetable stackbase sp ustack s =
     (let sp = align16 (sp - of_nat (length ustack + 1) * 8) in
      if sp < stackbase then Ret None s
      else bindM (copyout pagetable sp (concat (map (bytes_of 8) (ustack @ [0])))) (\<lambda>r.
        retM (if r < 0 then None else Some sp)) s)"

definition last_elem :: "u8 list \<Rightarrow> u8 list" where
  "last_elem path = rev (takeWhile (\<lambda>c. c \<noteq> slash) (rev path))"

text \<open>The two ways to \<open>bad\<close>: with the inode still locked and the transaction open, and after both.\<close>

definition exec_bad1 :: "nat \<Rightarrow> u64 \<Rightarrow> u64 \<Rightarrow> ('a kproc_state_scheme, int) M" where
  "exec_bad1 ip pagetable sz =
     thenM (whenM (pagetable \<noteq> 0) (proc_freepagetable pagetable sz))
    (thenM (iunlockput ip) (thenM end_op (retM (- 1))))"

definition exec_bad2 :: "u64 \<Rightarrow> u64 \<Rightarrow> ('a kproc_state_scheme, int) M" where
  "exec_bad2 pagetable sz = thenM (proc_freepagetable pagetable sz) (retM (- 1))"

definition exec_commit :: "u8 list \<Rightarrow> u64 \<Rightarrow> u64 \<Rightarrow> u64 \<Rightarrow> u64 \<Rightarrow> u64 \<Rightarrow> int \<Rightarrow> ('a kproc_state_scheme, int) M" where
  "exec_commit path pagetable sz oldsz sp epc argc s =
     (let p = myproc s; i = cur s in
      thenM (modM (set_tf p (TF_a 1) sp))
     (thenM (modM (upd_proc i (set_name (last_elem path))))
     (thenM (modM (upd_proc i (\<lambda>p. p\<lparr>p_pagetable := pagetable, p_sz := sz\<rparr>)))
     (thenM (modM (set_tf p TF_epc epc))
     (thenM (modM (set_tf p TF_sp sp))
     (thenM (proc_freepagetable (p_pagetable p) oldsz) (retM argc)))))) s)"

definition exec_stack :: "u8 list \<Rightarrow> u8 list list \<Rightarrow> u64 \<Rightarrow> u64 \<Rightarrow> u64 \<Rightarrow> ('a kproc_state_scheme, int) M" where
  "exec_stack path argv pagetable sz epc s =
     (let oldsz = p_sz (myproc s); sz = PGROUNDUP sz in
      bindM (uvmalloc pagetable sz (sz + (USERSTACK + 1) * PGSIZE) PTE_W) (\<lambda>sz1.
        if sz1 = 0 then exec_bad2 pagetable sz
        else let sz = sz1; stackbase = sz - USERSTACK * PGSIZE in
          thenM (uvmclear pagetable (sz - (USERSTACK + 1) * PGSIZE))
         (bindM (push_args pagetable stackbase sz [] argv) (\<lambda>r. case r of
            None \<Rightarrow> exec_bad2 pagetable sz
          | Some (sp, ustack) \<Rightarrow>
              bindM (push_ustack pagetable stackbase sp ustack) (\<lambda>r. case r of
                None \<Rightarrow> exec_bad2 pagetable sz
              | Some sp \<Rightarrow> exec_commit path pagetable sz oldsz sp epc (int (length ustack)))))) s)"

definition exec :: "u8 list \<Rightarrow> u8 list list \<Rightarrow> ('a kproc_state_scheme, int) M" where
  "exec path argv =
     thenM begin_op
    (bindM (namei path) (\<lambda>r. case r of
       None \<Rightarrow> thenM end_op (retM (- 1))
     | Some ip \<Rightarrow>
         thenM (ilock ip)
        (bindM (readi ip Local_dst 0 64) (\<lambda>(r, d).
           let elf = get_elfhdr d in
           if r \<noteq> 64 \<or> eh_magic elf \<noteq> ELF_MAGIC then exec_bad1 ip 0 0
           else bindM (\<lambda>s. proc_pagetable (cur s) s) (\<lambda>pagetable.
             if pagetable = 0 then exec_bad1 ip 0 0
             else bindM (exec_load pagetable ip (ucast (eh_phoff elf)) [0..<unat (eh_phnum elf)] 0) (\<lambda>(ok, sz).
               if \<not> ok then exec_bad1 ip pagetable sz
               else thenM (iunlockput ip) (thenM end_op
                     (exec_stack path argv pagetable sz (eh_entry elf)))))))))"

end
