(* ===== verification/Sysarg.thy ===== *)
theory Sysarg
  imports Exec
begin

text \<open>
  Fetching system call arguments, the first half of \<^verbatim>\<open>kernel/syscall.c\<close>, and the system calls on
  processes, \<^verbatim>\<open>kernel/sysproc.c\<close>. A function that fills a buffer of the caller returns the bytes it
  wrote with its result.
\<close>

section \<open>Arguments\<close>

definition fetchaddr :: "u64 \<Rightarrow> ('a proc_state_scheme, int \<times> u64) M" where
  "fetchaddr addr s =
     (if addr \<ge> p_sz (myproc s) \<or> addr + 8 > p_sz (myproc s) then Ret (- 1, 0) s
      else bindM (copyin (p_pagetable (myproc s)) addr 8) (\<lambda>(r, bs).
        retM (if r \<noteq> 0 then (- 1, 0) else (0, word_of_bytes bs))) s)"

text \<open>The C string in a buffer.\<close>

definition buf_str :: "u8 list \<Rightarrow> u8 list" where
  "buf_str buf = takeWhile (\<lambda>c. c \<noteq> 0) buf"

definition fetchstr :: "u64 \<Rightarrow> nat \<Rightarrow> ('a proc_state_scheme, int \<times> u8 list) M" where
  "fetchstr addr mx s =
     bindM (copyinstr (p_pagetable (myproc s)) addr mx) (\<lambda>(r, buf).
       retM (if r < 0 then (- 1, buf) else (int (length (buf_str buf)), buf))) s"

definition argraw :: "nat \<Rightarrow> ('a proc_state_scheme, u64) M" where
  "argraw n s = (if n \<le> 5 then Ret (get_tf (myproc s) (TF_a n) s) s else Panic ''argraw'')"

definition argint :: "nat \<Rightarrow> ('a proc_state_scheme, int) M" where
  "argint n = bindM (argraw n) (\<lambda>w. retM (sint (ucast w :: u32)))"

definition argaddr :: "nat \<Rightarrow> ('a proc_state_scheme, u64) M" where
  "argaddr = argraw"

definition argstr :: "nat \<Rightarrow> nat \<Rightarrow> ('a proc_state_scheme, int \<times> u8 list) M" where
  "argstr n mx = bindM (argaddr n) (\<lambda>addr. fetchstr addr mx)"

section \<open>System calls on processes\<close>

definition sys_exit :: "('a kproc_state_scheme, u64) M" where
  "sys_exit = bindM (argint 0) (\<lambda>n. thenM (exit n) (retM 0))"

definition sys_getpid :: "('a kproc_state_scheme, u64) M" where
  "sys_getpid = getM (\<lambda>s. of_int (p_pid (myproc s)))"

definition sys_fork :: "('a kproc_state_scheme, u64) M" where
  "sys_fork = bindM fork (\<lambda>r. retM (of_int r))"

definition sys_wait :: "('a kproc_state_scheme, u64) M" where
  "sys_wait = bindM (argaddr 0) (\<lambda>p. bindM (wait p) (\<lambda>r. retM (of_int r)))"

definition sys_sbrk :: "('a kproc_state_scheme, u64) M" where
  "sys_sbrk =
     bindM (argint 0) (\<lambda>n.
     bindM (getM (\<lambda>s. p_sz (myproc s))) (\<lambda>addr.
     bindM (growproc n) (\<lambda>r. retM (if r < 0 then - 1 else addr))))"

text \<open>
  One round of the loop of \<open>sys_sleep\<close>; after a \<open>Block\<close> it runs again with the same \<open>ticks0\<close>.
\<close>

definition sleep_round :: "u32 \<Rightarrow> int \<Rightarrow> ('a kproc_state_scheme, u64) M" where
  "sleep_round ticks0 n s =
     (if ticks s - ticks0 < of_int n
      then (if killed (cur s) s \<noteq> 0 then Ret (- 1) s else Block Chan_ticks s)
      else Ret 0 s)"

definition sys_sleep :: "('a kproc_state_scheme, u64) M" where
  "sys_sleep =
     bindM (argint 0) (\<lambda>n. (\<lambda>s. sleep_round (ticks s) (if n < 0 then 0 else n) s))"

definition sys_kill :: "('a kproc_state_scheme, u64) M" where
  "sys_kill = bindM (argint 0) (\<lambda>pid. bindM (kill pid) (\<lambda>r. retM (of_int r)))"

definition sys_uptime :: "('a kproc_state_scheme, u64) M" where
  "sys_uptime = getM (\<lambda>s. ucast (ticks s))"

end
