(* ===== verification/Sysfile.thy ===== *)
theory Sysfile
  imports Sysarg
begin

text \<open>
  The system calls on files, \<^verbatim>\<open>kernel/sysfile.c\<close>.
\<close>

section \<open>File descriptors\<close>

definition argfd :: "nat \<Rightarrow> ('a file_state_scheme, (nat \<times> nat) option) M" where
  "argfd n =
     bindM (argint n) (\<lambda>fd s.
       if fd < 0 \<or> fd \<ge> int NOFILE then Ret None s
       else case p_ofile (myproc s) (nat fd) of
         None \<Rightarrow> Ret None s
       | Some f \<Rightarrow> Ret (Some (nat fd, f)) s)"

definition set_ofile :: "nat \<Rightarrow> nat option \<Rightarrow> 'a proc_state_scheme \<Rightarrow> 'a proc_state_scheme" where
  "set_ofile fd f s = upd_proc (cur s) (\<lambda>p. p\<lparr>p_ofile := (p_ofile p)(fd := f)\<rparr>) s"

definition fdalloc :: "nat \<Rightarrow> ('a file_state_scheme, int) M" where
  "fdalloc f s =
     (case first_index (\<lambda>fd. p_ofile (myproc s) fd = None) NOFILE of
        Some fd \<Rightarrow> Ret (int fd) (set_ofile fd (Some f) s)
      | None \<Rightarrow> Ret (- 1) s)"

definition sys_dup :: "('a kproc_state_scheme, u64) M" where
  "sys_dup =
     bindM (argfd 0) (\<lambda>r. case r of
       None \<Rightarrow> retM (- 1)
     | Some (_, f) \<Rightarrow> bindM (fdalloc f) (\<lambda>fd.
         if fd < 0 then retM (- 1) else thenM (filedup f) (retM (of_int fd))))"

definition sys_read :: "('a kproc_state_scheme, u64) M" where
  "sys_read =
     bindM (argaddr 1) (\<lambda>p. bindM (argint 2) (\<lambda>n. bindM (argfd 0) (\<lambda>r. case r of
       None \<Rightarrow> retM (- 1)
     | Some (_, f) \<Rightarrow> bindM (fileread f p n) (\<lambda>r. retM (of_int r)))))"

definition sys_write :: "('a kproc_state_scheme, u64) M" where
  "sys_write =
     bindM (argaddr 1) (\<lambda>p. bindM (argint 2) (\<lambda>n. bindM (argfd 0) (\<lambda>r. case r of
       None \<Rightarrow> retM (- 1)
     | Some (_, f) \<Rightarrow> bindM (filewrite f p n) (\<lambda>r. retM (of_int r)))))"

definition sys_close :: "('a kproc_state_scheme, u64) M" where
  "sys_close =
     bindM (argfd 0) (\<lambda>r. case r of
       None \<Rightarrow> retM (- 1)
     | Some (fd, f) \<Rightarrow> thenM (modM (set_ofile fd None)) (thenM (fileclose f) (retM 0)))"

definition sys_fstat :: "('a kproc_state_scheme, u64) M" where
  "sys_fstat =
     bindM (argaddr 1) (\<lambda>st. bindM (argfd 0) (\<lambda>r. case r of
       None \<Rightarrow> retM (- 1)
     | Some (_, f) \<Rightarrow> bindM (filestat f st) (\<lambda>r. retM (of_int r))))"

section \<open>Links\<close>

definition add_nlink :: "nat \<Rightarrow> u16 \<Rightarrow> ('a fs_state_scheme, unit) M" where
  "add_nlink i d = modM (upd_inode i (\<lambda>x. x\<lparr>ip_nlink := ip_nlink x + d\<rparr>))"

definition link_bad :: "nat \<Rightarrow> ('a kproc_state_scheme, u64) M" where
  "link_bad ip =
     thenM (ilock ip) (thenM (add_nlink ip (- 1)) (thenM (iupdate ip) (thenM (iunlockput ip) (thenM end_op (retM (- 1))))))"

definition sys_link :: "('a kproc_state_scheme, u64) M" where
  "sys_link =
     bindM (argstr 0 MAXPATH) (\<lambda>(r, old).
     if r < 0 then retM (- 1) else
     bindM (argstr 1 MAXPATH) (\<lambda>(r, new).
     if r < 0 then retM (- 1) else
     thenM begin_op
    (bindM (namei (buf_str old)) (\<lambda>r. case r of
       None \<Rightarrow> thenM end_op (retM (- 1))
     | Some ip \<Rightarrow>
         thenM (ilock ip) (\<lambda>s.
         if ip_type (itable s ip) = T_DIR then thenM (iunlockput ip) (thenM end_op (retM (- 1))) s
         else
           thenM (add_nlink ip 1)
          (thenM (iupdate ip)
          (thenM (iunlock ip)
          (bindM (nameiparent (buf_str new)) (\<lambda>(r, name). case r of
             None \<Rightarrow> link_bad ip
           | Some dp \<Rightarrow>
               thenM (ilock dp)
              (bindM (\<lambda>s. if ip_dev (itable s dp) \<noteq> ip_dev (itable s ip) then Ret (- 1) s
                          else dirlink dp name (ip_inum (itable s ip)) s) (\<lambda>r.
                 if r < 0 then thenM (iunlockput dp) (link_bad ip)
                 else thenM (iunlockput dp) (thenM (iput ip) (thenM end_op (retM 0))))))))) s)))))"

fun isdirempty_loop :: "nat \<Rightarrow> nat list \<Rightarrow> ('a fs_state_scheme, bool) M" where
  "isdirempty_loop dp [] s = Ret True s"
| "isdirempty_loop dp (off # offs) s =
     bindM (readi dp Local_dst (of_nat off) 16) (\<lambda>(r, de).
       if r \<noteq> 16 then panicM ''isdirempty: readi''
       else if de_inum de \<noteq> 0 then retM False
       else isdirempty_loop dp offs) s"

definition isdirempty :: "nat \<Rightarrow> ('a fs_state_scheme, bool) M" where
  "isdirempty dp s = isdirempty_loop dp (drop 2 (dirent_offs (ip_size (itable s dp)))) s"

definition unlink_bad :: "nat \<Rightarrow> ('a kproc_state_scheme, u64) M" where
  "unlink_bad dp = thenM (iunlockput dp) (thenM end_op (retM (- 1)))"

definition sys_unlink :: "('a kproc_state_scheme, u64) M" where
  "sys_unlink =
     bindM (argstr 0 MAXPATH) (\<lambda>(r, path).
     if r < 0 then retM (- 1) else
     thenM begin_op
    (bindM (nameiparent (buf_str path)) (\<lambda>(r, name). case r of
       None \<Rightarrow> thenM end_op (retM (- 1))
     | Some dp \<Rightarrow>
         thenM (ilock dp)
        (if namecmp name (str ''.'') = 0 \<or> namecmp name (str ''..'') = 0 then unlink_bad dp
         else bindM (dirlookup dp name) (\<lambda>r. case r of
           None \<Rightarrow> unlink_bad dp
         | Some (ip, off) \<Rightarrow>
             thenM (ilock ip) (\<lambda>s.
             if sint (ip_nlink (itable s ip)) < 1 then Panic ''unlink: nlink < 1''
             else bindM (if ip_type (itable s ip) = T_DIR then isdirempty ip else retM True) (\<lambda>empty.
               if \<not> empty then thenM (iunlockput ip) (unlink_bad dp)
               else bindM (writei dp (Local_src (replicate 16 0)) (of_nat off) 16) (\<lambda>r.
                 if r \<noteq> 16 then panicM ''unlink: writei''
                 else
                   thenM (\<lambda>s. whenM (ip_type (itable s ip) = T_DIR) (thenM (add_nlink dp (- 1)) (iupdate dp)) s)
                  (thenM (iunlockput dp)
                  (thenM (add_nlink ip (- 1))
                  (thenM (iupdate ip)
                  (thenM (iunlockput ip)
                  (thenM end_op (retM 0)))))))) s))))))"

section \<open>Creating and opening\<close>

definition create :: "u8 list \<Rightarrow> u16 \<Rightarrow> u16 \<Rightarrow> u16 \<Rightarrow> ('a kproc_state_scheme, nat option) M" where
  "create path type major minor =
     bindM (nameiparent path) (\<lambda>(r, name). case r of
       None \<Rightarrow> retM None
     | Some dp \<Rightarrow>
       thenM (ilock dp)
      (bindM (dirlookup dp name) (\<lambda>r. case r of
         Some (ip, _) \<Rightarrow>
           thenM (iunlockput dp)
          (thenM (ilock ip) (\<lambda>s.
           if type = T_FILE \<and> (ip_type (itable s ip) = T_FILE \<or> ip_type (itable s ip) = T_DEVICE) then Ret (Some ip) s
           else thenM (iunlockput ip) (retM None) s))
       | None \<Rightarrow>
           bindM (\<lambda>s. ialloc (ip_dev (itable s dp)) type s) (\<lambda>r. case r of
             None \<Rightarrow> thenM (iunlockput dp) (retM None)
           | Some ip \<Rightarrow>
               thenM (ilock ip)
              (thenM (modM (upd_inode ip (\<lambda>x. x\<lparr>ip_major := major, ip_minor := minor, ip_nlink := 1\<rparr>)))
              (thenM (iupdate ip)
              (bindM (if type = T_DIR
                      then bindM (\<lambda>s. dirlink ip (str ''.'') (ip_inum (itable s ip)) s) (\<lambda>r.
                             if r < 0 then retM False
                             else bindM (\<lambda>s. dirlink ip (str ''..'') (ip_inum (itable s dp)) s) (\<lambda>r. retM (r \<ge> 0)))
                      else retM True) (\<lambda>ok.
               bindM (if ok then bindM (\<lambda>s. dirlink dp name (ip_inum (itable s ip)) s) (\<lambda>r. retM (r \<ge> 0)) else retM False) (\<lambda>ok.
                 if ok
                 then thenM (whenM (type = T_DIR) (thenM (add_nlink dp 1) (iupdate dp)))
                     (thenM (iunlockput dp) (retM (Some ip)))
                 else thenM (modM (upd_inode ip (\<lambda>x. x\<lparr>ip_nlink := 0\<rparr>)))
                     (thenM (iupdate ip) (thenM (iunlockput ip) (thenM (iunlockput dp) (retM None)))))))))))))"

abbreviation (input) O_RDONLY :: int where "O_RDONLY \<equiv> 0"

definition o_flag :: "u32 \<Rightarrow> int \<Rightarrow> bool" where
  "o_flag flag omode \<longleftrightarrow> (of_int omode :: u32) AND flag \<noteq> 0"

abbreviation (input) O_WRONLY :: u32 where "O_WRONLY \<equiv> 1"
abbreviation (input) O_RDWR :: u32 where "O_RDWR \<equiv> 2"
abbreviation (input) O_CREATE :: u32 where "O_CREATE \<equiv> 0x200"
abbreviation (input) O_TRUNC :: u32 where "O_TRUNC \<equiv> 0x400"

text \<open>The inode to open, locked, or \<open>None\<close>.\<close>

definition open_inode :: "u8 list \<Rightarrow> int \<Rightarrow> ('a kproc_state_scheme, nat option) M" where
  "open_inode path omode =
     (if o_flag O_CREATE omode then create path T_FILE 0 0
      else bindM (namei path) (\<lambda>r. case r of
        None \<Rightarrow> retM None
      | Some ip \<Rightarrow> thenM (ilock ip) (\<lambda>s.
          if ip_type (itable s ip) = T_DIR \<and> omode \<noteq> O_RDONLY then thenM (iunlockput ip) (retM None) s
          else Ret (Some ip) s)))"

definition open_file_at :: "nat \<Rightarrow> nat \<Rightarrow> int \<Rightarrow> 'a file_state_scheme \<Rightarrow> 'a file_state_scheme" where
  "open_file_at f ip omode s =
     upd_file f (\<lambda>x.
       (if ip_type (itable s ip) = T_DEVICE
        then x\<lparr>f_type := FD_DEVICE, f_major := ip_major (itable s ip)\<rparr>
        else x\<lparr>f_type := FD_INODE, f_off := 0\<rparr>)
       \<lparr>f_ip := ip, f_readable := \<not> o_flag O_WRONLY omode,
        f_writable := o_flag O_WRONLY omode \<or> o_flag O_RDWR omode\<rparr>) s"

definition sys_open :: "('a kproc_state_scheme, u64) M" where
  "sys_open =
     bindM (argint 1) (\<lambda>omode.
     bindM (argstr 0 MAXPATH) (\<lambda>(n, path).
     if n < 0 then retM (- 1) else
     thenM begin_op
    (bindM (open_inode (buf_str path) omode) (\<lambda>r. case r of
       None \<Rightarrow> thenM end_op (retM (- 1))
     | Some ip \<Rightarrow> (\<lambda>s.
         let fail = thenM (iunlockput ip) (thenM end_op (retM (- 1))) in
         if ip_type (itable s ip) = T_DEVICE \<and>
            (sint (ip_major (itable s ip)) < 0 \<or> sint (ip_major (itable s ip)) \<ge> int NDEV)
         then fail s
         else bindM filealloc (\<lambda>r. case r of
           None \<Rightarrow> fail
         | Some f \<Rightarrow> bindM (fdalloc f) (\<lambda>fd.
             if fd < 0 then thenM (fileclose f) fail
             else
               thenM (modM (open_file_at f ip omode))
              (thenM (\<lambda>s. whenM (o_flag O_TRUNC omode \<and> ip_type (itable s ip) = T_FILE) (itrunc ip) s)
              (thenM (iunlock ip) (thenM end_op (retM (of_int fd))))))) s)))))"

definition sys_mkdir :: "('a kproc_state_scheme, u64) M" where
  "sys_mkdir =
     thenM begin_op
    (bindM (argstr 0 MAXPATH) (\<lambda>(n, path).
     bindM (if n < 0 then retM None else create (buf_str path) T_DIR 0 0) (\<lambda>r. case r of
       None \<Rightarrow> thenM end_op (retM (- 1))
     | Some ip \<Rightarrow> thenM (iunlockput ip) (thenM end_op (retM 0)))))"

definition sys_mknod :: "('a kproc_state_scheme, u64) M" where
  "sys_mknod =
     thenM begin_op
    (bindM (argint 1) (\<lambda>major.
     bindM (argint 2) (\<lambda>minor.
     bindM (argstr 0 MAXPATH) (\<lambda>(n, path).
     bindM (if n < 0 then retM None else create (buf_str path) T_DEVICE (of_int major) (of_int minor)) (\<lambda>r. case r of
       None \<Rightarrow> thenM end_op (retM (- 1))
     | Some ip \<Rightarrow> thenM (iunlockput ip) (thenM end_op (retM 0)))))))"

definition sys_chdir :: "('a kproc_state_scheme, u64) M" where
  "sys_chdir =
     thenM begin_op
    (bindM (argstr 0 MAXPATH) (\<lambda>(n, path).
     bindM (if n < 0 then retM None else namei (buf_str path)) (\<lambda>r. case r of
       None \<Rightarrow> thenM end_op (retM (- 1))
     | Some ip \<Rightarrow> thenM (ilock ip) (\<lambda>s.
         if ip_type (itable s ip) \<noteq> T_DIR then thenM (iunlockput ip) (thenM end_op (retM (- 1))) s
         else
           thenM (iunlock ip)
          (thenM (\<lambda>s. case p_cwd (myproc s) of None \<Rightarrow> Panic ''kerneltrap'' | Some c \<Rightarrow> iput c s)
          (thenM end_op
          (thenM (modM (\<lambda>s. upd_proc (cur s) (\<lambda>p. p\<lparr>p_cwd := Some ip\<rparr>) s)) (retM 0)))) s))))"

section \<open>Running programs and pipes\<close>

text \<open>
  The loop of \<open>sys_exec\<close> that fetches the argument strings: the first number is the number of
  entries of \<open>argv\<close> that are left; the list holds the pages allocated so far with their strings.
\<close>

fun fetch_args :: "u64 \<Rightarrow> nat \<Rightarrow> (u64 \<times> u8 list) list \<Rightarrow> ('a kproc_state_scheme, bool \<times> (u64 \<times> u8 list) list) M" where
  "fetch_args uargv 0 argv s = Ret (False, argv) s"
| "fetch_args uargv (Suc k) argv s =
     bindM (fetchaddr (uargv + 8 * of_nat (length argv))) (\<lambda>(r, uarg).
       if r < 0 then retM (False, argv)
       else if uarg = 0 then retM (True, argv)
       else bindM kalloc (\<lambda>pg.
         if pg = 0 then retM (False, argv)
         else bindM (fetchstr uarg 4096) (\<lambda>(r, buf).
           thenM (modM (\<lambda>s. s\<lparr>mem := store_bytes (mem s) pg buf\<rparr>))
          (if r < 0 then retM (False, argv @ [(pg, buf)])
           else fetch_args uargv k (argv @ [(pg, buf)]))))) s"

definition free_args :: "(u64 \<times> u8 list) list \<Rightarrow> ('a kproc_state_scheme, unit) M" where
  "free_args argv = eachM (\<lambda>(pg, _). kfree pg) argv"

definition sys_exec :: "('a kproc_state_scheme, u64) M" where
  "sys_exec =
     bindM (argaddr 1) (\<lambda>uargv.
     bindM (argstr 0 MAXPATH) (\<lambda>(r, path).
     if r < 0 then retM (- 1) else
     bindM (fetch_args uargv MAXARG []) (\<lambda>(ok, argv).
       if ok
       then bindM (exec (buf_str path) (map (\<lambda>(_, buf). buf_str buf) argv)) (\<lambda>ret.
              thenM (free_args argv) (retM (of_int ret)))
       else thenM (free_args argv) (retM (- 1)))))"

definition sys_pipe :: "('a kproc_state_scheme, u64) M" where
  "sys_pipe =
     bindM (argaddr 0) (\<lambda>fdarray.
     bindM pipealloc (\<lambda>r. case r of
       None \<Rightarrow> retM (- 1)
     | Some (rfile, wfile) \<Rightarrow>
         let close2 = thenM (fileclose rfile) (thenM (fileclose wfile) (retM (- 1))) in
         bindM (fdalloc rfile) (\<lambda>fd0.
           if fd0 < 0 then close2
           else bindM (fdalloc wfile) (\<lambda>fd1.
             if fd1 < 0 then thenM (modM (set_ofile (nat fd0) None)) close2
             else
               let unset = thenM (modM (set_ofile (nat fd0) None)) (thenM (modM (set_ofile (nat fd1) None)) close2) in
               bindM (\<lambda>s. copyout (p_pagetable (myproc s)) fdarray (bytes_of 4 (of_int fd0 :: u32)) s) (\<lambda>r.
                 if r < 0 then unset
                 else bindM (\<lambda>s. copyout (p_pagetable (myproc s)) (fdarray + 4) (bytes_of 4 (of_int fd1 :: u32)) s) (\<lambda>r.
                   if r < 0 then unset else retM 0))))))"

end
