(* ===== verification/Syscall.thy ===== *)
theory Syscall
  imports Sysfile
begin

text \<open>
  The system call dispatcher, second half of \<^verbatim>\<open>kernel/syscall.c\<close>.
\<close>

fun syscalls :: "nat \<Rightarrow> ('a kproc_state_scheme, u64) M option" where
  "syscalls n =
     (if n = 1 then Some sys_fork else if n = 2 then Some sys_exit else if n = 3 then Some sys_wait
      else if n = 4 then Some sys_pipe else if n = 5 then Some sys_read else if n = 6 then Some sys_kill
      else if n = 7 then Some sys_exec else if n = 8 then Some sys_fstat else if n = 9 then Some sys_chdir
      else if n = 10 then Some sys_dup else if n = 11 then Some sys_getpid else if n = 12 then Some sys_sbrk
      else if n = 13 then Some sys_sleep else if n = 14 then Some sys_uptime else if n = 15 then Some sys_open
      else if n = 16 then Some sys_write else if n = 17 then Some sys_mknod else if n = 18 then Some sys_unlink
      else if n = 19 then Some sys_link else if n = 20 then Some sys_mkdir else if n = 21 then Some sys_close
      else None)"

definition syscall :: "('a kproc_state_scheme, unit) M" where
  "syscall s =
     (let p = myproc s; num = sint (ucast (get_tf p (TF_a 7) s) :: u32) in
      case (if num > 0 \<and> num < 22 then syscalls (nat num) else None) of
        Some f \<Rightarrow> bindM f (\<lambda>r. modM (set_tf p (TF_a 0) r)) s
      | None \<Rightarrow>
          thenM (printf ''%d %s: unknown sys call %d\<newline>''
                  [Num (of_int (p_pid p)), Str (takeWhile (\<lambda>c. c \<noteq> 0) (p_name p)), Num (of_int num)])
            (modM (set_tf p (TF_a 0) (- 1))) s)"

end
