(* ===== verification/Riscv.thy ===== *)
theory Riscv
  imports Machine
begin

text \<open>
  A RISC-V hart as far as the kernel programs it: the integer registers, the control and status
  registers of \<^verbatim>\<open>kernel/riscv.h\<close>, what the hardware does on \<open>mret\<close>, \<open>sret\<close> and on a trap, and the
  code that runs before \<open>main\<close>: \<^verbatim>\<open>kernel/entry.S\<close> and \<^verbatim>\<open>kernel/start.c\<close>.
\<close>

section \<open>Registers\<close>

datatype priv = U_mode | S_mode | M_mode

text \<open>\<open>xr n\<close> is register \<open>x\<close>\<open>n\<close>; the functions \<open>r_\<close> and \<open>w_\<close> of \<^verbatim>\<open>riscv.h\<close> are the selectors and
  updates of the other fields.\<close>

record hart =
  xr :: "nat \<Rightarrow> u64"
  pc :: u64
  priv :: priv
  mhartid :: u64
  mstatus :: u64
  mepc :: u64
  mie :: u64
  medeleg :: u64
  mideleg :: u64
  menvcfg :: u64
  mcounteren :: u64
  pmpcfg0 :: u64
  pmpaddr0 :: u64
  sstatus :: u64
  sie_reg :: u64
  sepc :: u64
  stvec :: u64
  scause :: u64
  stval :: u64
  h_satp :: u64
  sscratch :: u64
  stimecmp :: u64
  time :: u64

abbreviation (input) "x_ra \<equiv> 1 :: nat"
abbreviation (input) "x_sp \<equiv> 2 :: nat"
abbreviation (input) "x_gp \<equiv> 3 :: nat"
abbreviation (input) "x_tp \<equiv> 4 :: nat"
abbreviation (input) "x_t0 \<equiv> 5 :: nat"
abbreviation (input) "x_t1 \<equiv> 6 :: nat"
abbreviation (input) "x_a0 \<equiv> 10 :: nat"

text \<open>The names \<open>s0\<close> to \<open>s11\<close> of registers 8, 9 and 18 to 27.\<close>

definition x_s :: "nat \<Rightarrow> nat" where
  "x_s i = (if i < 2 then 8 + i else 16 + i)"

definition setr :: "nat \<Rightarrow> u64 \<Rightarrow> hart \<Rightarrow> hart" where
  "setr r v h = h\<lparr>xr := (xr h)(r := v)\<rparr>"

abbreviation (input) "MSTATUS_MPP_MASK \<equiv> 0x1800 :: u64"
abbreviation (input) "MSTATUS_MPP_S \<equiv> 0x800 :: u64"
abbreviation (input) "SSTATUS_SPP \<equiv> 0x100 :: u64"
abbreviation (input) "SSTATUS_SPIE \<equiv> 0x20 :: u64"
abbreviation (input) "SSTATUS_SIE \<equiv> 2 :: u64"

definition intr_on :: "hart \<Rightarrow> hart" where
  "intr_on h = h\<lparr>sstatus := sstatus h OR SSTATUS_SIE\<rparr>"

definition intr_off :: "hart \<Rightarrow> hart" where
  "intr_off h = h\<lparr>sstatus := sstatus h AND NOT SSTATUS_SIE\<rparr>"

definition intr_get :: "hart \<Rightarrow> bool" where
  "intr_get h \<longleftrightarrow> sstatus h AND SSTATUS_SIE \<noteq> 0"

section \<open>Hardware\<close>

text \<open>What the privileged architecture says the hart does on a trap taken to supervisor mode and on
  the two return instructions.\<close>

definition put_bit :: "nat \<Rightarrow> bool \<Rightarrow> u64 \<Rightarrow> u64" where
  "put_bit n b w = (if b then set_bit n w else unset_bit n w)"

definition trap_enter :: "u64 \<Rightarrow> u64 \<Rightarrow> hart \<Rightarrow> hart" where
  "trap_enter cause tval h =
     h\<lparr>sstatus := put_bit 8 (priv h = S_mode) (put_bit 5 (bit (sstatus h) 1) (put_bit 1 False (sstatus h))),
       sepc := pc h, scause := cause, stval := tval, pc := stvec h, priv := S_mode\<rparr>"

definition sret :: "hart \<Rightarrow> hart" where
  "sret h =
     h\<lparr>pc := sepc h, priv := (if bit (sstatus h) 8 then S_mode else U_mode),
       sstatus := put_bit 8 False (put_bit 5 True (put_bit 1 (bit (sstatus h) 5) (sstatus h)))\<rparr>"

definition mret :: "hart \<Rightarrow> hart" where
  "mret h =
     h\<lparr>pc := mepc h,
       priv := (if bit (mstatus h) 12 then M_mode else if bit (mstatus h) 11 then S_mode else U_mode),
       mstatus := put_bit 11 False (put_bit 12 False (put_bit 7 True (put_bit 3 (bit (mstatus h) 7) (mstatus h))))\<rparr>"

lemma bit_put_bit: "bit (put_bit n b w) k \<longleftrightarrow> (if k = n then b \<and> n < 64 else bit w k)"
  by (auto simp: put_bit_def bit_simps dest: bit_imp_le_length)

section \<open>Entry and start\<close>

text \<open>\<open>_entry\<close>, with \<open>stack0\<close> the address of the array of that name.\<close>

definition entry_S :: "u64 \<Rightarrow> u64 \<Rightarrow> hart \<Rightarrow> hart" where
  "entry_S stack0 start_addr h =
     (let h = setr x_sp stack0 h;
          h = setr x_a0 (1024 * 4) h;
          h = setr 11 (mhartid h) h;
          h = setr 11 (xr h 11 + 1) h;
          h = setr x_a0 (xr h x_a0 * xr h 11) h;
          h = setr x_sp (xr h x_sp + xr h x_a0) h
      in h\<lparr>pc := start_addr\<rparr>)"

definition timerinit :: "hart \<Rightarrow> hart" where
  "timerinit h =
     (let h = h\<lparr>mie := mie h OR 0x20\<rparr>;
          h = h\<lparr>menvcfg := menvcfg h OR push_bit 63 1\<rparr>;
          h = h\<lparr>mcounteren := mcounteren h OR 2\<rparr>
      in h\<lparr>stimecmp := time h + 1000000\<rparr>)"

text \<open>\<open>start()\<close>; the local \<open>int id\<close> is the low half of \<open>mhartid\<close>, sign-extended into \<open>tp\<close>.\<close>

definition start :: "u64 \<Rightarrow> hart \<Rightarrow> hart" where
  "start main_addr h =
     (let x = mstatus h;
          x = x AND NOT MSTATUS_MPP_MASK;
          x = x OR MSTATUS_MPP_S;
          h = h\<lparr>mstatus := x\<rparr>;
          h = h\<lparr>mepc := main_addr\<rparr>;
          h = h\<lparr>h_satp := 0\<rparr>;
          h = h\<lparr>medeleg := 0xffff\<rparr>;
          h = h\<lparr>mideleg := 0xffff\<rparr>;
          h = h\<lparr>sie_reg := sie_reg h OR 0x200 OR 0x20 OR 2\<rparr>;
          h = h\<lparr>pmpaddr0 := 0x3fffffffffffff\<rparr>;
          h = h\<lparr>pmpcfg0 := 0xf\<rparr>;
          h = timerinit h;
          h = setr x_tp (signed (ucast (mhartid h) :: u32)) h
      in mret h)"

lemma start_fields:
  "priv (start main_addr h) = S_mode" "pc (start main_addr h) = main_addr" "h_satp (start main_addr h) = 0"
  "xr (start main_addr h) x_tp = signed (ucast (mhartid h) :: u32)"
  "r \<noteq> x_tp \<Longrightarrow> xr (start main_addr h) r = xr h r"
  "stimecmp (start main_addr h) = time h + 1000000"
  by (simp_all add: start_def timerinit_def mret_def setr_def Let_def bit_simps bit_numeral_rec)

lemma entry_sp: "xr (entry_S stack0 a h) x_sp = stack0 + 4096 * (mhartid h + 1)" "mhartid (entry_S stack0 a h) = mhartid h"
  by (simp_all add: entry_S_def setr_def Let_def)

definition boot_hart :: "u64 \<Rightarrow> u64 \<Rightarrow> u64 \<Rightarrow> hart \<Rightarrow> hart" where
  "boot_hart stack0 start_addr main_addr h = start main_addr (entry_S stack0 start_addr h)"

lemma boot_sp:
  assumes "unat stack0 + 4096 * NCPU < 2 ^ 64" and "unat (mhartid h) < NCPU"
  shows "unat (xr (boot_hart stack0 sa ma h) x_sp) = unat stack0 + 4096 * (unat (mhartid h) + 1)"
proof -
  have "xr (boot_hart stack0 sa ma h) x_sp = of_nat (unat stack0 + 4096 * (unat (mhartid h) + 1))"
    by (simp add: boot_hart_def start_fields entry_sp algebra_simps)
  then have "unat (xr (boot_hart stack0 sa ma h) x_sp) = (unat stack0 + 4096 * (unat (mhartid h) + 1)) mod 2 ^ 64"
    by (simp only: unat_of_nat) simp
  then show ?thesis using assms by simp
qed

lemma boot_tp:
  assumes "unat (mhartid h) < NCPU"
  shows "xr (boot_hart stack0 sa ma h) x_tp = mhartid h"
proof -
  have "xr (boot_hart stack0 sa ma h) x_tp = signed (ucast (mhartid h) :: u32)"
    by (simp add: boot_hart_def start_fields entry_sp)
  also have "\<dots> = mhartid h"
  proof (rule bit_word_eqI)
    fix n assume "n < LENGTH(64)"
    have small: "\<not> bit (mhartid h) k" if "3 \<le> k" for k
    proof -
      have "(2 :: nat) ^ 3 \<le> 2 ^ k" using that by (intro power_increasing) simp_all
      then have "unat (mhartid h) div 2 ^ k = 0" using assms by simp
      then have "\<not> bit (unat (mhartid h)) k" by (simp add: bit_iff_odd)
      then show ?thesis by (simp add: bit_unsigned_iff)
    qed
    show "bit (signed (ucast (mhartid h) :: u32) :: u64) n = bit (mhartid h) n"
      using small by (auto simp: bit_simps min_def not_less)
  qed
  finally show ?thesis .
qed

text \<open>
  C38: Booting gives every hart its own stack: each hart enters \<open>main\<close> in supervisor mode with paging
  off, its number in \<open>tp\<close>, and a stack pointer at the top of a 4096-byte stack inside \<open>stack0\<close>; the
  stacks of different harts do not overlap.
\<close>

theorem boot_stacks_disjoint:
  assumes "unat stack0 + 4096 * NCPU < 2 ^ 64"
    and "unat (mhartid h) < NCPU" and "unat (mhartid h') < NCPU" and "mhartid h \<noteq> mhartid h'"
  shows "let b = boot_hart stack0 sa main_addr h; b' = boot_hart stack0 sa main_addr h' in
    priv b = S_mode \<and> pc b = main_addr \<and> h_satp b = 0 \<and> xr b x_tp = mhartid h \<and>
    unat stack0 + 4096 \<le> unat (xr b x_sp) \<and> unat (xr b x_sp) \<le> unat stack0 + 4096 * NCPU \<and>
    (unat (xr b x_sp) \<le> unat (xr b' x_sp) - 4096 \<or> unat (xr b' x_sp) \<le> unat (xr b x_sp) - 4096)"
proof -
  have ne: "unat (mhartid h) \<noteq> unat (mhartid h')" using assms(4) by (simp add: word_unat_eq_iff)
  have "unat (mhartid h) + 1 \<le> unat (mhartid h') \<or> unat (mhartid h') + 1 \<le> unat (mhartid h)" using ne by linarith
  then show ?thesis
    using boot_sp [OF assms(1,2), of sa main_addr] boot_sp [OF assms(1,3), of sa main_addr]
      boot_tp [OF assms(2), of stack0 sa main_addr] assms(2)
    by (auto simp: Let_def boot_hart_def start_fields)
qed

text \<open>A hart as it comes out of reset.\<close>

definition reset_hart :: "u64 \<Rightarrow> hart" where
  "reset_hart i = \<lparr>xr = \<lambda>_. 0, pc = 0x80000000, priv = M_mode, mhartid = i, mstatus = 0, mepc = 0, mie = 0, medeleg = 0,
     mideleg = 0, menvcfg = 0, mcounteren = 0, pmpcfg0 = 0, pmpaddr0 = 0, sstatus = 0, sie_reg = 0, sepc = 0,
     stvec = 0, scause = 0, stval = 0, h_satp = 0, sscratch = 0, stimecmp = 0, time = 0\<rparr>"

theorem boot_stacks_disjoint_witness:
  "priv (boot_hart 0x80009000 0x8000001c 0x80000a00 (reset_hart 1)) = S_mode \<and>
   unat (xr (boot_hart 0x80009000 0x8000001c 0x80000a00 (reset_hart 1)) x_sp) \<le>
   unat (xr (boot_hart 0x80009000 0x8000001c 0x80000a00 (reset_hart 2)) x_sp) - 4096"
  using boot_stacks_disjoint [of "0x80009000" "reset_hart 1" "reset_hart 2" "0x8000001c" "0x80000a00"]
    boot_sp [of "0x80009000" "reset_hart 1" "0x8000001c" "0x80000a00"]
    boot_sp [of "0x80009000" "reset_hart 2" "0x8000001c" "0x80000a00"]
  by (simp add: Let_def reset_hart_def)

end
