(* ===== verification/Trampoline.thy ===== *)
theory Trampoline
  imports Riscv Proc_State
begin

text \<open>
  The assembly code that changes what a hart is executing: \<open>uservec\<close> and \<open>userret\<close>
  (\<^verbatim>\<open>kernel/trampoline.S\<close>), \<open>kernelvec\<close> (\<^verbatim>\<open>kernel/kernelvec.S\<close>) and \<open>swtch\<close> (\<^verbatim>\<open>kernel/swtch.S\<close>).
  Each instruction is one line of the definitions. The trapframe is written through the virtual
  address \<open>TRAPFRAME\<close>, which \<open>proc_pagetable\<close> maps to the page \<open>tf\<close> of the process.
\<close>

section \<open>Saving and loading registers\<close>

text \<open>A run of \<open>sd\<close> or \<open>ld\<close> instructions relative to one base address: register and offset.\<close>

fun sd_regs :: "u64 \<Rightarrow> (nat \<times> nat) list \<Rightarrow> (nat \<Rightarrow> u64) \<Rightarrow> memory \<Rightarrow> memory" where
  "sd_regs b [] x m = m"
| "sd_regs b ((r, off) # rs) x m = sd_regs b rs x (store64 m (b + of_nat off) (x r))"

fun ld_regs :: "u64 \<Rightarrow> (nat \<times> nat) list \<Rightarrow> memory \<Rightarrow> (nat \<Rightarrow> u64) \<Rightarrow> nat \<Rightarrow> u64" where
  "ld_regs b [] m x = x"
| "ld_regs b ((r, off) # rs) m x = ld_regs b rs m (x(r := load64 m (b + of_nat off)))"

text \<open>Offsets of different 8-byte slots.\<close>

lemma slot_apart:
  assumes "k + 8 \<le> k' \<or> k' + 8 \<le> k" and "k < 2 ^ 32" and "k' < 2 ^ 32" and "i < 8"
  shows "8 \<le> unat ((b :: u64) + of_nat k' + of_nat i - (b + of_nat k))"
proof -
  define d where "d = (of_nat (k' + i) - of_nat k :: u64)"
  have "8 \<le> unat d"
  proof (cases "k + 8 \<le> k'")
    case True
    then have "d = of_nat (k' + i - k)" by (simp add: d_def of_nat_diff)
    then have "unat d = k' + i - k" using assms by (simp add: unat_of_nat)
    then show ?thesis using True by simp
  next
    case False
    then have lt: "k' + i < k" using assms by linarith
    then have "d = - of_nat (k - (k' + i))" by (simp add: d_def of_nat_diff)
    also have "\<dots> = of_nat (2 ^ 64 - (k - (k' + i)))" using assms(2) by (simp add: of_nat_diff)
    finally have "unat d = 2 ^ 64 - (k - (k' + i))" using lt by (simp only: unat_of_nat) simp
    then show ?thesis using lt assms by simp
  qed
  then show ?thesis by (simp add: d_def algebra_simps)
qed

lemma load64_store64_slot:
  assumes "k + 8 \<le> k' \<or> k' + 8 \<le> k" and "k < 2 ^ 32" and "k' < 2 ^ 32"
  shows "load64 (store64 m (b + of_nat k) w) (b + of_nat k') = load64 m (b + of_nat k')"
  by (rule load64_cong) (use slot_apart [OF assms, of _ b] in \<open>force simp: store64_apply\<close>)

definition slots :: "(nat \<times> nat) list \<Rightarrow> bool" where
  "slots rs \<longleftrightarrow> distinct (map fst rs) \<and> distinct (map snd rs) \<and> (\<forall>(r, off)\<in>set rs. off mod 8 = 0 \<and> off < 2 ^ 32)"

lemma slots_Cons: "slots ((r, off) # rs) \<longleftrightarrow>
   slots rs \<and> r \<notin> fst ` set rs \<and> off \<notin> snd ` set rs \<and> off mod 8 = 0 \<and> off < 2 ^ 32"
  by (auto simp: slots_def)

lemma mod8_apart: "(a :: nat) mod 8 = 0 \<Longrightarrow> b mod 8 = 0 \<Longrightarrow> a \<noteq> b \<Longrightarrow> a + 8 \<le> b \<or> b + 8 \<le> a"
  by presburger

lemma sd_regs_other:
  assumes "slots rs" and "off \<notin> snd ` set rs" and "off mod 8 = 0" and "off < 2 ^ 32"
  shows "load64 (sd_regs b rs x m) (b + of_nat off) = load64 m (b + of_nat off)"
  using assms(1,2)
proof (induction rs arbitrary: m)
  case (Cons a rs)
  obtain r k where a: "a = (r, k)" by (cases a)
  have "k + 8 \<le> off \<or> off + 8 \<le> k" using Cons.prems assms(3) mod8_apart [of k off] by (auto simp: a slots_Cons)
  moreover have "k < 2 ^ 32" using Cons.prems by (simp add: a slots_Cons)
  ultimately show ?case using Cons assms(4) by (simp add: a slots_Cons load64_store64_slot)
qed simp

lemma sd_regs_same:
  assumes "slots rs" and "(r, off) \<in> set rs"
  shows "load64 (sd_regs b rs x m) (b + of_nat off) = x r"
  using assms
proof (induction rs arbitrary: m)
  case (Cons a rs)
  obtain r' k where a: "a = (r', k)" by (cases a)
  show ?case
  proof (cases "(r, off) = a")
    case True
    then show ?thesis using Cons.prems sd_regs_other [of rs off b x] by (auto simp: a slots_Cons)
  next
    case False
    then show ?thesis using Cons by (auto simp: a slots_Cons)
  qed
qed simp

lemma ld_regs_other: "r \<notin> fst ` set rs \<Longrightarrow> ld_regs b rs m x r = x r"
  by (induction rs arbitrary: x) auto

lemma ld_regs_same: "slots rs \<Longrightarrow> (r, off) \<in> set rs \<Longrightarrow> ld_regs b rs m x r = load64 m (b + of_nat off)"
proof (induction rs arbitrary: x)
  case (Cons a rs)
  obtain r' k where a: "a = (r', k)" by (cases a)
  then show ?case using Cons ld_regs_other [of r rs b m] by (auto simp: a slots_Cons)
qed simp

section \<open>The trampoline\<close>

text \<open>All registers but \<open>a0\<close>, with their offsets in \<open>struct trapframe\<close>, in the order of the code.\<close>

definition user_regs :: "(nat \<times> nat) list" where
  "user_regs =
     [(1, 40), (2, 48), (3, 56), (4, 64), (5, 72), (6, 80), (7, 88), (8, 96), (9, 104),
      (11, 120), (12, 128), (13, 136), (14, 144), (15, 152), (16, 160), (17, 168),
      (18, 176), (19, 184), (20, 192), (21, 200), (22, 208), (23, 216), (24, 224), (25, 232), (26, 240), (27, 248),
      (28, 256), (29, 264), (30, 272), (31, 280)]"

definition uservec :: "u64 \<Rightarrow> hart \<times> memory \<Rightarrow> hart \<times> memory" where
  "uservec tf = (\<lambda>(h, m).
     let h = h\<lparr>sscratch := xr h x_a0\<rparr>;
         h = setr x_a0 TRAPFRAME h;
         m = sd_regs tf user_regs (xr h) m;
         h = setr x_t0 (sscratch h) h;
         m = store64 m (tf + 112) (xr h x_t0);
         h = setr x_sp (load64 m (tf + 8)) h;
         h = setr x_tp (load64 m (tf + 32)) h;
         h = setr x_t0 (load64 m (tf + 16)) h;
         h = setr x_t1 (load64 m (tf + 0)) h;
         h = h\<lparr>h_satp := xr h x_t1\<rparr>;
         h = h\<lparr>pc := xr h x_t0\<rparr>
     in (h, m))"

definition userret :: "u64 \<Rightarrow> hart \<times> memory \<Rightarrow> hart \<times> memory" where
  "userret tf = (\<lambda>(h, m).
     let h = h\<lparr>h_satp := xr h x_a0\<rparr>;
         h = setr x_a0 TRAPFRAME h;
         h = h\<lparr>xr := ld_regs tf user_regs m (xr h)\<rparr>;
         h = setr x_a0 (load64 m (tf + 112)) h
     in (sret h, m))"

lemma slots_user_regs: "slots user_regs"
  by (simp add: slots_def user_regs_def)

lemma user_regs_iff: "r \<in> fst ` set user_regs \<longleftrightarrow> 1 \<le> r \<and> r \<le> 31 \<and> r \<noteq> x_a0"
  by (simp add: user_regs_def) presburger

lemma user_regs_slot: "(r, off) \<in> set user_regs \<Longrightarrow> off mod 8 = 0 \<and> 40 \<le> off \<and> off \<le> 280 \<and> off \<noteq> 112"
  by (auto simp: user_regs_def)

lemma uservec_saves:
  assumes "uservec tf (h, m) = (h1, m1)"
  shows "(r, off) \<in> set user_regs \<Longrightarrow> load64 m1 (tf + of_nat off) = xr h r"
    and "load64 m1 (tf + 112) = xr h x_a0"
    and "off < 40 \<Longrightarrow> off mod 8 = 0 \<Longrightarrow> load64 m1 (tf + of_nat off) = load64 m (tf + of_nat off)"
proof -
  define x where "x = (xr h)(x_a0 := TRAPFRAME)"
  have m1: "m1 = store64 (sd_regs tf user_regs x m) (tf + of_nat 112) (xr h x_a0)"
    using assms by (simp add: uservec_def setr_def Let_def x_def)
  show "load64 m1 (tf + 112) = xr h x_a0" using m1 by simp
  have other: "load64 m1 (tf + of_nat k) = load64 (sd_regs tf user_regs x m) (tf + of_nat k)"
    if "k mod 8 = 0" "k \<noteq> 112" "k < 2 ^ 32" for k
    unfolding m1 by (rule load64_store64_slot) (use that mod8_apart [of 112 k] in simp_all)
  show "load64 m1 (tf + of_nat off) = xr h r" if "(r, off) \<in> set user_regs"
  proof -
    have "r \<noteq> x_a0" using user_regs_iff [of r] that by force
    then show ?thesis
      using other [of off] user_regs_slot [OF that] sd_regs_same [OF slots_user_regs that, of tf x m] by (simp add: x_def)
  qed
  show "load64 m1 (tf + of_nat off) = load64 m (tf + of_nat off)" if "off < 40" "off mod 8 = 0"
    using other [of off] sd_regs_other [OF slots_user_regs, of off tf x m] that user_regs_slot by force
qed

lemma uservec_kernel:
  assumes "uservec tf (h, m) = (h1, m1)"
  shows "xr h1 x_sp = load64 m (tf + 8)" and "xr h1 x_tp = load64 m (tf + 32)"
    and "pc h1 = load64 m (tf + 16)" and "h_satp h1 = load64 m tf"
  using assms uservec_saves(3) [OF assms, of 8] uservec_saves(3) [OF assms, of 32]
    uservec_saves(3) [OF assms, of 16] uservec_saves(3) [OF assms, of 0]
  by (auto simp: uservec_def setr_def Let_def)

lemma userret_regs:
  "(r, off) \<in> set user_regs \<Longrightarrow> xr (fst (userret tf (h, m))) r = load64 m (tf + of_nat off)"
  "xr (fst (userret tf (h, m))) x_a0 = load64 m (tf + 112)"
proof -
  show "xr (fst (userret tf (h, m))) r = load64 m (tf + of_nat off)" if "(r, off) \<in> set user_regs"
  proof -
    have "r \<noteq> x_a0" using user_regs_iff [of r] that by force
    then show ?thesis using ld_regs_same [OF slots_user_regs that] by (simp add: userret_def setr_def Let_def sret_def)
  qed
  show "xr (fst (userret tf (h, m))) x_a0 = load64 m (tf + 112)"
    by (simp add: userret_def setr_def Let_def sret_def)
qed

text \<open>
  C35: A trap is invisible to the registers of the user program. \<open>uservec\<close> saves all 31 of them and
  enters the kernel with the stack, hart number, page table and entry point that the trapframe
  holds; whatever the kernel does meanwhile to the registers and to the rest of memory,
  \<open>userret\<close> brings back every register as it was, and \<open>a0\<close> as the trapframe holds it then, which
  is how a system call returns its result.
\<close>

theorem user_registers_preserved:
  assumes "uservec tf (h, m) = (h1, m1)"
    and "\<And>r off. (r, off) \<in> set user_regs \<Longrightarrow> load64 m2 (tf + of_nat off) = load64 m1 (tf + of_nat off)"
    and "1 \<le> r" and "r \<le> 31"
  shows "xr (fst (userret tf (h2, m2))) r = (if r = x_a0 then load64 m2 (tf + 112) else xr h r) \<and>
    load64 m1 (tf + 112) = xr h x_a0 \<and>
    xr h1 x_sp = load64 m (tf + 8) \<and> xr h1 x_tp = load64 m (tf + 32) \<and> pc h1 = load64 m (tf + 16) \<and> h_satp h1 = load64 m tf"
proof -
  have "xr (fst (userret tf (h2, m2))) r = xr h r" if ne: "r \<noteq> x_a0"
  proof -
    have "r \<in> fst ` set user_regs" using user_regs_iff [of r] assms(3,4) ne by simp
    then obtain off where "(r, off) \<in> set user_regs" by force
    then show ?thesis using userret_regs(1) assms(2) uservec_saves(1) [OF assms(1)] by simp
  qed
  then show ?thesis using userret_regs(2) uservec_saves(2) [OF assms(1)] uservec_kernel [OF assms(1)] by simp
qed

theorem user_registers_preserved_witness:
  "xr (fst (userret 0x87000000 (reset_hart 0, snd (uservec 0x87000000 ((reset_hart 0)\<lparr>xr := of_nat\<rparr>, \<lambda>_. 0))))) 31 = 31"
proof -
  obtain h1 m1 where u: "uservec 0x87000000 ((reset_hart 0)\<lparr>xr := of_nat\<rparr>, \<lambda>_. 0) = (h1, m1)" by (rule prod.exhaust)
  show ?thesis using user_registers_preserved [OF u, of m1 31 "reset_hart 0"] u by simp
qed

section \<open>Context switch\<close>

definition swtch :: "kcontext \<Rightarrow> hart \<Rightarrow> kcontext \<times> hart" where
  "swtch new h =
     (\<lparr>c_ra = xr h x_ra, c_sp = xr h x_sp, c_s = (\<lambda>i. if i < 12 then xr h (x_s i) else 0)\<rparr>,
      h\<lparr>xr := (\<lambda>r. if r = x_ra then c_ra new else if r = x_sp then c_sp new
                  else if r = 8 \<or> r = 9 then c_s new (r - 8)
                  else if 18 \<le> r \<and> r \<le> 27 then c_s new (r - 16) else xr h r),
        pc := c_ra new\<rparr>)"

text \<open>
  C37: A kernel thread does not notice that it was switched out: when \<open>swtch\<close> is called with the
  context that an earlier \<open>swtch\<close> of this thread saved, on whatever hart and after whatever other
  threads ran, execution goes on right after that earlier call, with its stack pointer and all
  callee-saved registers.
\<close>

theorem swtch_roundtrip:
  assumes "swtch new h = (saved, h1)" and "r \<in> {1, 2, 8, 9} \<union> {18..27}"
  shows "xr (snd (swtch saved h2)) r = xr h r \<and> pc (snd (swtch saved h2)) = xr h x_ra"
proof -
  have "x_s (r - 8) = r" if "r = 8 \<or> r = 9" using that by (auto simp: x_s_def)
  moreover have "x_s (r - 16) = r" if "18 \<le> r" "r \<le> 27" using that by (auto simp: x_s_def)
  ultimately show ?thesis using assms by (auto simp: swtch_def)
qed

theorem swtch_roundtrip_witness:
  "xr (snd (swtch (fst (swtch \<lparr>c_ra = 0, c_sp = 0, c_s = \<lambda>_. 0\<rparr> ((reset_hart 0)\<lparr>xr := of_nat\<rparr>))) (reset_hart 1))) 27 = 27"
  using swtch_roundtrip [of "\<lparr>c_ra = 0, c_sp = 0, c_s = \<lambda>_. 0\<rparr>" "(reset_hart 0)\<lparr>xr := of_nat\<rparr>" _ _ 27 "reset_hart 1",
      OF surjective_pairing]
  by simp

section \<open>Traps in the kernel\<close>

text \<open>The caller-saved registers, with their offsets from the stack pointer.\<close>

definition kernel_regs :: "(nat \<times> nat) list" where
  "kernel_regs =
     [(1, 0), (2, 8), (3, 16), (4, 24), (5, 32), (6, 40), (7, 48),
      (10, 72), (11, 80), (12, 88), (13, 96), (14, 104), (15, 112), (16, 120), (17, 128),
      (28, 216), (29, 224), (30, 232), (31, 240)]"

text \<open>\<open>kernelvec\<close>; \<open>kt\<close> is \<open>kerneltrap\<close>. All but \<open>ra\<close>, \<open>sp\<close> and \<open>tp\<close> are loaded relative to the
  \<open>sp\<close> that has just been loaded.\<close>

definition kernelvec :: "(hart \<times> memory \<Rightarrow> hart \<times> memory) \<Rightarrow> hart \<times> memory \<Rightarrow> hart \<times> memory" where
  "kernelvec kt = (\<lambda>(h, m).
     let h = setr x_sp (xr h x_sp - 256) h;
         m = sd_regs (xr h x_sp) kernel_regs (xr h) m;
         (h, m) = kt (h, m);
         h = setr x_ra (load64 m (xr h x_sp)) h;
         h = setr x_sp (load64 m (xr h x_sp + 8)) h;
         h = setr x_gp (load64 m (xr h x_sp + 16)) h;
         h = h\<lparr>xr := ld_regs (xr h x_sp) (drop 4 kernel_regs) m (xr h)\<rparr>;
         h = setr x_sp (xr h x_sp + 256) h
     in (sret h, m))"

lemma slots_kernel_regs: "slots kernel_regs" "slots (drop 4 kernel_regs)"
  by (simp_all add: slots_def kernel_regs_def)

lemma kernel_regs_drop: "set (drop 4 kernel_regs) \<subseteq> set kernel_regs" "(2, 8) \<in> set kernel_regs"
  "(1, 0) \<in> set kernel_regs" "(3, 16) \<in> set kernel_regs"
  by (auto simp: kernel_regs_def)

lemma kernel_regs_iff: "r \<in> fst ` set (drop 4 kernel_regs) \<longleftrightarrow> r \<in> {5, 6, 7} \<union> {10..17} \<union> {28..31}"
  by (simp add: kernel_regs_def) presburger

text \<open>
  C36: An interrupt in the kernel is invisible to the code it interrupts: if \<open>kerneltrap\<close> keeps its
  stack pointer, the callee-saved registers and the frame above its stack, as compiled code does,
  then after \<open>kernelvec\<close> every register has its old value, except \<open>tp\<close>, which keeps the number of
  the hart the thread now runs on.
\<close>

theorem kernelvec_preserves_registers:
  fixes h :: hart and m :: memory
  defines "b \<equiv> xr h x_sp - 256"
  assumes kt: "kt (setr x_sp b h, sd_regs b kernel_regs (xr (setr x_sp b h)) m) = (h2, m2)"
    and sp: "xr h2 x_sp = b"
    and callee: "\<And>r. r \<in> {8, 9} \<union> {18..27} \<Longrightarrow> xr h2 r = xr h r"
    and frame: "\<And>r off. (r, off) \<in> set kernel_regs \<Longrightarrow>
      load64 m2 (b + of_nat off) = load64 (sd_regs b kernel_regs (xr (setr x_sp b h)) m) (b + of_nat off)"
    and r: "1 \<le> r" "r \<le> 31"
  shows "xr (fst (kernelvec kt (h, m))) r = (if r = x_tp then xr h2 x_tp else xr h r)"
proof -
  have val: "load64 m2 (b + of_nat off) = (if r = x_sp then b else xr h r)" if "(r, off) \<in> set kernel_regs" for r off
    using frame [OF that] sd_regs_same [OF slots_kernel_regs(1) that, of b] by (simp add: setr_def)
  have ra: "load64 m2 b = xr h x_ra" and s2: "load64 m2 (b + 8) = b" and gp: "load64 m2 (b + 16) = xr h x_gp"
    using val [OF kernel_regs_drop(3)] val [OF kernel_regs_drop(2)] val [OF kernel_regs_drop(4)] by simp_all
  define x where "x = ((xr h2)(x_ra := xr h x_ra, x_sp := b, x_gp := xr h x_gp))"
  have res: "xr (fst (kernelvec kt (h, m))) = (ld_regs b (drop 4 kernel_regs) m2 x)(x_sp := ld_regs b (drop 4 kernel_regs) m2 x x_sp + 256)"
    using kt sp ra s2 gp by (simp add: kernelvec_def setr_def Let_def sret_def x_def b_def fun_upd_twist)
  show ?thesis
  proof (cases "r \<in> fst ` set (drop 4 kernel_regs)")
    case True
    then obtain off where off: "(r, off) \<in> set (drop 4 kernel_regs)" by force
    moreover from this have "load64 m2 (b + of_nat off) = xr h r" using val [of r off] kernel_regs_drop(1) True kernel_regs_iff by auto
    ultimately show ?thesis using res ld_regs_same [OF slots_kernel_regs(2) off] True kernel_regs_iff by auto
  next
    case False
    then have "ld_regs b (drop 4 kernel_regs) m2 x r = x r" by (rule ld_regs_other)
    moreover have "r \<in> {1, 2, 3, 4} \<union> ({8, 9} \<union> {18..27})" using False r kernel_regs_iff by auto
    moreover have "b + 256 = xr h x_sp" by (simp add: b_def)
    ultimately show ?thesis using res callee [of r] by (auto simp: x_def)
  qed
qed

theorem kernelvec_preserves_registers_witness:
  "xr (fst (kernelvec (\<lambda>(h, m). (setr x_a0 7 h, m)) ((reset_hart 0)\<lparr>xr := of_nat\<rparr>, \<lambda>_. 0))) x_a0 = 10"
proof -
  define h where "h = (reset_hart 0)\<lparr>xr := of_nat\<rparr>"
  define h2 where "h2 = setr x_a0 7 (setr x_sp (xr h x_sp - 256) h)"
  have "xr (fst (kernelvec (\<lambda>(h, m). (setr x_a0 7 h, m)) (h, \<lambda>_. 0))) x_a0 =
      (if x_a0 = x_tp then xr h2 x_tp else xr h x_a0)"
    by (rule kernelvec_preserves_registers [where ?m2.0 = "sd_regs (xr h x_sp - 256) kernel_regs (xr (setr x_sp (xr h x_sp - 256) h)) (\<lambda>_. 0)"])
      (auto simp: h2_def setr_def)
  then show ?thesis by (simp add: h_def)
qed

end
