(* ===== verification/Trap.thy ===== *)
theory Trap
  imports Syscall Virtio Trampoline
begin

text \<open>
  Traps: \<^verbatim>\<open>kernel/trap.c\<close> and \<^verbatim>\<open>kernel/plic.c\<close>, and what runs before and after them:
  \<open>forkret\<close> of \<^verbatim>\<open>kernel/proc.c\<close>, \<open>main\<close> of \<^verbatim>\<open>kernel/main.c\<close>, and the whole way of a trap from
  user space through \<open>uservec\<close>, \<open>usertrap\<close>, \<open>usertrapret\<close> and \<open>userret\<close>.
\<close>

section \<open>State\<close>

text \<open>
  The hart the code runs on, the registers of the interrupt controller, whether the hart runs a
  process (\<open>myproc() != 0\<close>), and the addresses of the entry points. The value of the claim register
  is supplied by the hardware.
\<close>

record trap_hw =
  hrt :: hart
  plic :: "u64 \<Rightarrow> u32"
  in_proc :: bool
  kernelvec_addr :: u64
  uservec_addr :: u64
  userret_addr :: u64
  usertrap_addr :: u64

record trap_state = virtio_state +
  hw :: trap_hw

definition upd_hart :: "(hart \<Rightarrow> hart) \<Rightarrow> 'a trap_state_scheme \<Rightarrow> 'a trap_state_scheme" where
  "upd_hart f s = s\<lparr>hw := (hw s)\<lparr>hrt := f (hrt (hw s))\<rparr>\<rparr>"

abbreviation (input) the_hart :: "'a trap_state_scheme \<Rightarrow> hart" where
  "the_hart s \<equiv> hrt (hw s)"

definition cpuid :: "'a trap_state_scheme \<Rightarrow> u64" where
  "cpuid s = xr (the_hart s) x_tp"

section \<open>Interrupt controller\<close>

abbreviation (input) "PLIC_SENABLE h \<equiv> PLIC + 0x2080 + h * 0x100"
abbreviation (input) "PLIC_SPRIORITY h \<equiv> PLIC + 0x201000 + h * 0x2000"
abbreviation (input) "PLIC_SCLAIM h \<equiv> PLIC + 0x201004 + h * 0x2000"

definition plic_write :: "u64 \<Rightarrow> u32 \<Rightarrow> ('a trap_state_scheme, unit) M" where
  "plic_write a v = modM (\<lambda>s. s\<lparr>hw := (hw s)\<lparr>plic := (plic (hw s))(a := v)\<rparr>\<rparr>)"

definition plicinit :: "('a trap_state_scheme, unit) M" where
  "plicinit =
     thenM (plic_write (PLIC + ucast UART0_IRQ * 4) 1)
           (plic_write (PLIC + ucast VIRTIO0_IRQ * 4) 1)"

definition plicinithart :: "('a trap_state_scheme, unit) M" where
  "plicinithart s =
     (let hart = cpuid s in
      thenM (plic_write (PLIC_SENABLE hart) (push_bit (unat UART0_IRQ) 1 OR push_bit (unat VIRTIO0_IRQ) 1))
            (plic_write (PLIC_SPRIORITY hart) 0) s)"

definition plic_claim :: "('a trap_state_scheme, u32) M" where
  "plic_claim s = Ret (plic (hw s) (PLIC_SCLAIM (cpuid s))) s"

definition plic_complete :: "u32 \<Rightarrow> ('a trap_state_scheme, unit) M" where
  "plic_complete irq s = plic_write (PLIC_SCLAIM (cpuid s)) irq s"

section \<open>Interrupts\<close>

definition trapinithart :: "('a trap_state_scheme, unit) M" where
  "trapinithart = modM (\<lambda>s. upd_hart (\<lambda>h. h\<lparr>stvec := kernelvec_addr (hw s)\<rparr>) s)"

definition clockintr :: "('a trap_state_scheme, unit) M" where
  "clockintr =
     thenM (modM (\<lambda>s. if cpuid s = 0 then wakeup Chan_ticks (s\<lparr>ticks := ticks s + 1\<rparr>) else s))
           (modM (upd_hart (\<lambda>h. h\<lparr>stimecmp := time h + 1000000\<rparr>)))"

definition devintr :: "('a trap_state_scheme, int) M" where
  "devintr s =
     (if scause (the_hart s) = 0x8000000000000009
      then bindM plic_claim (\<lambda>irq.
        thenM (if irq = UART0_IRQ then uartintr
               else if irq = VIRTIO0_IRQ then virtio_disk_intr
               else whenM (irq \<noteq> 0) (printf ''unexpected interrupt irq=%d\<newline>'' [Num (ucast irq)]))
       (thenM (whenM (irq \<noteq> 0) (plic_complete irq)) (retM 1))) s
      else if scause (the_hart s) = 0x8000000000000005
      then thenM clockintr (retM 2) s
      else Ret 0 s)"

text \<open>
  \<open>yield()\<close>: the process leaves the CPU and comes back. \<open>others\<close> stands for everything that other
  processes, interrupts and CPUs do meanwhile.
\<close>

definition yield :: "('a trap_state_scheme \<Rightarrow> 'a trap_state_scheme) \<Rightarrow> ('a trap_state_scheme, unit) M" where
  "yield others s =
     (let i = cur s; s = upd_proc i (\<lambda>p. p\<lparr>p_state := RUNNABLE\<rparr>) s; s = others s in
      Ret () ((upd_proc i (\<lambda>p. p\<lparr>p_state := RUNNING\<rparr>) s)\<lparr>cur := i\<rparr>))"

definition kerneltrap :: "('a trap_state_scheme \<Rightarrow> 'a trap_state_scheme) \<Rightarrow> ('a trap_state_scheme, unit) M" where
  "kerneltrap others s =
     (let h = the_hart s in
      if sstatus h AND SSTATUS_SPP = 0 then Panic ''kerneltrap: not from supervisor mode''
      else if intr_get h then Panic ''kerneltrap: interrupts enabled''
      else bindM devintr (\<lambda>which_dev.
        if which_dev = 0
        then thenM (\<lambda>s. printf ''scause=0x%lx sepc=0x%lx stval=0x%lx\<newline>''
               [Num (scause h), Num (sepc (the_hart s)), Num (stval (the_hart s))] s) (panicM ''kerneltrap'')
        else thenM (\<lambda>s. whenM (which_dev = 2 \<and> in_proc (hw s)) (yield others) s)
                   (modM (upd_hart (\<lambda>g. g\<lparr>sepc := sepc h, sstatus := sstatus h\<rparr>)))) s)"

section \<open>To and from user space\<close>

text \<open>
  \<open>usertrapret()\<close> up to its jump to \<open>userret\<close>, whose argument \<open>satp\<close> is in \<open>a0\<close>.
\<close>

definition usertrapret :: "('a trap_state_scheme, unit) M" where
  "usertrapret s =
     (let p = myproc s in
      thenM (modM (upd_hart intr_off))
     (thenM (modM (\<lambda>s. upd_hart (\<lambda>h. h\<lparr>stvec := TRAMPOLINE + (uservec_addr (hw s) - trampoline s)\<rparr>) s))
     (thenM (modM (\<lambda>s. set_tf p TF_kernel_satp (h_satp (the_hart s)) s))
     (thenM (modM (set_tf p TF_kernel_sp (p_kstack p + PGSIZE)))
     (thenM (modM (\<lambda>s. set_tf p TF_kernel_trap (usertrap_addr (hw s)) s))
     (thenM (modM (\<lambda>s. set_tf p TF_kernel_hartid (xr (the_hart s) x_tp) s))
     (thenM (modM (upd_hart (\<lambda>h. h\<lparr>sstatus := (sstatus h AND NOT SSTATUS_SPP) OR SSTATUS_SPIE\<rparr>)))
     (thenM (modM (\<lambda>s. upd_hart (\<lambda>h. h\<lparr>sepc := get_tf p TF_epc s\<rparr>) s))
        (modM (\<lambda>s. upd_hart (\<lambda>h. (setr x_a0 (MAKE_SATP (p_pagetable p)) h)
            \<lparr>pc := TRAMPOLINE + (userret_addr (hw s) - trampoline s)\<rparr>) s))))))))) s)"

definition usertrap :: "('a trap_state_scheme \<Rightarrow> 'a trap_state_scheme) \<Rightarrow> ('a trap_state_scheme, unit) M" where
  "usertrap others s =
     (if sstatus (the_hart s) AND SSTATUS_SPP \<noteq> 0 then Panic ''usertrap: not from user mode''
      else let i = cur s in
        thenM (modM (\<lambda>s. upd_hart (\<lambda>h. h\<lparr>stvec := kernelvec_addr (hw s)\<rparr>) s))
       (thenM (modM (\<lambda>s. set_tf (myproc s) TF_epc (sepc (the_hart s)) s))
       (bindM (\<lambda>s.
          if scause (the_hart s) = 8
          then thenM (whenM (killed i s \<noteq> 0) (exit (- 1)))
              (thenM (modM (\<lambda>s. set_tf (myproc s) TF_epc (get_tf (myproc s) TF_epc s + 4) s))
              (thenM (modM (upd_hart intr_on))
              (thenM syscall (retM 0)))) s
          else bindM devintr (\<lambda>which_dev.
            if which_dev \<noteq> 0 then retM which_dev
            else thenM (\<lambda>s. printf ''usertrap(): unexpected scause 0x%lx pid=%d\<newline>''
                         [Num (scause (the_hart s)), Num (of_int (p_pid (myproc s)))] s)
                (thenM (\<lambda>s. printf ''            sepc=0x%lx stval=0x%lx\<newline>''
                         [Num (sepc (the_hart s)), Num (stval (the_hart s))] s)
                (thenM (setkilled i) (retM 0)))) s)
        (\<lambda>which_dev.
          thenM (\<lambda>s. whenM (killed i s \<noteq> 0) (exit (- 1)) s)
         (thenM (whenM (which_dev = 2) (yield others)) usertrapret)))) s)"

definition forkret :: "('a trap_state_scheme, unit) M" where
  "forkret s =
     thenM (whenM (first s) (thenM (fsinit ROOTDEV) (modM (\<lambda>s. s\<lparr>first := False\<rparr>)))) usertrapret s"

text \<open>\<open>main()\<close> on hart 0 and on the others, up to the call of \<open>scheduler()\<close>. \<open>satp\<close> is the register
  that \<open>kvminithart\<close> writes.\<close>

definition load_satp :: "('a trap_state_scheme, unit) M" where
  "load_satp = modM (\<lambda>s. upd_hart (\<lambda>h. h\<lparr>h_satp := satp s\<rparr>) s)"

definition main_hart0 :: "('a trap_state_scheme, unit) M" where
  "main_hart0 =
     thenM consoleinit
    (thenM (printf ''\<newline>'' [])
    (thenM (printf ''xv6 kernel is booting\<newline>'' [])
    (thenM (printf ''\<newline>'' [])
    (thenM kinit (thenM kvminit (thenM kvminithart (thenM load_satp
    (thenM procinit (thenM trapinithart (thenM plicinit (thenM plicinithart
    (thenM (modM binit) (thenM iinit (thenM virtio_disk_init userinit))))))))))))))"

definition main_other :: "('a trap_state_scheme, unit) M" where
  "main_other =
     thenM (\<lambda>s. printf ''hart %d starting\<newline>'' [Num (cpuid s)] s)
    (thenM kvminithart (thenM load_satp (thenM trapinithart plicinithart)))"

text \<open>A trap from user space and the way back: the hardware, \<open>uservec\<close>, \<open>usertrap\<close>, \<open>userret\<close>.\<close>

definition on_hart :: "(hart \<times> memory \<Rightarrow> hart \<times> memory) \<Rightarrow> 'a trap_state_scheme \<Rightarrow> 'a trap_state_scheme" where
  "on_hart f s = (let (h, m) = f (the_hart s, mem s) in (upd_hart (\<lambda>_. h) s)\<lparr>mem := m\<rparr>)"

definition user_trap_cycle ::
  "('a trap_state_scheme \<Rightarrow> 'a trap_state_scheme) \<Rightarrow> u64 \<Rightarrow> u64 \<Rightarrow> ('a trap_state_scheme, unit) M" where
  "user_trap_cycle others cause tval =
     thenM (modM (upd_hart (trap_enter cause tval)))
    (thenM (modM (\<lambda>s. on_hart (uservec (p_trapframe (myproc s))) s))
    (thenM (usertrap others)
           (modM (\<lambda>s. on_hart (userret (p_trapframe (myproc s))) s))))"

section \<open>The way back to user space\<close>

lemma upd_hart_simps [simp]:
  "mem (upd_hart f s) = mem s" "procs (upd_hart f s) = procs s" "cur (upd_hart f s) = cur s"
  "the_hart (upd_hart f s) = f (the_hart s)" "trampoline (upd_hart f s) = trampoline s"
  "kernelvec_addr (hw (upd_hart f s)) = kernelvec_addr (hw s)" "uservec_addr (hw (upd_hart f s)) = uservec_addr (hw s)"
  "userret_addr (hw (upd_hart f s)) = userret_addr (hw s)" "usertrap_addr (hw (upd_hart f s)) = usertrap_addr (hw s)"
  "myproc (upd_hart f s) = myproc s"
  by (simp_all add: upd_hart_def myproc_def)

lemma intr_off_simps [simp]: "xr (intr_off h) = xr h" "h_satp (intr_off h) = h_satp h"
  by (simp_all add: intr_off_def)

lemma status_bits:
  "\<not> bit ((y AND NOT SSTATUS_SPP) OR SSTATUS_SPIE) 8" "bit ((y AND NOT SSTATUS_SPP) OR SSTATUS_SPIE) 5"
  by (simp_all add: bit_simps bit_numeral_rec)

lemma spp_bit: "x AND SSTATUS_SPP = 0 \<longleftrightarrow> \<not> bit x 8"
  using and_exp_eq_0_iff_not_bit [of x 8] by simp

lemma set_tf_simps [simp]:
  "procs (set_tf p r v s) = procs s" "cur (set_tf p r v s) = cur s" "hw (set_tf p r v s) = hw s"
  "trampoline (set_tf p r v s) = trampoline s" "myproc (set_tf p r v s) = myproc s"
  by (simp_all add: set_tf_def myproc_def)

lemma mem_set_tf [simp]: "mem (set_tf p r v s) = store64 (mem s) (p_trapframe p + tf_off r) v"
  by (simp add: set_tf_def)

text \<open>\<open>tf_word m tf k\<close> is the word at offset \<open>k\<close> of the trapframe.\<close>

definition tf_word :: "memory \<Rightarrow> u64 \<Rightarrow> nat \<Rightarrow> u64" where
  "tf_word m tf k = load64 m (tf + of_nat k)"

lemma tf_word_store:
  assumes "k mod 8 = 0" and "k' mod 8 = 0" and "k < 4096" and "k' < 4096"
  shows "tf_word (store64 m (tf + of_nat k) v) tf k' = (if k = k' then v else tf_word m tf k')"
proof (cases "k = k'")
  case False
  then show ?thesis
    using load64_store64_slot [of k k' m tf v] mod8_apart [OF assms(1,2) False] assms(3,4) by (simp add: tf_word_def)
qed (simp add: tf_word_def)

lemma tf_off_nat:
  "tf_off TF_kernel_satp = of_nat 0" "tf_off TF_kernel_sp = of_nat 8" "tf_off TF_kernel_trap = of_nat 16"
  "tf_off TF_epc = of_nat 24" "tf_off TF_kernel_hartid = of_nat 32" "tf_off (TF_a 0) = of_nat 112"
  by simp_all

lemma mem_set_tf_word:
  assumes "tf_off r = of_nat k" and "k mod 8 = 0" and "k' mod 8 = 0" and "k < 4096" and "k' < 4096"
  shows "tf_word (mem (set_tf p r v s)) (p_trapframe p) k' = (if k = k' then v else tf_word (mem s) (p_trapframe p) k')"
  using tf_word_store [OF assms(2-)] assms(1) by simp

lemma usertrapret_spec:
  fixes s :: "'a trap_state_scheme"
  defines "p \<equiv> myproc s"
  obtains s' where "usertrapret s = Ret () s'"
    and "procs s' = procs s" and "cur s' = cur s"
    and "\<And>k. k mod 8 = 0 \<Longrightarrow> k < 4096 \<Longrightarrow> tf_word (mem s') (p_trapframe p) k =
      (if k = 0 then h_satp (the_hart s) else if k = 8 then p_kstack p + PGSIZE
       else if k = 16 then usertrap_addr (hw s) else if k = 32 then xr (the_hart s) x_tp
       else tf_word (mem s) (p_trapframe p) k)"
    and "xr (the_hart s') x_a0 = MAKE_SATP (p_pagetable p)"
    and "sepc (the_hart s') = tf_word (mem s) (p_trapframe p) 24"
    and "\<not> bit (sstatus (the_hart s')) 8" and "bit (sstatus (the_hart s')) 5"
    and "stvec (the_hart s') = TRAMPOLINE + (uservec_addr (hw s) - trampoline s)"
    and "pc (the_hart s') = TRAMPOLINE + (userret_addr (hw s) - trampoline s)"
proof -
  let ?tf = "p_trapframe p"
  define s1 where "s1 = upd_hart (\<lambda>h. h\<lparr>stvec := TRAMPOLINE + (uservec_addr (hw s) - trampoline s)\<rparr>) (upd_hart intr_off s)"
  define s2 where "s2 = set_tf p TF_kernel_hartid (xr (the_hart s) x_tp) (set_tf p TF_kernel_trap (usertrap_addr (hw s))
    (set_tf p TF_kernel_sp (p_kstack p + PGSIZE) (set_tf p TF_kernel_satp (h_satp (the_hart s)) s1)))"
  define s3 where "s3 = upd_hart (\<lambda>h. h\<lparr>sstatus := (sstatus h AND NOT SSTATUS_SPP) OR SSTATUS_SPIE\<rparr>) s2"
  define s4 where "s4 = upd_hart (\<lambda>h. h\<lparr>sepc := get_tf p TF_epc s3\<rparr>) s3"
  define s5 where "s5 = upd_hart (\<lambda>h. (setr x_a0 (MAKE_SATP (p_pagetable p)) h)
    \<lparr>pc := TRAMPOLINE + (userret_addr (hw s4) - trampoline s4)\<rparr>) s4"
  have h1: "the_hart s1 = (intr_off (the_hart s))\<lparr>stvec := TRAMPOLINE + (uservec_addr (hw s) - trampoline s)\<rparr>"
    "mem s1 = mem s" "procs s1 = procs s" "cur s1 = cur s" "trampoline s1 = trampoline s" "userret_addr (hw s1) = userret_addr (hw s)"
    "usertrap_addr (hw s1) = usertrap_addr (hw s)" by (simp_all add: s1_def)
  have h2: "hw s2 = hw s1" "procs s2 = procs s" "cur s2 = cur s" "trampoline s2 = trampoline s" by (simp_all add: s2_def h1)
  have m2: "tf_word (mem s2) ?tf k = (if k = 0 then h_satp (the_hart s) else if k = 8 then p_kstack p + PGSIZE
       else if k = 16 then usertrap_addr (hw s) else if k = 32 then xr (the_hart s) x_tp else tf_word (mem s) ?tf k)"
    if "k mod 8 = 0" "k < 4096" for k
    unfolding s2_def using that by (simp add: mem_set_tf_word [OF tf_off_nat(1)] mem_set_tf_word [OF tf_off_nat(2)]
      mem_set_tf_word [OF tf_off_nat(3)] mem_set_tf_word [OF tf_off_nat(5)] h1 del: mem_set_tf)
  have h3: "the_hart s3 = (the_hart s1)\<lparr>sstatus := (sstatus (the_hart s1) AND NOT SSTATUS_SPP) OR SSTATUS_SPIE\<rparr>"
    "mem s3 = mem s2" "procs s3 = procs s" "cur s3 = cur s" "trampoline s3 = trampoline s" "userret_addr (hw s3) = userret_addr (hw s)"
    by (simp_all add: s3_def h2 h1)
  have epc: "get_tf p TF_epc s3 = tf_word (mem s) ?tf 24"
    using m2 [of 24] by (simp add: get_tf_def tf_word_def h3)
  have run: "usertrapret s = Ret () s5"
    by (simp add: usertrapret_def Let_def p_def [symmetric] s5_def s4_def s3_def s2_def s1_def)
  have "the_hart s5 = (setr x_a0 (MAKE_SATP (p_pagetable p)) ((the_hart s3)\<lparr>sepc := tf_word (mem s) ?tf 24\<rparr>))
      \<lparr>pc := TRAMPOLINE + (userret_addr (hw s) - trampoline s)\<rparr>" "mem s5 = mem s2" "procs s5 = procs s" "cur s5 = cur s"
    by (simp_all add: s5_def s4_def h3 epc)
  moreover have b: "\<not> bit ((y AND - 257) OR 32) 8" "bit ((y AND - 257) OR 32) 5" for y :: u64
    using status_bits [of y] by simp_all
  ultimately show ?thesis
    by (intro that [OF run]) (simp_all add: h3 h1 m2 setr_def b)
qed

text \<open>After \<open>usertrapret\<close> and \<open>userret\<close> the user program runs with what its trapframe holds.\<close>

lemma return_to_user:
  fixes s :: "'a trap_state_scheme"
  defines "tf \<equiv> p_trapframe (myproc s)"
  obtains s' where "thenM usertrapret (modM (\<lambda>s. on_hart (userret (p_trapframe (myproc s))) s)) s = Ret () s'"
    and "\<And>r off. (r, off) \<in> set user_regs \<Longrightarrow> xr (the_hart s') r = tf_word (mem s) tf off"
    and "xr (the_hart s') x_a0 = tf_word (mem s) tf 112" and "pc (the_hart s') = tf_word (mem s) tf 24"
    and "priv (the_hart s') = U_mode" and "bit (sstatus (the_hart s')) 1"
    and "h_satp (the_hart s') = MAKE_SATP (p_pagetable (myproc s))"
    and "procs s' = procs s" and "cur s' = cur s"
    and "stvec (the_hart s') = TRAMPOLINE + (uservec_addr (hw s) - trampoline s)"
    and "tf_word (mem s') tf 0 = h_satp (the_hart s)" and "tf_word (mem s') tf 8 = p_kstack (myproc s) + PGSIZE"
    and "tf_word (mem s') tf 16 = usertrap_addr (hw s)" and "tf_word (mem s') tf 32 = xr (the_hart s) x_tp"
proof (rule usertrapret_spec [of s])
  fix t
  assume t: "usertrapret s = Ret () t" "procs t = procs s" "cur t = cur s"
    "xr (the_hart t) x_a0 = MAKE_SATP (p_pagetable (myproc s))"
    "sepc (the_hart t) = tf_word (mem s) (p_trapframe (myproc s)) 24"
    "\<not> bit (sstatus (the_hart t)) 8" "bit (sstatus (the_hart t)) 5"
    "stvec (the_hart t) = TRAMPOLINE + (uservec_addr (hw s) - trampoline s)"
    and m: "\<And>k. k mod 8 = 0 \<Longrightarrow> k < 4096 \<Longrightarrow> tf_word (mem t) (p_trapframe (myproc s)) k =
      (if k = 0 then h_satp (the_hart s) else if k = 8 then p_kstack (myproc s) + PGSIZE
       else if k = 16 then usertrap_addr (hw s) else if k = 32 then xr (the_hart s) x_tp
       else tf_word (mem s) (p_trapframe (myproc s)) k)"
  have mp: "myproc t = myproc s" using t(2,3) by (simp add: myproc_def)
  define h where "h = fst (userret tf (the_hart t, mem t))"
  have pair: "userret tf (the_hart t, mem t) = (h, mem t)" by (simp add: h_def userret_def Let_def)
  define s' where "s' = on_hart (userret tf) t"
  have s': "the_hart s' = h" "mem s' = mem t" "procs s' = procs s" "cur s' = cur s"
    using t(2,3) by (simp_all add: s'_def on_hart_def pair upd_hart_def)
  have run: "thenM usertrapret (modM (\<lambda>s. on_hart (userret (p_trapframe (myproc s))) s)) s = Ret () s'"
    using t(1) by (simp add: s'_def mp tf_def)
  have regs: "xr h r = tf_word (mem s) tf off" if "(r, off) \<in> set user_regs" for r off
    using userret_regs(1) [OF that, of tf "the_hart t" "mem t"] user_regs_slot [OF that] m [of off]
    by (auto simp: h_def tf_word_def tf_def)
  have a0: "xr h x_a0 = tf_word (mem s) tf 112"
    using userret_regs(2) [of tf "the_hart t" "mem t"] m [of 112] by (simp add: h_def tf_word_def tf_def)
  have hp: "pc h = sepc (the_hart t)" "priv h = U_mode" "bit (sstatus h) 1" "h_satp h = xr (the_hart t) x_a0" "stvec h = stvec (the_hart t)"
    using t(6,7) by (simp_all add: h_def userret_def Let_def sret_def setr_def bit_put_bit)
  show ?thesis
    by (rule that [OF run]) (use s' regs a0 hp t m in \<open>simp_all add: tf_def\<close>)
qed

section \<open>Traps from user space\<close>

lemma uservec_hart:
  assumes "uservec tf (h, m) = (h1, m1)"
  shows "scause h1 = scause h" and "sepc h1 = sepc h" and "sstatus h1 = sstatus h" and "stval h1 = stval h"
  using assms by (auto simp: uservec_def Let_def setr_def)

text \<open>The state in which \<open>usertrap\<close> starts.\<close>

lemma enter_kernel:
  fixes s :: "'a trap_state_scheme"
  defines "tf \<equiv> p_trapframe (myproc s)"
  assumes "priv (the_hart s) = U_mode"
  obtains t where "thenM (modM (upd_hart (trap_enter cause tval)))
      (modM (\<lambda>s. on_hart (uservec (p_trapframe (myproc s))) s)) s = Ret () t"
    and "procs t = procs s" and "cur t = cur s"
    and "\<And>r off. (r, off) \<in> set user_regs \<Longrightarrow> tf_word (mem t) tf off = xr (the_hart s) r"
    and "tf_word (mem t) tf 112 = xr (the_hart s) x_a0"
    and "scause (the_hart t) = cause" and "sepc (the_hart t) = pc (the_hart s)"
    and "\<not> bit (sstatus (the_hart t)) 8"
proof -
  define h0 where "h0 = trap_enter cause tval (the_hart s)"
  have h0: "xr h0 = xr (the_hart s)" "scause h0 = cause" "sepc h0 = pc (the_hart s)" "\<not> bit (sstatus h0) 8"
    using assms(2) by (simp_all add: h0_def trap_enter_def bit_put_bit)
  obtain h1 m1 where u: "uservec tf (h0, mem s) = (h1, m1)" by (rule prod.exhaust)
  define t where "t = on_hart (uservec tf) (upd_hart (trap_enter cause tval) s)"
  have t: "the_hart t = h1" "mem t = m1" "procs t = procs s" "cur t = cur s"
    using u by (simp_all add: t_def on_hart_def upd_hart_def h0_def)
  have "thenM (modM (upd_hart (trap_enter cause tval)))
      (modM (\<lambda>s. on_hart (uservec (p_trapframe (myproc s))) s)) s = Ret () t" by (simp add: t_def tf_def)
  then show ?thesis
    by (rule that) (use t h0 uservec_hart [OF u] uservec_saves(1,2) [OF u] in \<open>simp_all add: tf_word_def\<close>)
qed

text \<open>
  What other processes do while a process is off the CPU leaves alone: the fields of its table
  entry that only it changes, and its trapframe.
\<close>

definition keeps_trapframe :: "nat \<Rightarrow> 'a trap_state_scheme \<Rightarrow> 'a trap_state_scheme \<Rightarrow> bool" where
  "keeps_trapframe i t t' \<longleftrightarrow>
     p_trapframe (procs t' i) = p_trapframe (procs t i) \<and> p_pagetable (procs t' i) = p_pagetable (procs t i) \<and>
     (\<forall>k<36. tf_word (mem t') (p_trapframe (procs t i)) (8 * k) = tf_word (mem t) (p_trapframe (procs t i)) (8 * k))"

lemma keeps_trapframe_word:
  assumes "keeps_trapframe i t t'" and "k mod 8 = 0" and "k < 288"
  shows "tf_word (mem t') (p_trapframe (procs t i)) k = tf_word (mem t) (p_trapframe (procs t i)) k"
proof -
  have "k = 8 * (k div 8)" "k div 8 < 36" using assms(2,3) by auto
  then show ?thesis using assms(1) unfolding keeps_trapframe_def by metis
qed

lemma keeps_trapframe_trans: "keeps_trapframe i t u \<Longrightarrow> keeps_trapframe i u v \<Longrightarrow> keeps_trapframe i t v"
  by (simp add: keeps_trapframe_def)

lemma yield_keeps:
  assumes "\<And>t. keeps_trapframe (cur s) t (others t)"
  obtains s' where "yield others s = Ret () s'" and "keeps_trapframe (cur s) s s'" and "cur s' = cur s"
proof -
  define t where "t = upd_proc (cur s) (\<lambda>p. p\<lparr>p_state := RUNNABLE\<rparr>) s"
  define s' where "s' = (upd_proc (cur s) (\<lambda>p. p\<lparr>p_state := RUNNING\<rparr>) (others t))\<lparr>cur := cur s\<rparr>"
  have "keeps_trapframe (cur s) s t" "keeps_trapframe (cur s) (others t) s'"
    by (simp_all add: keeps_trapframe_def t_def s'_def upd_proc_def)
  then have k: "keeps_trapframe (cur s) s s'" using assms [of t] keeps_trapframe_trans by blast
  have y: "yield others s = Ret () s'" by (simp add: yield_def Let_def s'_def t_def)
  have "cur s' = cur s" by (simp add: s'_def)
  then show ?thesis by (rule that [OF y k])
qed

lemma clockintr_spec:
  obtains s' where "clockintr s = Ret () s'" and "mem s' = mem s" and "cur s' = cur s" and "procs s' (cur s) = procs s (cur s)"
proof -
  define t where "t = (if cpuid s = 0 then wakeup Chan_ticks (s\<lparr>ticks := ticks s + 1\<rparr>) else s)"
  have t: "mem t = mem s" "cur t = cur s" "procs t (cur s) = procs s (cur s)"
    using wakeup_cur [of Chan_ticks "s\<lparr>ticks := ticks s + 1\<rparr>"] by (simp_all add: t_def)
  have "clockintr s = Ret () (upd_hart (\<lambda>h. h\<lparr>stimecmp := time h + 1000000\<rparr>) t)"
    by (simp add: clockintr_def t_def)
  then show ?thesis by (rule that) (simp_all add: t)
qed

text \<open>The part of the kernel state of a user program that a trap has to preserve.\<close>

definition same_user :: "hart \<Rightarrow> hart \<Rightarrow> bool" where
  "same_user h h' \<longleftrightarrow> (\<forall>r. 1 \<le> r \<longrightarrow> r \<le> 31 \<longrightarrow> r \<noteq> x_a0 \<longrightarrow> xr h' r = xr h r) \<and> priv h' = U_mode \<and> bit (sstatus h') 1"

lemma leave_kernel:
  fixes s t u :: "'a trap_state_scheme"
  defines "tf \<equiv> p_trapframe (myproc s)"
  assumes regs: "\<And>r off. (r, off) \<in> set user_regs \<Longrightarrow> tf_word (mem t) tf off = xr (the_hart s) r"
    and t: "p_trapframe (procs t (cur s)) = tf" "p_pagetable (procs t (cur s)) = p_pagetable (myproc s)"
    and keep: "keeps_trapframe (cur s) t u" "cur u = cur s"
  obtains s' where "thenM usertrapret (modM (\<lambda>s. on_hart (userret (p_trapframe (myproc s))) s)) u = Ret () s'"
    and "same_user (the_hart s) (the_hart s')" and "xr (the_hart s') x_a0 = tf_word (mem t) tf 112"
    and "pc (the_hart s') = tf_word (mem t) tf 24" and "cur s' = cur s"
    and "h_satp (the_hart s') = MAKE_SATP (p_pagetable (myproc s))"
proof (rule return_to_user [of u])
  have pu: "p_trapframe (myproc u) = tf" "p_pagetable (myproc u) = p_pagetable (myproc s)"
    using keep t by (simp_all add: keeps_trapframe_def myproc_def)
  have w: "tf_word (mem u) tf k = tf_word (mem t) tf k" if "k mod 8 = 0" "k < 288" for k
    using keeps_trapframe_word [OF keep(1) that] t(1) by simp
  fix s'
  assume s': "thenM usertrapret (modM (\<lambda>s. on_hart (userret (p_trapframe (myproc s))) s)) u = Ret () s'"
    "xr (the_hart s') x_a0 = tf_word (mem u) (p_trapframe (myproc u)) 112"
    "pc (the_hart s') = tf_word (mem u) (p_trapframe (myproc u)) 24" "priv (the_hart s') = U_mode"
    "bit (sstatus (the_hart s')) 1" "cur s' = cur u" "h_satp (the_hart s') = MAKE_SATP (p_pagetable (myproc u))"
    and r: "\<And>r off. (r, off) \<in> set user_regs \<Longrightarrow> xr (the_hart s') r = tf_word (mem u) (p_trapframe (myproc u)) off"
  have "xr (the_hart s') x = xr (the_hart s) x" if x: "1 \<le> x" "x \<le> 31" "x \<noteq> x_a0" for x
  proof -
    have "x \<in> fst ` set user_regs" using user_regs_iff [of x] x by simp
    then obtain off where off: "(x, off) \<in> set user_regs" by force
    then show ?thesis using r [OF off] w [of off] user_regs_slot [OF off] regs [OF off] pu by simp
  qed
  then have "same_user (the_hart s) (the_hart s')" using s' by (simp add: same_user_def)
  then show ?thesis by (intro that [OF s'(1)]) (use s' w keep(2) pu in simp_all)
qed

text \<open>\<open>usertrap\<close> on a timer interrupt and on a system call, up to its call of \<open>usertrapret\<close>.\<close>

lemma set_epc_keeps:
  "\<lbrakk>procs u i = procs t i; p_trapframe (procs t i) = p_trapframe p; mem u = mem (set_tf p TF_epc v t)\<rbrakk> \<Longrightarrow>
   keeps_trapframe i (set_tf p TF_epc v t) u"
  by (simp add: keeps_trapframe_def)

lemma usertrap_timer:
  assumes "\<not> bit (sstatus (the_hart t)) 8" and "scause (the_hart t) = 0x8000000000000005"
    and "p_killed (myproc t) = 0" and "\<And>x. keeps_trapframe (cur t) x (others x)"
  obtains u where "usertrap others t = usertrapret u" and "cur u = cur t"
    and "keeps_trapframe (cur t) (set_tf (myproc t) TF_epc (sepc (the_hart t)) t) u"
proof -
  define t1 where "t1 = set_tf (myproc t) TF_epc (sepc (the_hart t)) (upd_hart (\<lambda>h. h\<lparr>stvec := kernelvec_addr (hw t)\<rparr>) t)"
  have t1: "procs t1 = procs t" "cur t1 = cur t" "scause (the_hart t1) = 0x8000000000000005" using assms(2) by (simp_all add: t1_def)
  obtain t2 where c: "clockintr t1 = Ret () t2" "mem t2 = mem t1" "cur t2 = cur t" "procs t2 (cur t) = procs t (cur t)"
    using clockintr_spec [of t1] t1 by metis
  obtain u where y: "yield others t2 = Ret () u" "keeps_trapframe (cur t) t2 u" "cur u = cur t"
    using yield_keeps [of t2 others] assms(4) c(3) by metis
  have dev: "devintr t1 = Ret 2 t2" using c(1) t1(3) by (simp add: devintr_def)
  have k: "killed (cur t) t2 = 0" using c(4) assms(3) by (simp add: killed_def myproc_def)
  have "usertrap others t = usertrapret u"
    using assms(1,2) dev [unfolded t1_def] y(1) k
    by (simp add: usertrap_def spp_bit Let_def)
  moreover have "keeps_trapframe (cur t) (set_tf (myproc t) TF_epc (sepc (the_hart t)) t) t2"
    by (rule set_epc_keeps) (use c in \<open>simp_all add: t1_def myproc_def\<close>)
  ultimately show ?thesis using y(2,3) keeps_trapframe_trans by (intro that) blast+
qed

text \<open>
  C33: A timer interrupt is invisible to the program it interrupts. The hardware enters \<open>uservec\<close>, the
  kernel counts the tick and gives the CPU to other processes, which may do anything but change
  this process's trapframe, and possibly resumes on another hart; when the process is back in user
  mode, every register and the program counter have their old values, interrupts are on and the
  page table is its own.
\<close>

theorem timer_interrupt_transparent:
  assumes "priv (the_hart s) = U_mode" and "p_killed (myproc s) = 0"
    and "\<And>t. keeps_trapframe (cur s) t (others t)"
  shows "\<exists>s'. user_trap_cycle others 0x8000000000000005 tval s = Ret () s' \<and>
    (\<forall>r. 1 \<le> r \<longrightarrow> r \<le> 31 \<longrightarrow> xr (the_hart s') r = xr (the_hart s) r) \<and> pc (the_hart s') = pc (the_hart s) \<and>
    priv (the_hart s') = U_mode \<and> bit (sstatus (the_hart s')) 1 \<and>
    h_satp (the_hart s') = MAKE_SATP (p_pagetable (myproc s)) \<and> cur s' = cur s"
proof -
  let ?tf = "p_trapframe (myproc s)"
  obtain t where e: "thenM (modM (upd_hart (trap_enter 0x8000000000000005 tval)))
      (modM (\<lambda>s. on_hart (uservec (p_trapframe (myproc s))) s)) s = Ret () t"
    and t: "procs t = procs s" "cur t = cur s"
      "\<And>r off. (r, off) \<in> set user_regs \<Longrightarrow> tf_word (mem t) ?tf off = xr (the_hart s) r"
      "tf_word (mem t) ?tf 112 = xr (the_hart s) x_a0" "scause (the_hart t) = 0x8000000000000005"
      "sepc (the_hart t) = pc (the_hart s)" "\<not> bit (sstatus (the_hart t)) 8"
    by (rule enter_kernel [where cause = "0x8000000000000005" and tval = tval, OF assms(1)]) blast
  have mp: "myproc t = myproc s" using t(1,2) by (simp add: myproc_def)
  obtain u where u: "usertrap others t = usertrapret u" "cur u = cur s"
    "keeps_trapframe (cur s) (set_tf (myproc s) TF_epc (pc (the_hart s)) t) u"
    using usertrap_timer [OF t(7,5), of others] assms(2,3) t(2,6) mp by metis
  have w: "tf_word (mem (set_tf (myproc s) TF_epc (pc (the_hart s)) t)) ?tf k =
      (if k = 24 then pc (the_hart s) else tf_word (mem t) ?tf k)" if "k mod 8 = 0" "k < 4096" for k
    using that by (simp add: mem_set_tf_word [OF tf_off_nat(4)] del: mem_set_tf)
  obtain s' where s': "thenM usertrapret (modM (\<lambda>s. on_hart (userret (p_trapframe (myproc s))) s)) u = Ret () s'"
    "same_user (the_hart s) (the_hart s')" "xr (the_hart s') x_a0 = xr (the_hart s) x_a0"
    "pc (the_hart s') = pc (the_hart s)" "cur s' = cur s" "h_satp (the_hart s') = MAKE_SATP (p_pagetable (myproc s))"
  proof (rule leave_kernel [of "set_tf (myproc s) TF_epc (pc (the_hart s)) t" s u])
    show "tf_word (mem (set_tf (myproc s) TF_epc (pc (the_hart s)) t)) ?tf off = xr (the_hart s) r"
      if "(r, off) \<in> set user_regs" for r off
      using w [of off] user_regs_slot [OF that] t(3) [OF that] by (auto split: if_splits)
  qed (use u t w [of 112] w [of 24] in \<open>simp_all add: myproc_def del: mem_set_tf\<close>)
  have "user_trap_cycle others 0x8000000000000005 tval s = Ret () s'"
    using e u(1) s'(1) by (simp add: user_trap_cycle_def thenM_def bindM_def split: res.splits)
  then show ?thesis using s' by (auto simp: same_user_def)
qed

lemma tf_off_a7: "tf_off (TF_a 7) = of_nat 168"
  by simp

lemma syscall_number: "n < 22 \<Longrightarrow> sint (ucast (of_nat n :: u64) :: u32) = int n"
proof -
  assume "n < 22"
  then have "n \<in> set [0..<22]" by simp
  then show ?thesis by (simp add: upt_rec) (elim disjE; simp)
qed

text \<open>What a system call that returns keeps of the process that made it.\<close>

definition returns_to :: "'a trap_state_scheme \<Rightarrow> 'a trap_state_scheme \<Rightarrow> bool" where
  "returns_to t t' \<longleftrightarrow> cur t' = cur t \<and> keeps_trapframe (cur t) t t' \<and> p_killed (procs t' (cur t)) = 0"

lemma usertrap_syscall:
  fixes t :: "'a trap_state_scheme" and f :: "('a trap_state_scheme, u64) M"
  defines "tf \<equiv> p_trapframe (myproc t)"
  assumes "\<not> bit (sstatus (the_hart t)) 8" and "scause (the_hart t) = 8" and "p_killed (myproc t) = 0"
    and num: "tf_word (mem t) tf 168 = of_nat n" "0 < n" "n < 22" "syscalls n = Some f"
    and f: "\<And>x. cur x = cur t \<Longrightarrow> procs x = procs t \<Longrightarrow> \<exists>y. f x = Ret v y \<and> returns_to x y"
  obtains u where "usertrap others t = usertrapret u" and "cur u = cur t" and "p_trapframe (procs u (cur t)) = tf"
    and "p_pagetable (procs u (cur t)) = p_pagetable (myproc t)"
    and "\<And>k. k mod 8 = 0 \<Longrightarrow> k < 288 \<Longrightarrow> tf_word (mem u) tf k =
      (if k = 112 then v else if k = 24 then sepc (the_hart t) + 4 else tf_word (mem t) tf k)"
proof -
  define t1 where "t1 = set_tf (myproc t) TF_epc (sepc (the_hart t)) (upd_hart (\<lambda>h. h\<lparr>stvec := kernelvec_addr (hw t)\<rparr>) t)"
  define t3 where "t3 = upd_hart intr_on (set_tf (myproc t) TF_epc (sepc (the_hart t) + 4) t1)"
  have t3: "procs t3 = procs t" "cur t3 = cur t" "myproc t3 = myproc t" by (simp_all add: t1_def t3_def)
  have epc: "get_tf (myproc t) TF_epc t1 = sepc (the_hart t)" by (simp add: get_tf_def t1_def)
  have w3: "tf_word (mem t3) tf k = (if k = 24 then sepc (the_hart t) + 4 else tf_word (mem t) tf k)"
    if "k mod 8 = 0" "k < 4096" for k
    using that by (simp add: t3_def t1_def tf_def mem_set_tf_word [OF tf_off_nat(4)] del: mem_set_tf)
  obtain t4 where t4: "f t3 = Ret v t4" "cur t4 = cur t" "keeps_trapframe (cur t) t3 t4" "p_killed (procs t4 (cur t)) = 0"
    using f [OF t3(2,1)] t3(2) by (auto simp: returns_to_def)
  define u where "u = set_tf (myproc t) (TF_a 0) v t4"
  have "get_tf (myproc t) (TF_a 7) t3 = of_nat n"
    using w3 [of 168] num(1) by (simp add: get_tf_def tf_word_def tf_def)
  then have sys: "syscall t3 = Ret () u"
    using syscall_number [OF num(3)] num(2-4) t4(1) t3(3) by (simp add: syscall_def Let_def u_def del: syscalls.simps)
  have k: "killed (cur t) u = 0" "killed (cur t) t1 = 0"
    using t4(4) assms(4) by (simp_all add: killed_def u_def t1_def myproc_def)
  have run: "usertrap others t = usertrapret u"
    using assms(2,3) k sys epc by (simp add: usertrap_def spp_bit Let_def t3_def t1_def)
  have words: "tf_word (mem u) tf k = (if k = 112 then v else if k = 24 then sepc (the_hart t) + 4 else tf_word (mem t) tf k)"
    if k: "k mod 8 = 0" "k < 288" for k
    using k w3 [of k] keeps_trapframe_word [OF t4(3) k] t3
    by (simp add: u_def tf_def mem_set_tf_word [OF tf_off_nat(6)] myproc_def del: mem_set_tf)
  have "cur u = cur t" "p_trapframe (procs u (cur t)) = tf" "p_pagetable (procs u (cur t)) = p_pagetable (myproc t)"
    using t4 t3 by (auto simp: u_def keeps_trapframe_def tf_def myproc_def)
  then show ?thesis by (rule that [OF run]) (rule words)
qed


text \<open>A process in user space.\<close>

definition trap_boot :: trap_state where
  "trap_boot = virtio_state.extend (virtio_boot\<lparr>procs := (\<lambda>_. zero_proc\<lparr>p_pid := 5, p_trapframe := 0x87000000\<rparr>)\<rparr>)
     \<lparr>hw = \<lparr>hrt = (reset_hart 0)\<lparr>priv := U_mode, pc := 0x1000, xr := (\<lambda>r. if r = 17 then 11 else of_nat r)\<rparr>, plic = (\<lambda>_. 0), in_proc = True,
       kernelvec_addr = 0x80005000, uservec_addr = 0x80007000, userret_addr = 0x8000709c, usertrap_addr = 0x80001a00\<rparr>\<rparr>"

lemma trap_boot_fields [simp]:
  "the_hart trap_boot = (reset_hart 0)\<lparr>priv := U_mode, pc := 0x1000, xr := (\<lambda>r. if r = 17 then 11 else of_nat r)\<rparr>"
  "p_killed (myproc trap_boot) = 0" "p_pid (myproc trap_boot) = 5"
  by (simp_all add: trap_boot_def virtio_state.defs myproc_def zero_proc_def)

theorem timer_interrupt_transparent_witness:
  "\<exists>s'. user_trap_cycle (\<lambda>t. upd_hart (\<lambda>_. reset_hart 1) t) 0x8000000000000005 0 trap_boot = Ret () s' \<and>
     xr (the_hart s') 31 = 31 \<and> pc (the_hart s') = 0x1000"
proof -
  have "keeps_trapframe i t (upd_hart (\<lambda>_. reset_hart 1) t)" for i and t :: trap_state by (simp add: keeps_trapframe_def)
  from timer_interrupt_transparent [of trap_boot "\<lambda>t. upd_hart (\<lambda>_. reset_hart 1) t" 0, OF _ _ this] show ?thesis by auto
qed


end
