(* ===== verification/Grep.thy ===== *)
theory Grep
  imports Bytes
begin

text \<open>
  The program \<^verbatim>\<open>user/grep.c\<close>: the matcher of Kernighan and Pike, and the loop that cuts the input
  into lines. A C string is the list of its bytes before the nul; the rest of a string from a
  pointer on is a suffix of the list.
\<close>

section \<open>The matcher\<close>

abbreviation (input) chr_caret :: u8 where "chr_caret \<equiv> 94"
abbreviation (input) chr_star :: u8 where "chr_star \<equiv> 42"
abbreviation (input) chr_dollar :: u8 where "chr_dollar \<equiv> 36"
abbreviation (input) chr_dot :: u8 where "chr_dot \<equiv> 46"
abbreviation (input) chr_newline :: u8 where "chr_newline \<equiv> 10"

function matchhere :: "u8 list \<Rightarrow> u8 list \<Rightarrow> bool" and matchstar :: "u8 \<Rightarrow> u8 list \<Rightarrow> u8 list \<Rightarrow> bool" where
  "matchhere [] text = True"
| "matchhere (c # re) text =
     (if re \<noteq> [] \<and> hd re = chr_star then matchstar c (tl re) text
      else if c = chr_dollar \<and> re = [] then text = []
      else case text of [] \<Rightarrow> False | t # ts \<Rightarrow> (c = chr_dot \<or> c = t) \<and> matchhere re ts)"
| "matchstar c re text =
     (matchhere re text \<or>
      (case text of [] \<Rightarrow> False | t # ts \<Rightarrow> (t = c \<or> c = chr_dot) \<and> matchstar c re ts))"
  by pat_completeness auto
termination
  by (relation "measures [\<lambda>x. case x of Inl (re, text) \<Rightarrow> length re | Inr (c, re, text) \<Rightarrow> Suc (length re),
      \<lambda>x. case x of Inl (re, text) \<Rightarrow> length text | Inr (c, re, text) \<Rightarrow> length text]") (auto simp: neq_Nil_conv)

declare matchhere.simps [simp del] matchstar.simps [simp del]

fun match_from :: "u8 list \<Rightarrow> u8 list \<Rightarrow> bool" where
  "match_from re [] = matchhere re []"
| "match_from re (t # ts) = (matchhere re (t # ts) \<or> match_from re ts)"

definition match :: "u8 list \<Rightarrow> u8 list \<Rightarrow> bool" where
  "match re text = (if re \<noteq> [] \<and> hd re = chr_caret then matchhere (tl re) text else match_from re text)"

section \<open>The language of a pattern\<close>

datatype item = One u8 | Many u8

fun items :: "u8 list \<Rightarrow> item list \<times> bool" where
  "items [] = ([], False)"
| "items [c] = (if c = chr_dollar then ([], True) else ([One c], False))"
| "items (c # d # re) =
     (if d = chr_star then let (is, e) = items re in (Many c # is, e)
      else let (is, e) = items (d # re) in (One c # is, e))"

definition fits :: "u8 \<Rightarrow> u8 \<Rightarrow> bool" where
  "fits c t \<longleftrightarrow> c = chr_dot \<or> c = t"

fun lang :: "item list \<Rightarrow> u8 list set" where
  "lang [] = {[]}"
| "lang (One c # is) = {t # w | t w. fits c t \<and> w \<in> lang is}"
| "lang (Many c # is) = {v @ w | v w. (\<forall>t \<in> set v. fits c t) \<and> w \<in> lang is}"

text \<open>Some prefix of the text is in the language, all of it if the pattern ends with a dollar sign.\<close>

definition prefix_in :: "item list \<times> bool \<Rightarrow> u8 list \<Rightarrow> bool" where
  "prefix_in p text \<longleftrightarrow> (\<exists>v w. text = v @ w \<and> v \<in> lang (fst p) \<and> (snd p \<longrightarrow> w = []))"

lemma prefix_in_One:
  "prefix_in (One c # is, e) text \<longleftrightarrow> (case text of [] \<Rightarrow> False | t # ts \<Rightarrow> fits c t \<and> prefix_in (is, e) ts)"
  by (cases "text") (auto simp: prefix_in_def Cons_eq_append_conv)

lemma prefix_in_Many_iff:
  "prefix_in (Many c # is, e) text \<longleftrightarrow>
     (\<exists>v u w. text = v @ u @ w \<and> (\<forall>t \<in> set v. fits c t) \<and> u \<in> lang is \<and> (e \<longrightarrow> w = []))"
  unfolding prefix_in_def lang.simps fst_conv snd_conv mem_Collect_eq
proof
  assume "\<exists>v u w. text = v @ u @ w \<and> (\<forall>t \<in> set v. fits c t) \<and> u \<in> lang is \<and> (e \<longrightarrow> w = [])"
  then obtain v u w where "text = (v @ u) @ w" "\<forall>t \<in> set v. fits c t" "u \<in> lang is" "e \<longrightarrow> w = []" by auto
  then show "\<exists>x y. text = x @ y \<and> (\<exists>v w. x = v @ w \<and> (\<forall>t \<in> set v. fits c t) \<and> w \<in> lang is) \<and> (e \<longrightarrow> y = [])"
    by blast
qed (metis append_assoc)

lemma prefix_in_Many:
  "prefix_in (Many c # is, e) text \<longleftrightarrow>
     prefix_in (is, e) text \<or> (case text of [] \<Rightarrow> False | t # ts \<Rightarrow> fits c t \<and> prefix_in (Many c # is, e) ts)"
proof
  assume "prefix_in (Many c # is, e) text"
  then obtain v u w where t: "text = v @ u @ w" "\<forall>t \<in> set v. fits c t" "u \<in> lang is" "e \<longrightarrow> w = []"
    by (auto simp: prefix_in_Many_iff)
  show "prefix_in (is, e) text \<or> (case text of [] \<Rightarrow> False | t # ts \<Rightarrow> fits c t \<and> prefix_in (Many c # is, e) ts)"
  proof (cases v)
    case Nil
    then show ?thesis using t by (auto simp: prefix_in_def)
  next
    case (Cons x v')
    then have "prefix_in (Many c # is, e) (v' @ u @ w)" using t unfolding prefix_in_Many_iff by auto
    then show ?thesis using t Cons by simp
  qed
next
  assume "prefix_in (is, e) text \<or> (case text of [] \<Rightarrow> False | t # ts \<Rightarrow> fits c t \<and> prefix_in (Many c # is, e) ts)"
  then show "prefix_in (Many c # is, e) text"
  proof
    assume "prefix_in (is, e) text"
    then obtain u w where "text = [] @ u @ w" "u \<in> lang is" "e \<longrightarrow> w = []" by (auto simp: prefix_in_def)
    then show ?thesis unfolding prefix_in_Many_iff by (metis empty_iff empty_set)
  next
    assume "case text of [] \<Rightarrow> False | t # ts \<Rightarrow> fits c t \<and> prefix_in (Many c # is, e) ts"
    then obtain t v u w where "text = (t # v) @ u @ w" "\<forall>x \<in> set (t # v). fits c x" "u \<in> lang is" "e \<longrightarrow> w = []"
      by (auto simp: prefix_in_Many_iff split: list.splits)
    then show ?thesis unfolding prefix_in_Many_iff by metis
  qed
qed

lemma prefix_in_Nil: "prefix_in ([], e) text \<longleftrightarrow> (e \<longrightarrow> text = [])"
  by (auto simp: prefix_in_def)

lemma matchhere_correct:
  "matchhere re text \<longleftrightarrow> prefix_in (items re) text"
  "matchstar c re text \<longleftrightarrow> prefix_in (Many c # fst (items re), snd (items re)) text"
proof (induction re "text" and c re "text" rule: matchhere_matchstar.induct)
  case (2 c re s)
  show ?case
  proof (cases re)
    case Nil
    then show ?thesis using 2(2)
      by (cases s) (auto simp: matchhere.simps(2) [of c] matchhere.simps(1) prefix_in_One prefix_in_Nil fits_def)
  next
    case (Cons d re')
    then show ?thesis using 2 unfolding matchhere.simps(2) [of c re s]
      by (cases s) (auto simp: prefix_in_One fits_def split: prod.splits)
  qed
next
  case (3 c re s)
  then show ?case unfolding matchstar.simps [of c re s] prefix_in_Many [of c _ _ s]
    by (cases s) (auto simp: fits_def)
qed (simp add: matchhere.simps prefix_in_Nil)

lemma match_from_suffix: "match_from re text \<longleftrightarrow> (\<exists>u v. text = u @ v \<and> matchhere re v)"
proof (induction "text")
  case (Cons t ts)
  then show ?case by (auto simp: Cons_eq_append_conv)
qed simp

text \<open>
  C39: The matcher decides the language of the pattern. \<open>match\<close> returns true exactly when a part of the
  text is in the language the pattern denotes, where \<open>c*\<close> stands for any number of bytes that fit
  \<open>c\<close>, a dot fits every byte, a leading caret ties the part to the start of the text and a final
  dollar sign ties it to the end.
\<close>

theorem match_correct:
  "match re text \<longleftrightarrow>
     (let anchored = (re \<noteq> [] \<and> hd re = chr_caret); (is, e) = items (if anchored then tl re else re) in
      \<exists>u v w. text = u @ v @ w \<and> v \<in> lang is \<and> (anchored \<longrightarrow> u = []) \<and> (e \<longrightarrow> w = []))"
proof (cases "re \<noteq> [] \<and> hd re = chr_caret")
  case True
  then show ?thesis by (simp add: match_def matchhere_correct prefix_in_def split: prod.splits)
next
  case False
  then have "match re text \<longleftrightarrow> (\<exists>u x. text = u @ x \<and> prefix_in (items re) x)"
    by (auto simp: match_def match_from_suffix matchhere_correct)
  moreover obtain "is" e where i: "items re = (is, e)" by force
  ultimately have "match re text \<longleftrightarrow> (\<exists>u v w. text = u @ v @ w \<and> v \<in> lang is \<and> (e \<longrightarrow> w = []))"
    unfolding prefix_in_def by (metis fst_conv snd_conv)
  then show ?thesis using False by (simp only: Let_def if_False i case_prod_conv simp_thms)
qed

theorem match_correct_witness:
  "match [97, 42, 98, 36] [99, 97, 97, 98] \<and> \<not> match [94, 97, 42, 98, 36] [99, 97, 97, 98] \<and>
   (\<exists>u v w. [99, 97, 97, 98] = u @ v @ w \<and> v \<in> lang [Many 97, One 98] \<and> w = [])"
proof -
  have "match [97, 42, 98, 36] [99, 97, 97, 98]" "\<not> match [94, 97, 42, 98, 36] [99, 97, 97, 98]" by code_simp+
  with match_correct [of "[97, 42, 98, 36]" "[99, 97, 97, 98]"] show ?thesis by simp
qed

section \<open>Lines\<close>

text \<open>
  The bytes a descriptor delivers are a list of pieces: one \<open>read\<close> returns a piece, or as much of it as
  fits; an empty piece, or the end of the list, is the end of file or an error.
\<close>

definition read_piece :: "nat \<Rightarrow> u8 list list \<Rightarrow> u8 list \<times> u8 list list" where
  "read_piece n cs =
     (case cs of [] \<Rightarrow> ([], []) | c # cs \<Rightarrow> (take n c, if length c \<le> n then cs else drop n c # cs))"

text \<open>\<open>strchr(p, newline)\<close>: the line before the newline and what follows it.\<close>

fun cut_line :: "u8 list \<Rightarrow> (u8 list \<times> u8 list) option" where
  "cut_line [] = None"
| "cut_line (c # cs) =
     (if c = 0 then None
      else if c = chr_newline then Some ([], cs)
      else case cut_line cs of None \<Rightarrow> None | Some (l, r) \<Rightarrow> Some (c # l, r))"

lemma cut_line_shorter: "cut_line s = Some (l, r) \<Longrightarrow> length r < length s"
  by (induction s arbitrary: l) (auto split: if_splits option.splits)

text \<open>The inner loop of \<open>grep\<close>: what is left in the buffer and the lines written.\<close>

function grep_lines :: "u8 list \<Rightarrow> u8 list \<Rightarrow> u8 list \<times> u8 list list" where
  "grep_lines pattern p =
     (case cut_line p of
        None \<Rightarrow> (p, [])
      | Some (l, r) \<Rightarrow> let (rest, out) = grep_lines pattern r in
          (rest, if match pattern l then (l @ [chr_newline]) # out else out))"
  by pat_completeness auto
termination
  by (relation "measure (\<lambda>(pattern, p). length p)") (auto dest: cut_line_shorter)

declare grep_lines.simps [simp del]

abbreviation (input) BUF :: nat where "BUF \<equiv> 1024"

lemma read_piece_less:
  assumes "read_piece n cs = (bs, cs')" and "bs \<noteq> []"
  shows "sum_list (map length cs') < sum_list (map length cs)"
  using assms by (auto simp: read_piece_def split: list.splits if_splits)

function grep :: "u8 list \<Rightarrow> u8 list \<Rightarrow> u8 list list \<Rightarrow> u8 list list" where
  "grep pattern held cs =
     (let (bs, cs') = read_piece (BUF - length held - 1) cs in
      if bs = [] then []
      else let (rest, out) = grep_lines pattern (held @ bs) in out @ grep pattern rest cs')"
  by pat_completeness auto
termination
  by (relation "measure (\<lambda>(pattern, held, cs). sum_list (map length cs))") (auto dest!: sym [of "(_, _)" "read_piece _ _"] intro: read_piece_less)

declare grep.simps [simp del]

text \<open>The reference: the complete lines of the whole input, and the bytes after the last newline.\<close>

fun split_lines :: "u8 list \<Rightarrow> u8 list list \<times> u8 list" where
  "split_lines [] = ([], [])"
| "split_lines (c # cs) =
     (let (ls, r) = split_lines cs in
      if c = chr_newline then ([] # ls, r)
      else case ls of [] \<Rightarrow> ([], c # r) | l # ls \<Rightarrow> ((c # l) # ls, r))"

definition matching :: "u8 list \<Rightarrow> u8 list list \<Rightarrow> u8 list list" where
  "matching pattern ls = map (\<lambda>l. l @ [chr_newline]) (filter (match pattern) ls)"

lemma cut_line_split:
  assumes "0 \<notin> set s"
  shows "cut_line s = (case split_lines s of ([], r) \<Rightarrow> None | (l # ls, r) \<Rightarrow> Some (l, drop (Suc (length l)) s))"
    and "split_lines s = (l # ls, r) \<Longrightarrow> split_lines (drop (Suc (length l)) s) = (ls, r)"
    and "split_lines s = ([], r) \<Longrightarrow> r = s"
  using assms by (induction s arbitrary: l ls r) (auto split: prod.splits list.splits if_splits)

lemma grep_lines_split:
  assumes "0 \<notin> set s"
  shows "grep_lines pattern s = (snd (split_lines s), matching pattern (fst (split_lines s)))"
  using assms
proof (induction pattern s rule: grep_lines.induct)
  case (1 pattern p)
  obtain ls r where p: "split_lines p = (ls, r)" by force
  show ?case
  proof (cases ls)
    case Nil
    then show ?thesis using cut_line_split(1,3) [OF 1(2)] p by (subst grep_lines.simps) (simp add: matching_def)
  next
    case (Cons l ls')
    let ?r = "drop (Suc (length l)) p"
    have c: "cut_line p = Some (l, ?r)" and s: "split_lines ?r = (ls', r)" using cut_line_split(1,2) [OF 1(2)] p Cons by simp_all
    have "0 \<notin> set ?r" using 1(2) by (meson in_set_dropD)
    from 1(1) [OF c refl this] show ?thesis using c s p Cons by (subst grep_lines.simps) (simp add: matching_def)
  qed
qed

lemma split_lines_append:
  "split_lines (s @ t) = (let (ls, r) = split_lines s; (ls', r') = split_lines (r @ t) in (ls @ ls', r'))"
  by (induction s) (auto simp: Let_def split: prod.splits list.splits)

lemma split_lines_rest: "split_lines s = (ls, r) \<Longrightarrow> chr_newline \<notin> set r \<and> set r \<subseteq> set s"
  by (induction s arbitrary: ls r) (fastforce simp: Let_def split: prod.splits list.splits if_splits)+

text \<open>Every line, and the bytes after the last newline, fit in the buffer.\<close>

definition short_lines :: "u8 list \<Rightarrow> bool" where
  "short_lines s \<longleftrightarrow> (\<forall>l \<in> set (fst (split_lines s) @ [snd (split_lines s)]). length l < BUF - 1)"

lemma split_lines_no_newline: "chr_newline \<notin> set s \<Longrightarrow> split_lines s = ([], s)"
  by (induction s) auto

lemma split_lines_held:
  assumes "chr_newline \<notin> set held"
  shows "\<exists>l \<in> set (fst (split_lines (held @ t)) @ [snd (split_lines (held @ t))]). length held \<le> length l"
proof -
  obtain ls r where t: "split_lines t = (ls, r)" by force
  have "split_lines (held @ t) = (case ls of [] \<Rightarrow> ([], held @ r) | l # ls \<Rightarrow> ((held @ l) # ls, r))"
    using assms t by (induction held) (auto split: list.splits)
  then show ?thesis by (cases ls) auto
qed

lemma read_piece_concat:
  assumes "read_piece n cs = (bs, cs')"
  shows "bs @ concat cs' = concat cs" and "[] \<notin> set cs \<Longrightarrow> [] \<notin> set cs'" and "cs \<noteq> [] \<Longrightarrow> [] \<notin> set cs \<Longrightarrow> 0 < n \<Longrightarrow> bs \<noteq> []"
  using assms by (auto simp: read_piece_def split: list.splits if_splits)

lemma grep_matching:
  assumes "0 \<notin> set (held @ concat cs)" and "chr_newline \<notin> set held" and "[] \<notin> set cs" and "short_lines (held @ concat cs)"
  shows "grep pattern held cs = matching pattern (fst (split_lines (held @ concat cs)))"
  using assms
proof (induction pattern held cs rule: grep.induct)
  case (1 pattern held cs)
  have held: "length held < BUF - 1"
    using split_lines_held [OF 1(3), of "concat cs"] 1(5) by (auto simp: short_lines_def)
  show ?case
  proof (cases "cs = []")
    case True
    then show ?thesis using split_lines_no_newline [OF 1(3)] by (subst grep.simps) (simp add: read_piece_def matching_def)
  next
    case False
    obtain bs cs' where rp: "read_piece (BUF - length held - 1) cs = (bs, cs')" by force
    note c = read_piece_concat [OF rp]
    have bs: "bs \<noteq> []" using c(3) False 1(4) held by simp
    obtain ls r where sp: "split_lines (held @ bs) = (ls, r)" by force
    have z: "0 \<notin> set (held @ bs)" "0 \<notin> set (r @ concat cs')"
      using 1(2) c(1) [symmetric] split_lines_rest [OF sp] by auto
    have gl: "grep_lines pattern (held @ bs) = (r, matching pattern ls)" using grep_lines_split [OF z(1)] sp by simp
    have all: "held @ concat cs = (held @ bs) @ concat cs'" using c(1) by simp
    have app: "split_lines (held @ concat cs) = (ls @ fst (split_lines (r @ concat cs')), snd (split_lines (r @ concat cs')))"
      unfolding all split_lines_append [of "held @ bs"] sp by (simp add: case_prod_beta Let_def)
    then have sh: "short_lines (r @ concat cs')" using 1(5) by (simp add: short_lines_def)
    have "grep pattern r cs' = matching pattern (fst (split_lines (r @ concat cs')))"
      using 1(1) [OF rp [symmetric] refl bs gl [symmetric] refl z(2) _ _ sh] split_lines_rest [OF sp] c(2) [OF 1(4)] by simp
    then show ?thesis using rp gl bs app by (subst grep.simps) (simp add: matching_def)
  qed
qed

text \<open>
  C40: What \<open>grep\<close> prints. If the input has no nul byte and no line of 1023 bytes or more, then however the
  reads cut it into pieces, the output is the complete lines that match the pattern, in order, each
  with its newline. The bytes after the last newline are never printed, even if they match.
\<close>

theorem grep_prints_matching_lines:
  assumes "0 \<notin> set (concat cs)" and "[] \<notin> set cs" and "short_lines (concat cs)"
  shows "grep pattern [] cs = matching pattern (fst (split_lines (concat cs)))"
  using grep_matching [of "[]" cs pattern] assms by simp

theorem grep_prints_matching_lines_witness:
  "grep [97] [] [[98, 10, 98], [97, 10, 97]] = [[98, 97, 10]] \<and>
   matching [97] (fst (split_lines (concat [[98, 10, 98], [97, 10, 97]]))) = [[98, 97, 10]]"
proof -
  have m: "matching [97] (fst (split_lines (concat [[98, 10, 98], [97, 10, 97]]))) = [[98, 97, 10]]" by code_simp
  have "short_lines (concat [[98, 10, 98], [97, 10, 97]])" by code_simp
  from grep_prints_matching_lines [OF _ _ this, of "[97]"] m show ?thesis by simp
qed

section \<open>The program\<close>

definition ascii :: "string \<Rightarrow> u8 list" where
  "ascii = map of_char"

text \<open>
  \<open>main\<close> on the arguments after the program name: the writes it makes, as pairs of a descriptor and
  bytes, and its exit status. A message of \<open>printf\<close> is one pair, though \<open>printf\<close> writes it byte by byte.
  \<open>files\<close> gives the pieces a file delivers, or \<open>None\<close> if it cannot be opened.
\<close>

fun grep_files :: "(u8 list \<Rightarrow> u8 list list option) \<Rightarrow> u8 list \<Rightarrow> u8 list list \<Rightarrow> (nat \<times> u8 list) list \<times> int" where
  "grep_files files pattern [] = ([], 0)"
| "grep_files files pattern (f # fs) =
     (case files f of
        None \<Rightarrow> ([(1, ascii ''grep: cannot open '' @ f @ [chr_newline])], 1)
      | Some cs \<Rightarrow> let (out, st) = grep_files files pattern fs in (map (Pair 1) (grep pattern [] cs) @ out, st))"

definition grep_main :: "(u8 list \<Rightarrow> u8 list list option) \<Rightarrow> u8 list list \<Rightarrow> u8 list list \<Rightarrow> (nat \<times> u8 list) list \<times> int" where
  "grep_main files stdin args =
     (case args of
        [] \<Rightarrow> ([(2, ascii ''usage: grep pattern [file ...]'' @ [chr_newline])], 1)
      | [pattern] \<Rightarrow> (map (Pair 1) (grep pattern [] stdin), 0)
      | pattern # fs \<Rightarrow> grep_files files pattern fs)"

end
