(* ===== verification/Spec2Isabelle.thy ===== *)
theory Spec2Isabelle
  imports CString Spinlock Sched_Live Fs_Path Trap Grep
begin

text \<open>
  A verification of the xv6 kernel for RISC-V, \<^verbatim>\<open>kernel/\<close>, and of the program \<^verbatim>\<open>user/grep.c\<close>.

  \<^bold>\<open>The program.\<close> A hart boots in \<^verbatim>\<open>entry.S\<close> and \<^verbatim>\<open>start.c\<close> and enters \<^verbatim>\<open>main.c\<close>, which
  initialises every component. From then on the kernel runs because of traps: user code enters it through
  \<^verbatim>\<open>trampoline.S\<close> and \<^verbatim>\<open>trap.c\<close>, system calls are dispatched by \<^verbatim>\<open>syscall.c\<close> to \<^verbatim>\<open>sysproc.c\<close> and
  \<^verbatim>\<open>sysfile.c\<close>. The files below those are layered: open files (\<^verbatim>\<open>file.c\<close>, \<^verbatim>\<open>pipe.c\<close>,
  \<^verbatim>\<open>console.c\<close>), inodes and path names (\<^verbatim>\<open>fs.c\<close>), the redo log (\<^verbatim>\<open>log.c\<close>), the buffer cache
  (\<^verbatim>\<open>bio.c\<close>) and the disk driver (\<^verbatim>\<open>virtio_disk.c\<close>); on the side of memory, processes and programs
  (\<^verbatim>\<open>proc.c\<close>, \<^verbatim>\<open>exec.c\<close>), page tables (\<^verbatim>\<open>vm.c\<close>) and the page allocator (\<^verbatim>\<open>kalloc.c\<close>).

  \<^bold>\<open>How the code is modelled.\<close> A C function is a function of the same name from its arguments and
  the state to a result, \<open>Ret x s\<close>, \<open>Panic m\<close> (the code called \<open>panic\<close>) or \<open>Block c s\<close> (the process
  went to sleep on channel \<open>c\<close>); theory \<open>Prelude\<close> has the type and its combinators. Integers are words
  of the width they have in C. Physical memory is a function from addresses to bytes, and page tables, the
  free list, trapframes and disk structures are read and written in it, or in disk blocks, at the
  offsets of the C structures (\<open>Bytes\<close>, \<open>Machine\<close>). The state is a record that each component extends
  with its own variables, in the order \<open>Kalloc\<close>, \<open>Vm\<close>, \<open>Proc_State\<close>, \<open>Bio\<close>, \<open>Log\<close>, \<open>Uart\<close>, \<open>Fs\<close>,
  \<open>Console\<close>, \<open>Pipe\<close>, \<open>File\<close>, \<open>Proc\<close>, \<open>Virtio\<close>, \<open>Trap\<close>. These theories follow one process through the
  kernel, with spin locks left out; \<open>Spinlock\<close> and \<open>Sched\<close> are step relations over all CPUs and show what that
  view relies on.

  \<^bold>\<open>The theories, what they model, and what they show.\<close>

  \<^item> \<open>Interfaces\<close>: the contracts \<open>allocator\<close> (interpreted by the page allocator and by the descriptors of
    the disk driver) and \<open>fifo\<close> (interpreted by pipes and by the transmit buffer of the UART).
  \<^item> \<open>CString\<close> (\<^verbatim>\<open>string.c\<close>): \<open>memmove\<close> is right for overlapping areas; the string functions.
  \<^item> \<open>Kalloc\<close> (\<^verbatim>\<open>kalloc.c\<close>): the free list in memory is well formed, \<open>kinit\<close> frees every page, and no
    page is handed out twice.
  \<^item> \<open>Vm\<close>, \<open>Vm_Map\<close>, \<open>Vm_Copy\<close> (\<^verbatim>\<open>vm.c\<close>): a page table means a function from pages to entries; \<open>copyout\<close>
    modifies only memory the user may write, and \<open>copyin\<close> reads back what it wrote.
  \<^item> \<open>Proc_State\<close> (\<^verbatim>\<open>proc.h\<close>, \<^verbatim>\<open>sleeplock.c\<close>): the process table and sleep locks.
  \<^item> \<open>Bio\<close>, \<open>Bio_View\<close> (\<^verbatim>\<open>bio.c\<close>): the doubly linked list of buffers; \<open>bread\<close> refines reading a block of an
    abstract disk.
  \<^item> \<open>Log\<close>, \<open>Crash\<close> (\<^verbatim>\<open>log.c\<close>): a commit cut off after any of its disk writes and followed by recovery has
    happened completely or not at all; and the bound that \<open>begin_op\<close> uses is larger than the one
    \<open>log_write\<close> enforces.
  \<^item> \<open>Fs\<close>, \<open>Fs_View\<close>, \<open>Fs_Alloc\<close>, \<open>Fs_File\<close>, \<open>Fs_Write\<close>, \<open>File_Contents\<close>, \<open>Fs_Path\<close> (\<^verbatim>\<open>fs.c\<close>): the
    operations, then their meaning inside a transaction. \<open>balloc\<close> and \<open>bfree\<close> keep the bitmap, \<open>readi\<close> and
    \<open>writei\<close> refine reading and overwriting a list of bytes, a write that ends with \<open>end_op\<close> is durable,
    \<open>dirlookup\<close> finds the first entry with the name, and \<open>skipelem\<close> splits a path at its slashes.
  \<^item> \<open>Uart\<close>, \<open>Printf\<close>, \<open>Console\<close> (\<^verbatim>\<open>uart.c\<close>, \<^verbatim>\<open>printf.c\<close>, \<^verbatim>\<open>console.c\<close>): output leaves in order; the
    numbers \<open>printint\<close> prints, and the format for which it overruns its buffer; the input buffer refines
    an edited line and a queue of finished input.
  \<^item> \<open>Pipe\<close>, \<open>File\<close> (\<^verbatim>\<open>pipe.c\<close>, \<^verbatim>\<open>file.c\<close>): the counters of a pipe, which wrap around, implement a queue.
  \<^item> \<open>Proc\<close>, \<open>Exec\<close>, \<open>Sysarg\<close>, \<open>Sysfile\<close>, \<open>Syscall\<close> (\<^verbatim>\<open>proc.c\<close>, \<^verbatim>\<open>exec.c\<close>, \<^verbatim>\<open>syscall.c\<close>, \<^verbatim>\<open>sysproc.c\<close>,
    \<^verbatim>\<open>sysfile.c\<close>): every system call, and what it calls in these files. They are definitions that
    the theorem on system calls in \<open>Trap\<close> dispatches to; no theorem is stated about a single one of them,
    nor about \<open>File\<close> beyond the pipes below it.
  \<^item> \<open>Virtio\<close> (\<^verbatim>\<open>virtio_disk.c\<close>): a request and the device's answer to it have the effect the buffer cache
    assumes, and no descriptor is in two requests.
  \<^item> \<open>Spinlock\<close> (\<^verbatim>\<open>spinlock.c\<close>): mutual exclusion, when the code panics, nesting of \<open>push_off\<close>.
  \<^item> \<open>Sched\<close>, \<open>Sched_Live\<close> (\<^verbatim>\<open>proc.c\<close>): no process is on two CPUs, no wakeup is lost, a runnable process
    is run by a CPU that keeps scheduling.
  \<^item> \<open>Riscv\<close>, \<open>Trampoline\<close>, \<open>Trap\<close> (\<^verbatim>\<open>entry.S\<close>, \<^verbatim>\<open>start.c\<close>, \<^verbatim>\<open>trampoline.S\<close>, \<^verbatim>\<open>kernelvec.S\<close>,
    \<^verbatim>\<open>swtch.S\<close>, \<^verbatim>\<open>trap.c\<close>, \<^verbatim>\<open>plic.c\<close>, \<^verbatim>\<open>main.c\<close>): boot stacks are disjoint, registers survive traps and
    context switches, a timer interrupt is invisible to user code, a system call returns after its
    \<open>ecall\<close> with its result in \<open>a0\<close>.
  \<^item> \<open>Grep\<close> (\<^verbatim>\<open>user/grep.c\<close>): the matcher decides the language of its pattern, and the program prints the
    complete lines that match. This theory stands alone; what \<open>read\<close> returns is an argument.

  \<^bold>\<open>Bounds.\<close> Loops are recursion on the data they consume: a list of the indices a \<open>for\<close> loop takes, the
  number of bytes left, the levels of a page table; or on a quantity shown to decrease, as the quotient
  in \<open>printint\<close>, the rest of the path in \<open>namex\<close> and the rest of the buffer in \<open>grep\<close>. The loop of
  control-U in the console takes a bound, the number of characters in the edited line, and each
  iteration removes one; the scans of \<open>bget\<close> take \<open>NBUF + 1\<close>, which reaches the head of the list of \<open>NBUF\<close>
  buffers again. \<open>strlen\<close> is a partial function, undefined on a string without a nul. Loops that wait for another process end in \<open>Block\<close>.

  \<^bold>\<open>Hardware.\<close> What a device answers is part of the state or an argument: the room in the UART's
  transmitter, the registers of the disk, the value of the interrupt controller's claim register.
  The virtio device performs block requests as its standard prescribes.

  \<^bold>\<open>Not modelled.\<close> The shell, the user library, the allocator \<^verbatim>\<open>umalloc.c\<close> and the other user programs, which
  are clients of the system calls; the test programs; \<^verbatim>\<open>mkfs.c\<close>, which runs on the host; link scripts and
  generated stubs. The sequential theories do not interleave two processes inside one system call, and
  instruction ordering of the memory system is taken to be sequentially consistent.
\<close>

end
